(* ===== verification/Dogee_Prelude.thy ===== *)
theory Dogee_Prelude
  imports Main "HOL-Library.Word"
begin

text \<open>
  Shared vocabulary of the development: the machine integers and keys of
  \<^verbatim>\<open>include/Dogee.h\<close>, the block masks of \<^verbatim>\<open>include/DogeeStorage.h\<close>, the outcome type
  used for C++ functions that may throw, trap or read an indeterminate value, the
  little-endian layout of words in byte and word buffers, and the abstract distributed
  shared memory (a word for every field of every object) with its block read and write.
  The lemmas here translate the word arithmetic of the code into arithmetic on naturals.
\<close>

unbundle bit_operations_syntax

named_theorems dsm_simps \<open>reading the abstract shared memory after a write\<close>
named_theorems key_simps \<open>arithmetic of object, field and block keys\<close>

section \<open>Machine integers and keys\<close>

type_synonym u8 = "8 word"
type_synonym u32 = "32 word"
type_synonym u64 = "64 word"

type_synonym ObjectKey = u32
type_synonym FieldKey = u32
type_synonym LongKey = u64

definition MAKE64 :: "u32 \<Rightarrow> u32 \<Rightarrow> u64" where
  "MAKE64 a b = push_bit 32 (ucast a) OR ucast b"

definition DSM_CACHE_BITS :: nat where
  "DSM_CACHE_BITS = 5"

definition DSM_CACHE_BLOCK_SIZE :: nat where
  "DSM_CACHE_BLOCK_SIZE = 2 ^ DSM_CACHE_BITS"

definition DSM_CACHE_HIGH_MASK :: u32 where
  "DSM_CACHE_HIGH_MASK = push_bit DSM_CACHE_BITS (drop_bit DSM_CACHE_BITS 0xffffffff)"

definition DSM_CACHE_LOW_MASK :: u32 where
  "DSM_CACHE_LOW_MASK = NOT DSM_CACHE_HIGH_MASK"

definition DSM_CACHE_HIGH_MASK_64 :: u64 where
  "DSM_CACHE_HIGH_MASK_64 = push_bit DSM_CACHE_BITS (drop_bit DSM_CACHE_BITS 0xffffffffffffffff)"

definition DSM_CACHE_LOW_MASK_64 :: u64 where
  "DSM_CACHE_LOW_MASK_64 = NOT DSM_CACHE_HIGH_MASK_64"

definition DSM_CACHE_BAD_KEY :: u64 where
  "DSM_CACHE_BAD_KEY = ucast DSM_CACHE_LOW_MASK"

definition DSM_CACHE_SIZE :: nat where
  "DSM_CACHE_SIZE = 1024"

lemma DSM_CACHE_BLOCK_SIZE_eq [simp]: "DSM_CACHE_BLOCK_SIZE = 32"
  by (simp add: DSM_CACHE_BLOCK_SIZE_def DSM_CACHE_BITS_def)

lemma HIGH_MASK_eq: "DSM_CACHE_HIGH_MASK = 0xffffffe0"
  by (simp add: DSM_CACHE_HIGH_MASK_def DSM_CACHE_BITS_def)

lemma LOW_MASK_eq: "DSM_CACHE_LOW_MASK = 31"
  by (simp add: DSM_CACHE_LOW_MASK_def HIGH_MASK_eq)

lemma HIGH_MASK_64_eq: "DSM_CACHE_HIGH_MASK_64 = 0xffffffffffffffe0"
  by (simp add: DSM_CACHE_HIGH_MASK_64_def DSM_CACHE_BITS_def)

lemma LOW_MASK_64_eq: "DSM_CACHE_LOW_MASK_64 = 31"
  by (simp add: DSM_CACHE_LOW_MASK_64_def HIGH_MASK_64_eq)

lemma BAD_KEY_eq: "DSM_CACHE_BAD_KEY = 31"
  by (simp add: DSM_CACHE_BAD_KEY_def LOW_MASK_eq)

lemma low_mask_eq: "(31 :: u32) = mask 5" "(31 :: u64) = mask 5"
  by (simp_all add: mask_eq_exp_minus_1)

lemma high_mask_eq: "(0xffffffe0 :: u32) = NOT (mask 5)" "(0xffffffffffffffe0 :: u64) = NOT (mask 5)"
  by (simp_all add: mask_eq_exp_minus_1)

lemma unat_and_mask: "unat (w AND mask n) = unat (w :: 'a::len word) mod 2 ^ n"
  by (simp flip: take_bit_eq_mask take_bit_eq_mod add: unsigned_take_bit_eq)

lemma and_not_mask_eq: "w AND NOT (mask n) = push_bit n (drop_bit n (w :: 'a::len word))"
  by (rule bit_word_eqI) (auto simp: bit_simps)

lemma unat_and_not_mask: "unat (w AND NOT (mask n)) = unat (w :: 'a::len word) div 2 ^ n * 2 ^ n"
proof -
  have "unat (push_bit n (drop_bit n w)) = push_bit n (drop_bit n (unat w))"
    by (rule bit_eqI) (auto simp: bit_simps dest: bit_imp_le_length)
  then show ?thesis
    by (simp add: and_not_mask_eq push_bit_eq_mult drop_bit_eq_div)
qed

lemma unat_and_low [key_simps]: "unat (w AND DSM_CACHE_LOW_MASK) = unat w mod 32"
  using unat_and_mask [of w 5] by (simp add: LOW_MASK_eq low_mask_eq)

lemma unat_and_low_64 [key_simps]: "unat (w AND DSM_CACHE_LOW_MASK_64) = unat w mod 32"
  using unat_and_mask [of w 5] by (simp add: LOW_MASK_64_eq low_mask_eq)

lemma unat_and_high [key_simps]: "unat (w AND DSM_CACHE_HIGH_MASK) = unat w div 32 * 32"
  using unat_and_not_mask [of w 5] by (simp add: HIGH_MASK_eq high_mask_eq)

lemma unat_and_high_64 [key_simps]: "unat (w AND DSM_CACHE_HIGH_MASK_64) = unat w div 32 * 32"
  using unat_and_not_mask [of w 5] by (simp add: HIGH_MASK_64_eq high_mask_eq)

text \<open>Arithmetic of blocks of 32 words.\<close>

lemma block_split:
  fixes n :: nat
  obtains q r where "n = 32 * q + r" "r < 32" "n div 32 = q" "n mod 32 = r"
  by (rule that [of "n div 32" "n mod 32"]) simp_all

lemma ceil_div_32: "(n + 31) div 32 = n div 32 + (if n mod 32 = 0 then 0 else 1)" for n :: nat
  by (rule block_split [of n]) (auto intro!: div_nat_eqI)

lemma block_div:
  fixes f base :: nat
  assumes "base mod 32 = 0"
  shows "f div 32 = base div 32 \<longleftrightarrow> base \<le> f \<and> f < base + 32"
  by (rule block_split [of f], rule block_split [of base]) (use assms in auto)

lemma block_mod:
  fixes base i :: nat
  assumes "base mod 32 = 0" "i < 32"
  shows "(base + i) mod 32 = i" "base + i < 32 * Suc (base div 32)"
  by (rule block_split [of base]; use assms in simp)+

lemma block_le:
  fixes i e :: nat
  assumes "i mod 32 = 0" "e mod 32 = 0" "i < e"
  shows "i + 32 \<le> e"
  by (rule block_split [of i], rule block_split [of e]) (use assms in auto)

lemma block_room:
  fixes base i :: nat
  assumes "base mod 32 = 0" "i < 32" "base < 4294967296"
  shows "base + i < 4294967296"
  by (rule block_split [of base]) (use assms in auto)

lemma unat_u32_less: "unat (a :: u32) < 4294967296"
  using unsigned_less [of a] by simp

lemma unat_u64_less: "unat (a :: u64) < 18446744073709551616"
  using unsigned_less [of a] by simp

lemma unat_add_of_nat [key_simps]:
  "unat (b :: 'a::len word) + i < 2 ^ LENGTH('a) \<Longrightarrow> unat (b + of_nat i) = unat b + i"
  by (simp add: unat_word_ariths unat_of_nat)

lemma unat_of_nat_small [key_simps]: "i < 2 ^ LENGTH('a) \<Longrightarrow> unat (of_nat i :: 'a::len word) = i"
  by (simp add: unat_of_nat)

lemma of_nat_inject_small:
  "i < 2 ^ LENGTH('a) \<Longrightarrow> j < 2 ^ LENGTH('a) \<Longrightarrow> (of_nat i :: 'a::len word) = of_nat j \<longleftrightarrow> i = j"
  by (metis unat_of_nat_small)

lemma unat_sub_le: "unat b \<le> unat a \<Longrightarrow> unat (a - b) = unat a - unat (b :: 'a::len word)"
  by (rule unat_sub) (simp add: word_le_nat_alt)

lemma unat_diff_eq_iff:
  assumes "j < 2 ^ LENGTH('a)"
  shows "unat (k' - k :: 'a::len word) = j \<longleftrightarrow> k' = k + of_nat j"
proof -
  have "unat (k' - k) = j \<longleftrightarrow> k' - k = of_nat j"
    using assms by (auto simp: word_unat_eq_iff unat_of_nat_small)
  then show ?thesis by (auto simp: algebra_simps)
qed

lemma sint_small:
  assumes "unat (w :: u32) < 2147483648"
  shows "sint w = int (unat w)"
proof -
  have "uint w < 2147483648" using assms unfolding uint_nat by linarith
  moreover have "- (2 ^ 31) \<le> uint w" using order_trans [of "- (2 ^ 31)" 0 "uint w"] by simp
  ultimately have "signed_take_bit 31 (uint w) = uint w" by (intro signed_take_bit_int_eq_self) simp_all
  then have "sint w = uint w" by (simp add: sint_uint)
  then show ?thesis by (simp only: uint_nat)
qed

lemma unat_less_header: "unat k < 4294967295 \<Longrightarrow> k \<noteq> (0xFFFFFFFF :: u32)"
  by auto

lemma unat_MAKE64 [key_simps]: "unat (MAKE64 a b) = unat a * 4294967296 + unat b"
proof -
  have "unat (MAKE64 a b) = push_bit 32 (unat a) OR unat b"
    by (rule bit_eqI) (auto simp: MAKE64_def bit_simps dest: bit_imp_le_length)
  also have "\<dots> = push_bit 32 (unat a) + unat b"
    by (rule disjunctive_add [symmetric]) (auto simp: bit_simps dest: bit_imp_le_length)
  finally show ?thesis by (simp add: push_bit_eq_mult)
qed

lemma MAKE64_inject [simp]: "MAKE64 a b = MAKE64 c d \<longleftrightarrow> a = c \<and> b = d"
proof
  assume "MAKE64 a b = MAKE64 c d"
  then have eq: "unat a * 4294967296 + unat b = unat c * 4294967296 + unat d"
    by (metis unat_MAKE64)
  have a: "unat a = unat c"
    using eq unat_u32_less [of b] unat_u32_less [of d] by simp
  with eq have "unat b = unat d" by simp
  with a show "a = c \<and> b = d" by (simp only: word_unat_eq_iff)
qed simp

lemma MAKE64_add:
  assumes "unat b + i < 4294967296"
  shows "MAKE64 a b + of_nat i = MAKE64 a (b + of_nat i)"
proof -
  have "unat (MAKE64 a b) + i < 2 ^ 64"
    using assms unat_u32_less [of a] by (simp add: unat_MAKE64)
  then have "unat (MAKE64 a b + of_nat i) = unat (MAKE64 a (b + of_nat i))"
    using assms by (simp add: unat_add_of_nat unat_MAKE64)
  then show ?thesis by (simp only: word_unat_eq_iff)
qed

lemma MAKE64_split: "\<exists>a b. k = MAKE64 a b"
proof -
  have "k = MAKE64 (ucast (drop_bit 32 k)) (ucast k)"
    by (rule bit_word_eqI) (auto simp: MAKE64_def bit_simps)
  then show ?thesis by blast
qed

section \<open>Outcomes\<close>

text \<open>
  What a C++ call can do beside returning a value: throw, hit a trap (\<^verbatim>\<open>_BreakPoint\<close>, a failed
  \<^verbatim>\<open>assert\<close> or \<^verbatim>\<open>abort\<close>), or depend on a variable nothing has written.
\<close>

datatype 'a cxx = Ret 'a | Throw int | Trap | Indeterminate

fun cxx_bind :: "'a cxx \<Rightarrow> ('a \<Rightarrow> 'b cxx) \<Rightarrow> 'b cxx" where
  "cxx_bind (Ret a) f = f a"
| "cxx_bind (Throw e) f = Throw e"
| "cxx_bind Trap f = Trap"
| "cxx_bind Indeterminate f = Indeterminate"

section \<open>Words in byte buffers\<close>

definition u32_bytes :: "u32 \<Rightarrow> u8 list" where
  "u32_bytes w = [ucast w, ucast (drop_bit 8 w), ucast (drop_bit 16 w), ucast (drop_bit 24 w)]"

definition u32_of_bytes :: "u8 \<Rightarrow> u8 \<Rightarrow> u8 \<Rightarrow> u8 \<Rightarrow> u32" where
  "u32_of_bytes a b c d =
     ucast a OR push_bit 8 (ucast b) OR push_bit 16 (ucast c) OR push_bit 24 (ucast d)"

definition bytes_of_words :: "u32 list \<Rightarrow> u8 list" where
  "bytes_of_words ws = concat (map u32_bytes ws)"

fun words_of_bytes :: "u8 list \<Rightarrow> u32 list" where
  "words_of_bytes (a # b # c # d # bs) = u32_of_bytes a b c d # words_of_bytes bs"
| "words_of_bytes bs = []"

text \<open>A \<^verbatim>\<open>uint64_t\<close> buffer read through a \<^verbatim>\<open>uint32_t\<close> pointer: the low word comes first.\<close>

definition u64_words :: "u64 \<Rightarrow> u32 list" where
  "u64_words v = [ucast v, ucast (drop_bit 32 v)]"

definition words_of_u64s :: "u64 list \<Rightarrow> u32 list" where
  "words_of_u64s vs = concat (map u64_words vs)"

fun u64s_of_words :: "u32 list \<Rightarrow> u64 list" where
  "u64s_of_words (a # b # ws) = MAKE64 b a # u64s_of_words ws"
| "u64s_of_words ws = []"

lemma u32_of_bytes_u32 [simp]:
  "u32_of_bytes (ucast w) (ucast (drop_bit 8 w)) (ucast (drop_bit 16 w)) (ucast (drop_bit 24 w)) = w"
proof (rule bit_word_eqI)
  fix n assume n: "n < LENGTH(32)"
  consider "n < 8" | "8 \<le> n" "n < 16" | "16 \<le> n" "n < 24" | "24 \<le> n"
    using n by linarith
  then show "bit (u32_of_bytes (ucast w) (ucast (drop_bit 8 w)) (ucast (drop_bit 16 w))
      (ucast (drop_bit 24 w))) n = bit w n"
    using n by cases (auto simp: u32_of_bytes_def bit_or_iff bit_push_bit_iff bit_drop_bit_eq
      bit_ucast_iff possible_bit_word)
qed

lemma length_u32_bytes [simp]: "length (u32_bytes w) = 4"
  by (simp add: u32_bytes_def)

lemma bytes_of_words_simps [simp]:
  "bytes_of_words [] = []"
  "bytes_of_words (w # ws) = u32_bytes w @ bytes_of_words ws"
  by (simp_all add: bytes_of_words_def)

lemma length_bytes_of_words [simp]: "length (bytes_of_words ws) = 4 * length ws"
  by (induction ws) simp_all

lemma words_of_bytes_u32 [simp]: "words_of_bytes (u32_bytes w @ bs) = w # words_of_bytes bs"
  by (simp add: u32_bytes_def)

lemma words_of_bytes_of_words [simp]: "words_of_bytes (bytes_of_words ws) = ws"
  by (induction ws) simp_all

lemma bytes_of_words_of_bytes: "length bs mod 4 = 0 \<Longrightarrow> bytes_of_words (words_of_bytes bs) = bs"
proof (induction bs rule: words_of_bytes.induct)
  case (1 a b c d bs)
  have "u32_bytes (u32_of_bytes a b c d) = [a, b, c, d]"
    by (auto simp: u32_bytes_def u32_of_bytes_def intro!: bit_word_eqI simp: bit_simps) (auto dest!: bit_imp_le_length)
  then show ?case using 1 by simp
qed (auto simp: mod_Suc)

lemma takeWhile_terminated:
  assumes "0 \<notin> set s"
  shows "takeWhile (\<lambda>c. c \<noteq> 0) ((s @ pad)[length s := 0]) = s"
proof -
  have "takeWhile (\<lambda>c. c \<noteq> 0) s = s" using assms by (auto simp: takeWhile_eq_all_conv)
  then show ?thesis using assms by (cases pad) (simp_all add: list_update_append list_update_beyond takeWhile_append)
qed

lemma take_words_of_bytes: "take n (words_of_bytes bs) = words_of_bytes (take (4 * n) bs)"
proof (induction bs arbitrary: n rule: words_of_bytes.induct)
  case (1 a b c d bs)
  then show ?case by (cases n) (simp_all add: numeral_eq_Suc)
qed (simp_all add: take_Cons' numeral_eq_Suc)

lemma length_words_of_bytes: "length (words_of_bytes bs) = length bs div 4"
  by (induction bs rule: words_of_bytes.induct) simp_all

lemma u64_of_u64_words [simp]: "MAKE64 (ucast (drop_bit 32 v)) (ucast v) = v"
  by (rule bit_word_eqI) (auto simp: MAKE64_def bit_simps)

lemma words_of_u64s_simps [simp]:
  "words_of_u64s [] = []"
  "words_of_u64s (v # vs) = u64_words v @ words_of_u64s vs"
  by (simp_all add: words_of_u64s_def)

lemma length_words_of_u64s [simp]: "length (words_of_u64s vs) = 2 * length vs"
  by (induction vs) (simp_all add: u64_words_def)

lemma u64s_of_words_of_u64s [simp]: "u64s_of_words (words_of_u64s vs) = vs"
  by (induction vs) (simp_all add: u64_words_def)

section \<open>Buffers\<close>

text \<open>\<open>overwrite buf p ws\<close> is \<^verbatim>\<open>memcpy (buf + p, ws, ...)\<close> on a caller's buffer.\<close>

definition overwrite :: "'a list \<Rightarrow> nat \<Rightarrow> 'a list \<Rightarrow> 'a list" where
  "overwrite buf p ws = take p buf @ ws @ drop (p + length ws) buf"

lemma length_overwrite [simp]:
  "p + length ws \<le> length buf \<Longrightarrow> length (overwrite buf p ws) = length buf"
  by (simp add: overwrite_def)

lemma nth_overwrite:
  assumes "p + length ws \<le> length buf" "i < length buf"
  shows "overwrite buf p ws ! i = (if p \<le> i \<and> i < p + length ws then ws ! (i - p) else buf ! i)"
  using assms by (auto simp: overwrite_def nth_append)

lemma overwrite_all: "length ws = length buf \<Longrightarrow> overwrite buf 0 ws = ws"
  by (simp add: overwrite_def)

lemma overwrite_Nil [simp]: "overwrite buf p [] = buf"
  by (simp add: overwrite_def)

lemma overwrite_Cons:
  "p < length buf \<Longrightarrow> overwrite buf p (x # ws) = overwrite (buf[p := x]) (Suc p) ws"
  by (simp add: overwrite_def upd_conv_take_nth_drop add.commute)

section \<open>The abstract distributed shared memory\<close>

text \<open>
  What the storage backends and the cache promise to implement: one 32-bit word for every
  field of every object, 0 where nothing was written.
\<close>

type_synonym dsm = "ObjectKey \<Rightarrow> FieldKey \<Rightarrow> u32"

definition dsm_read :: "dsm \<Rightarrow> ObjectKey \<Rightarrow> FieldKey \<Rightarrow> nat \<Rightarrow> u32 list" where
  "dsm_read mem key fld n = map (\<lambda>i. mem key (fld + of_nat i)) [0..<n]"

definition dsm_write :: "dsm \<Rightarrow> ObjectKey \<Rightarrow> FieldKey \<Rightarrow> u32 list \<Rightarrow> dsm" where
  "dsm_write mem key fld ws = (\<lambda>k f.
     if k = key \<and> unat fld \<le> unat f \<and> unat f < unat fld + length ws
     then ws ! (unat f - unat fld) else mem k f)"

text \<open>
  The fields a block operation may touch: the last block of an object's field space is left
  out (its last field holds the object's header, and block rounding would wrap there).
\<close>

definition dsm_range :: "FieldKey \<Rightarrow> nat \<Rightarrow> bool" where
  "dsm_range fld n \<longleftrightarrow> unat fld + n \<le> 2 ^ 32 - 32"

lemma length_dsm_read [simp]: "length (dsm_read mem key fld n) = n"
  by (simp add: dsm_read_def)

lemma dsm_range_unat: "dsm_range fld n \<Longrightarrow> i \<le> n \<Longrightarrow> unat (fld + of_nat i) = unat fld + i"
  by (simp add: dsm_range_def unat_add_of_nat)

lemma dsm_write_Nil [simp]: "dsm_write mem key fld [] = mem"
  by (auto simp: dsm_write_def fun_eq_iff)

lemma dsm_write_other [dsm_simps]: "k \<noteq> key \<Longrightarrow> dsm_write mem key fld ws k f = mem k f"
  by (simp add: dsm_write_def)

lemma dsm_read_write_same [dsm_simps]:
  assumes "dsm_range fld (length ws)"
  shows "dsm_read (dsm_write mem key fld ws) key fld (length ws) = ws"
  using assms by (intro nth_equalityI) (simp_all add: dsm_read_def dsm_write_def dsm_range_unat)

lemma dsm_read_write_disjoint [dsm_simps]:
  assumes "dsm_range fld n" "dsm_range fld' (length ws)"
    and "key \<noteq> key' \<or> unat fld + n \<le> unat fld' \<or> unat fld' + length ws \<le> unat fld"
  shows "dsm_read (dsm_write mem key' fld' ws) key fld n = dsm_read mem key fld n"
  using assms by (auto simp: dsm_read_def dsm_write_def dsm_range_unat)

lemma dsm_write_append:
  assumes "dsm_range fld (length (xs @ ys))"
  shows "dsm_write (dsm_write mem key fld xs) key (fld + of_nat (length xs)) ys
    = dsm_write mem key fld (xs @ ys)"
  using assms by (auto simp: dsm_write_def fun_eq_iff dsm_range_unat nth_append)

lemma dsm_read_append:
  assumes "dsm_range fld (m + n)"
  shows "dsm_read mem key fld (m + n) = dsm_read mem key fld m @ dsm_read mem key (fld + of_nat m) n"
proof (rule nth_equalityI)
  fix i assume "i < length (dsm_read mem key fld (m + n))"
  then show "dsm_read mem key fld (m + n) ! i =
      (dsm_read mem key fld m @ dsm_read mem key (fld + of_nat m) n) ! i"
    by (auto simp: dsm_read_def nth_append add.assoc simp flip: of_nat_add)
qed simp

end
