(* ===== verification/Dogee_Storage.thy ===== *)
theory Dogee_Storage
  imports Dogee_Prelude
begin

text \<open>
  The interface layer of \<^verbatim>\<open>include/DogeeStorage.h\<close>: the status codes, the abstract classes
  \<^verbatim>\<open>SoStorage\<close> and \<^verbatim>\<open>DSMCache\<close> as records of operations (their virtual tables), the
  pass-through cache \<^verbatim>\<open>DSMNoCache\<close>, and the contract \<open>dsm_storage\<close> a backend has to meet:
  every operation acts on the abstract shared memory. The lemmas proved from the contract
  (round trips, independence of disjoint ranges, refinement of whole operation sequences) are
  used for both memcached backends.
\<close>

section \<open>Status codes and virtual tables\<close>

datatype SoStatus = SoOK | SoUnknown | SoKeyNotFound | SoFail

text \<open>
  A member function becomes a field. Read operations see the storage state, write operations
  return the new one. A buffer parameter is the caller's buffer; an output buffer is returned.
  A status of \<open>None\<close> is a local variable that was returned without being written. \<open>getinfo\<close>
  leaves its reference parameters alone on failure: it returns \<open>None\<close> for them.
\<close>

record 's SoStorage =
  so_del :: "'s \<Rightarrow> ObjectKey \<Rightarrow> ('s \<times> SoStatus) cxx"
  so_newobj :: "'s \<Rightarrow> ObjectKey \<Rightarrow> u32 \<Rightarrow> u32 \<Rightarrow> 's \<times> SoStatus"
  so_getinfo :: "'s \<Rightarrow> ObjectKey \<Rightarrow> SoStatus \<times> (u32 \<times> u32) option"
  so_put64 :: "'s \<Rightarrow> ObjectKey \<Rightarrow> FieldKey \<Rightarrow> u64 \<Rightarrow> 's \<times> SoStatus"
  so_put32 :: "'s \<Rightarrow> ObjectKey \<Rightarrow> FieldKey \<Rightarrow> u32 \<Rightarrow> 's \<times> SoStatus"
  so_get :: "'s \<Rightarrow> ObjectKey \<Rightarrow> FieldKey \<Rightarrow> u32 cxx"
  so_getchunk64 :: "'s \<Rightarrow> ObjectKey \<Rightarrow> FieldKey \<Rightarrow> u32 \<Rightarrow> u64 list \<Rightarrow> SoStatus option \<times> u64 list"
  so_getchunk32 :: "'s \<Rightarrow> ObjectKey \<Rightarrow> FieldKey \<Rightarrow> u32 \<Rightarrow> u32 list \<Rightarrow> SoStatus option \<times> u32 list"
  so_putchunk64 :: "'s \<Rightarrow> ObjectKey \<Rightarrow> FieldKey \<Rightarrow> u32 \<Rightarrow> u64 list \<Rightarrow> 's \<times> SoStatus"
  so_putchunk32 :: "'s \<Rightarrow> ObjectKey \<Rightarrow> FieldKey \<Rightarrow> u32 \<Rightarrow> u32 list \<Rightarrow> 's \<times> SoStatus"
  so_getblock :: "'s \<Rightarrow> LongKey \<Rightarrow> u32 list \<Rightarrow> SoStatus option \<times> u32 list"
  so_inc :: "'s \<Rightarrow> ObjectKey \<Rightarrow> FieldKey \<Rightarrow> u64 \<Rightarrow> ('s \<times> u64) cxx"
  so_dec :: "'s \<Rightarrow> ObjectKey \<Rightarrow> FieldKey \<Rightarrow> u64 \<Rightarrow> ('s \<times> u64) cxx"
  so_getcounter :: "'s \<Rightarrow> ObjectKey \<Rightarrow> FieldKey \<Rightarrow> u64 cxx"
  so_setcounter :: "'s \<Rightarrow> ObjectKey \<Rightarrow> FieldKey \<Rightarrow> u64 \<Rightarrow> 's \<times> SoStatus"

record 's DSMCache =
  dc_put64 :: "'s \<Rightarrow> ObjectKey \<Rightarrow> FieldKey \<Rightarrow> u64 \<Rightarrow> 's \<times> SoStatus option"
  dc_put32 :: "'s \<Rightarrow> ObjectKey \<Rightarrow> FieldKey \<Rightarrow> u32 \<Rightarrow> 's \<times> SoStatus option"
  dc_get :: "'s \<Rightarrow> ObjectKey \<Rightarrow> FieldKey \<Rightarrow> 's \<times> u32 cxx"
  dc_getchunk64 :: "'s \<Rightarrow> ObjectKey \<Rightarrow> FieldKey \<Rightarrow> u32 \<Rightarrow> u64 list \<Rightarrow> 's \<times> SoStatus option \<times> u64 list"
  dc_getchunk32 :: "'s \<Rightarrow> ObjectKey \<Rightarrow> FieldKey \<Rightarrow> u32 \<Rightarrow> u32 list \<Rightarrow> 's \<times> SoStatus option \<times> u32 list"
  dc_putchunk64 :: "'s \<Rightarrow> ObjectKey \<Rightarrow> FieldKey \<Rightarrow> u32 \<Rightarrow> u64 list \<Rightarrow> 's \<times> SoStatus option"
  dc_putchunk32 :: "'s \<Rightarrow> ObjectKey \<Rightarrow> FieldKey \<Rightarrow> u32 \<Rightarrow> u32 list \<Rightarrow> 's \<times> SoStatus option"

definition DSMNoCache :: "'s SoStorage \<Rightarrow> 's DSMCache" where
  "DSMNoCache backend = \<lparr>
     dc_put64 = (\<lambda>s key fldid v. map_prod id Some (so_put64 backend s key fldid v)),
     dc_put32 = (\<lambda>s key fldid v. map_prod id Some (so_put32 backend s key fldid v)),
     dc_get = (\<lambda>s key fldid. (s, so_get backend s key fldid)),
     dc_getchunk64 = (\<lambda>s key fldid len buf. (s, so_getchunk64 backend s key fldid len buf)),
     dc_getchunk32 = (\<lambda>s key fldid len buf. (s, so_getchunk32 backend s key fldid len buf)),
     dc_putchunk64 = (\<lambda>s key fldid len buf. map_prod id Some (so_putchunk64 backend s key fldid len buf)),
     dc_putchunk32 = (\<lambda>s key fldid len buf. map_prod id Some (so_putchunk32 backend s key fldid len buf)) \<rparr>"

section \<open>Sequences of storage calls\<close>

text \<open>
  A client sees a backend only through the results of its calls. \<open>so_exec\<close> performs one call on a
  backend, \<open>spec_exec\<close> the same call on the abstract memory and the table of object headers;
  \<open>spec_ok\<close> says when the contract covers the call (buffers of the right length, fields in
  range, an object deleted only when it exists and holds nothing beyond its own size).
\<close>

datatype so_op =
    Put32 ObjectKey FieldKey u32
  | Put64 ObjectKey FieldKey u64
  | Get ObjectKey FieldKey
  | PutChunk ObjectKey FieldKey "u32 list"
  | GetChunk ObjectKey FieldKey nat
  | NewObj ObjectKey u32 u32
  | GetInfo ObjectKey
  | Del ObjectKey

datatype so_obs =
    Status "SoStatus cxx"
  | Word "u32 cxx"
  | Words "SoStatus option" "u32 list"
  | Info SoStatus "(u32 \<times> u32) option"

fun so_exec :: "'s SoStorage \<Rightarrow> 's \<Rightarrow> so_op \<Rightarrow> 's \<times> so_obs" where
  "so_exec S s (Put32 key fld v) = map_prod id (\<lambda>r. Status (Ret r)) (so_put32 S s key fld v)"
| "so_exec S s (Put64 key fld v) = map_prod id (\<lambda>r. Status (Ret r)) (so_put64 S s key fld v)"
| "so_exec S s (Get key fld) = (s, Word (so_get S s key fld))"
| "so_exec S s (PutChunk key fld ws) =
     map_prod id (\<lambda>r. Status (Ret r)) (so_putchunk32 S s key fld (of_nat (length ws)) ws)"
| "so_exec S s (GetChunk key fld n) =
     (s, case so_getchunk32 S s key fld (of_nat n) (replicate n 0) of (r, ws) \<Rightarrow> Words r ws)"
| "so_exec S s (NewObj key flag sz) = map_prod id (\<lambda>r. Status (Ret r)) (so_newobj S s key flag sz)"
| "so_exec S s (GetInfo key) = (s, case so_getinfo S s key of (r, i) \<Rightarrow> Info r i)"
| "so_exec S s (Del key) =
     (case so_del S s key of Ret (s', r) \<Rightarrow> (s', Status (Ret r)) | Throw e \<Rightarrow> (s, Status (Throw e))
      | Trap \<Rightarrow> (s, Status Trap) | Indeterminate \<Rightarrow> (s, Status Indeterminate))"

fun so_run :: "'s SoStorage \<Rightarrow> 's \<Rightarrow> so_op list \<Rightarrow> 's \<times> so_obs list" where
  "so_run S s [] = (s, [])"
| "so_run S s (c # cs) =
     (case so_exec S s c of (s', r) \<Rightarrow> case so_run S s' cs of (s'', rs) \<Rightarrow> (s'', r # rs))"

type_synonym dsm_spec = "dsm \<times> (ObjectKey \<Rightarrow> (u32 \<times> u32) option)"

fun spec_exec :: "dsm_spec \<Rightarrow> so_op \<Rightarrow> dsm_spec \<times> so_obs" where
  "spec_exec (mem, info) (Put32 key fld v) = ((dsm_write mem key fld [v], info), Status (Ret SoOK))"
| "spec_exec (mem, info) (Put64 key fld v) =
     ((dsm_write mem key fld (u64_words v), info), Status (Ret SoOK))"
| "spec_exec (mem, info) (Get key fld) = ((mem, info), Word (Ret (mem key fld)))"
| "spec_exec (mem, info) (PutChunk key fld ws) =
     ((dsm_write mem key fld ws, info), Status (Ret SoOK))"
| "spec_exec (mem, info) (GetChunk key fld n) = ((mem, info), Words (Some SoOK) (dsm_read mem key fld n))"
| "spec_exec (mem, info) (NewObj key flag sz) =
     (if info key = None then ((mem, info(key \<mapsto> (flag, sz))), Status (Ret SoOK))
      else ((mem, info), Status (Ret SoFail)))"
| "spec_exec (mem, info) (GetInfo key) =
     ((mem, info), Info (if info key = None then SoFail else SoOK) (info key))"
| "spec_exec (mem, info) (Del key) =
     (if info key = None then ((mem, info), Status Indeterminate)
      else ((mem(key := (\<lambda>_. 0)), info(key := None)), Status (Ret SoOK)))"

fun spec_ok :: "dsm_spec \<Rightarrow> so_op \<Rightarrow> bool" where
  "spec_ok (mem, info) (Put32 key fld v) = dsm_range fld 1"
| "spec_ok (mem, info) (Put64 key fld v) = dsm_range fld 2"
| "spec_ok (mem, info) (Get key fld) = dsm_range fld 1"
| "spec_ok (mem, info) (PutChunk key fld ws) = dsm_range fld (length ws)"
| "spec_ok (mem, info) (GetChunk key fld n) = (0 < n \<and> dsm_range fld n)"
| "spec_ok (mem, info) (NewObj key flag sz) = True"
| "spec_ok (mem, info) (GetInfo key) = True"
| "spec_ok (mem, info) (Del key) =
     (case info key of None \<Rightarrow> True
      | Some (flag, sz) \<Rightarrow> unat sz \<le> 2 ^ 32 - 32 \<and> (\<forall>f. unat sz \<le> unat f \<longrightarrow> mem key f = 0))"

fun spec_run :: "dsm_spec \<Rightarrow> so_op list \<Rightarrow> dsm_spec \<times> so_obs list" where
  "spec_run a [] = (a, [])"
| "spec_run a (c # cs) =
     (case spec_exec a c of (a', r) \<Rightarrow> case spec_run a' cs of (a'', rs) \<Rightarrow> (a'', r # rs))"

fun spec_run_ok :: "dsm_spec \<Rightarrow> so_op list \<Rightarrow> bool" where
  "spec_run_ok a [] = True"
| "spec_run_ok a (c # cs) = (spec_ok a c \<and> spec_run_ok (fst (spec_exec a c)) cs)"

section \<open>The storage contract\<close>

text \<open>
  \<open>ok\<close> is the backend's invariant, \<open>mem\<close> its abstract memory and \<open>info\<close> the headers of the
  live objects (class id and size in words). A chunk operation is only promised for a length that
  matches the buffer, inside \<open>dsm_range\<close>, and a chunk read for a positive length.
\<close>

locale dsm_storage =
  fixes S :: "'s SoStorage"
    and ok :: "'s \<Rightarrow> bool"
    and mem :: "'s \<Rightarrow> dsm"
    and info :: "'s \<Rightarrow> ObjectKey \<Rightarrow> (u32 \<times> u32) option"
  assumes putchunk32:
      "ok s \<Longrightarrow> dsm_range fld (unat len) \<Longrightarrow> unat len \<le> length buf \<Longrightarrow>
       \<exists>s'. so_putchunk32 S s key fld len buf = (s', SoOK) \<and> ok s' \<and>
         mem s' = dsm_write (mem s) key fld (take (unat len) buf) \<and> info s' = info s"
    and getchunk32:
      "ok s \<Longrightarrow> dsm_range fld (unat len) \<Longrightarrow> unat len = length buf \<Longrightarrow> 0 < unat len \<Longrightarrow>
       so_getchunk32 S s key fld len buf = (Some SoOK, dsm_read (mem s) key fld (unat len))"
    and put32:
      "ok s \<Longrightarrow> dsm_range fld 1 \<Longrightarrow>
       \<exists>s'. so_put32 S s key fld v = (s', SoOK) \<and> ok s' \<and>
         mem s' = dsm_write (mem s) key fld [v] \<and> info s' = info s"
    and get:
      "ok s \<Longrightarrow> dsm_range fld 1 \<Longrightarrow> so_get S s key fld = Ret (mem s key fld)"
    and getblock:
      "ok s \<Longrightarrow> dsm_range fld 32 \<Longrightarrow> unat fld mod 32 = 0 \<Longrightarrow> length buf = 32 \<Longrightarrow>
       so_getblock S s (MAKE64 key fld) buf = (Some SoOK, dsm_read (mem s) key fld 32)"
    and put64_chunk: "so_put64 S s key fld v64 = so_putchunk32 S s key fld 2 (u64_words v64)"
    and putchunk64_chunk:
      "so_putchunk64 S s key fld len buf64 =
       so_putchunk32 S s key fld (len * 2) (words_of_u64s buf64)"
    and getchunk64_chunk:
      "so_getchunk64 S s key fld len buf64 =
       map_prod id u64s_of_words (so_getchunk32 S s key fld (len * 2) (words_of_u64s buf64))"
    and newobj:
      "ok s \<Longrightarrow> info s key = None \<Longrightarrow>
       \<exists>s'. so_newobj S s key flag sz = (s', SoOK) \<and> ok s' \<and> mem s' = mem s \<and>
         info s' = (info s)(key \<mapsto> (flag, sz))"
    and newobj_taken:
      "ok s \<Longrightarrow> info s key \<noteq> None \<Longrightarrow>
       \<exists>s'. so_newobj S s key flag sz = (s', SoFail) \<and> ok s' \<and> mem s' = mem s \<and> info s' = info s"
    and getinfo:
      "ok s \<Longrightarrow> so_getinfo S s key =
       (if info s key = None then SoFail else SoOK, info s key)"
    and del:
      "ok s \<Longrightarrow> info s key = Some (flag, sz) \<Longrightarrow> unat sz \<le> 2 ^ 32 - 32 \<Longrightarrow>
       \<exists>s'. so_del S s key = Ret (s', SoOK) \<and> ok s' \<and> info s' = (info s)(key := None) \<and>
         (\<forall>k f. mem s' k f = 0 \<or> mem s' k f = mem s k f) \<and>
         (\<forall>k f. k \<noteq> key \<longrightarrow> mem s' k f = mem s k f) \<and>
         (\<forall>f. unat f < unat sz \<longrightarrow> mem s' key f = 0)"
    and del_missing: "ok s \<Longrightarrow> info s key = None \<Longrightarrow> so_del S s key = Indeterminate"
begin

lemma chunk_round_trip:
  assumes "ok s" "dsm_range fld (length buf)" "0 < length buf" "length buf' = length buf"
  shows "\<exists>s'. so_putchunk32 S s key fld (of_nat (length buf)) buf = (s', SoOK) \<and> ok s' \<and>
    so_getchunk32 S s' key fld (of_nat (length buf)) buf' = (Some SoOK, buf)"
proof -
  have len: "unat (of_nat (length buf) :: u32) = length buf"
    using assms(2) by (simp add: dsm_range_def unat_of_nat_small)
  obtain s' where s': "so_putchunk32 S s key fld (of_nat (length buf)) buf = (s', SoOK)" "ok s'"
      "mem s' = dsm_write (mem s) key fld buf"
    using putchunk32 [of s fld "of_nat (length buf)" buf key] assms len by auto
  then have "so_getchunk32 S s' key fld (of_nat (length buf)) buf' = (Some SoOK, buf)"
    using getchunk32 [of s' fld "of_nat (length buf)" buf' key] assms len
    by (simp add: dsm_read_write_same)
  with s' show ?thesis by blast
qed

lemma chunk64_round_trip:
  assumes "ok s" "dsm_range fld (2 * length buf)" "0 < length buf" "length buf' = length buf"
  shows "\<exists>s'. so_putchunk64 S s key fld (of_nat (length buf)) buf = (s', SoOK) \<and> ok s' \<and>
    so_getchunk64 S s' key fld (of_nat (length buf)) buf' = (Some SoOK, buf)"
proof -
  have len: "(of_nat (length buf) * 2 :: u32) = of_nat (length (words_of_u64s buf))" by simp
  show ?thesis
    using chunk_round_trip [of s fld "words_of_u64s buf" "words_of_u64s buf'" key] assms
    unfolding putchunk64_chunk getchunk64_chunk len by auto
qed

lemma chunk_frame:
  assumes "ok s" "dsm_range fld (length buf)" "dsm_range fld' n" "0 < n" "length buf' = n"
    and "key \<noteq> key' \<or> unat fld' + n \<le> unat fld \<or> unat fld + length buf \<le> unat fld'"
  shows "so_getchunk32 S (fst (so_putchunk32 S s key fld (of_nat (length buf)) buf)) key' fld' (of_nat n) buf'
    = so_getchunk32 S s key' fld' (of_nat n) buf'"
proof -
  have len: "unat (of_nat (length buf) :: u32) = length buf" "unat (of_nat n :: u32) = n"
    using assms(2,3) by (simp_all add: dsm_range_def unat_of_nat_small)
  obtain s' where "so_putchunk32 S s key fld (of_nat (length buf)) buf = (s', SoOK)" "ok s'"
      "mem s' = dsm_write (mem s) key fld buf"
    using putchunk32 [of s fld "of_nat (length buf)" buf key] assms len by auto
  then show ?thesis
    using assms len by (auto simp: getchunk32 dsm_read_write_disjoint)
qed

lemma del_spec:
  assumes "ok s" "info s key = Some (flag, sz)" "unat sz \<le> 2 ^ 32 - 32"
    and "\<forall>f. unat sz \<le> unat f \<longrightarrow> mem s key f = 0"
  shows "\<exists>s'. so_del S s key = Ret (s', SoOK) \<and> ok s' \<and> info s' = (info s)(key := None) \<and>
    mem s' = (mem s)(key := (\<lambda>_. 0))"
proof -
  obtain s' where s': "so_del S s key = Ret (s', SoOK)" "ok s'" "info s' = (info s)(key := None)"
      "\<forall>k f. mem s' k f = 0 \<or> mem s' k f = mem s k f"
      "\<forall>k f. k \<noteq> key \<longrightarrow> mem s' k f = mem s k f" "\<forall>f. unat f < unat sz \<longrightarrow> mem s' key f = 0"
    using del [OF assms(1-3)] by blast
  have "mem s' k f = ((mem s)(key := (\<lambda>_. 0))) k f" for k f
    using s'(4,5,6) assms(4) by (metis fun_upd_apply not_less)
  with s' show ?thesis by (auto simp: fun_eq_iff)
qed

lemma so_exec_refines:
  assumes "ok s" "spec_ok (mem s, info s) c"
  shows "\<exists>s'. so_exec S s c = (s', snd (spec_exec (mem s, info s) c)) \<and> ok s' \<and>
    (mem s', info s') = fst (spec_exec (mem s, info s) c)"
proof (cases c)
  case (Put32 key fld v)
  then show ?thesis using put32 [of s fld key v] assms by auto
next
  case (Put64 key fld v)
  then show ?thesis
    using putchunk32 [of s fld 2 "u64_words v" key] assms by (auto simp: put64_chunk u64_words_def)
next
  case (Get key fld)
  then show ?thesis using get [of s fld key] assms by auto
next
  case (PutChunk key fld ws)
  then have "unat (of_nat (length ws) :: u32) = length ws"
    using assms by (simp add: dsm_range_def unat_of_nat_small)
  then show ?thesis
    using putchunk32 [of s fld "of_nat (length ws)" ws key] assms PutChunk by auto
next
  case (GetChunk key fld n)
  then have "unat (of_nat n :: u32) = n"
    using assms by (simp add: dsm_range_def unat_of_nat_small)
  then show ?thesis
    using getchunk32 [of s fld "of_nat n" "replicate n 0" key] assms GetChunk by auto
next
  case (NewObj key flag sz)
  then show ?thesis
    using newobj [of s key flag sz] newobj_taken [of s key flag sz] assms by (cases "info s key") auto
next
  case (GetInfo key)
  then show ?thesis using getinfo [of s key] assms by auto
next
  case (Del key)
  show ?thesis
  proof (cases "info s key")
    case None
    then show ?thesis using del_missing [of s key] assms Del by simp
  next
    case (Some i)
    obtain flag sz where i: "i = (flag, sz)" by (cases i)
    then show ?thesis using del_spec [of s key flag sz] assms Del Some by auto
  qed
qed

lemma so_run_refines:
  assumes "ok s" "spec_run_ok (mem s, info s) cs"
  shows "\<exists>s'. so_run S s cs = (s', snd (spec_run (mem s, info s) cs)) \<and> ok s' \<and>
    (mem s', info s') = fst (spec_run (mem s, info s) cs)"
  using assms
proof (induction cs arbitrary: s)
  case Nil
  then show ?case by simp
next
  case (Cons c cs)
  obtain s1 where s1: "so_exec S s c = (s1, snd (spec_exec (mem s, info s) c))" "ok s1"
      "(mem s1, info s1) = fst (spec_exec (mem s, info s) c)"
    using so_exec_refines [of s c] Cons.prems by auto
  obtain s2 where "so_run S s1 cs = (s2, snd (spec_run (mem s1, info s1) cs))" "ok s2"
      "(mem s2, info s2) = fst (spec_run (mem s1, info s1) cs)"
    using Cons.IH [of s1] Cons.prems s1 by auto
  then show ?case
    using s1 by (auto simp: case_prod_unfold)
qed

end

end
