(* ===== verification/Dogee_DirectoryCache.thy ===== *)
theory Dogee_DirectoryCache
  imports Dogee_Storage
begin

text \<open>
  The directory-based cache of \<^verbatim>\<open>include/DogeeDirectoryCache.h\<close> and \<^verbatim>\<open>Dogee/DogeeDirectoryCache.cpp\<close>:
  every node caches blocks of 32 words, the block with key \<open>k\<close> has a home node that keeps the set of
  holders in a bit mask, writes go through the home node to the backend, and the home node sends
  the new words to the other holders.

  A system of \<open>caches\<close> nodes shares one backend. A client call and the requests it makes to a home
  node are one step: the caller holds the block's lock and waits for the reply. Two kinds of messages
  are asynchronous and travel in order on the control channel between two nodes, \<^verbatim>\<open>MsgRenew\<close> and
  \<^verbatim>\<open>MsgWriteback\<close>; a request is handled after the earlier messages on the same channel. \<open>None\<close> is
  a call that does not return: a trap, a wait for a lock nobody releases, or an endless retry.
\<close>

unbundle bit_operations_syntax

section \<open>State\<close>

datatype platform = Win32 | Posix

text \<open>\<open>cb_readers\<close> counts the read locks that are held between two steps.\<close>

record CacheBlock =
  cb_cache :: "u32 list"
  cb_lru :: nat
  cb_key :: u64
  cb_readers :: nat

record CacheNode =
  block_cache :: "nat \<Rightarrow> CacheBlock"
  block_queue :: "nat list"
  hash :: "u64 \<Rightarrow> nat option"
  directory :: "u64 \<Rightarrow> u64 option"
  cache_clock :: u32

text \<open>
  \<^verbatim>\<open>MsgRenew\<close> carries its length as the length of the list. \<^verbatim>\<open>MsgRenewChunk\<close> has a handler but no
  sender.
\<close>

datatype CacheMsg = MsgRenew u64 "u32 list" | MsgRenewChunk u64 "u32 list" | MsgWriteback u64

record 's CacheSys =
  cs_backend :: 's
  cs_node :: "nat \<Rightarrow> CacheNode"
  cs_net :: "nat \<Rightarrow> nat \<Rightarrow> CacheMsg list"

definition CacheBlock_init :: CacheBlock where
  "CacheBlock_init = \<lparr> cb_cache = replicate DSM_CACHE_BLOCK_SIZE 0, cb_lru = 0, cb_key = DSM_CACHE_BAD_KEY, cb_readers = 0 \<rparr>"

text \<open>The constructor of \<^verbatim>\<open>DSMDirectoryCache\<close>; words and \<^verbatim>\<open>lru\<close> of a fresh block are never read.\<close>

definition CacheNode_init :: CacheNode where
  "CacheNode_init = \<lparr> block_cache = (\<lambda>_. CacheBlock_init), block_queue = [0..<DSM_CACHE_SIZE],
     hash = (\<lambda>_. None), directory = (\<lambda>_. None), cache_clock = 0 \<rparr>"

definition CacheSys_init :: "'s \<Rightarrow> 's CacheSys" where
  "CacheSys_init s = \<lparr> cs_backend = s, cs_node = (\<lambda>_. CacheNode_init), cs_net = (\<lambda>_ _. []) \<rparr>"

definition upd_node :: "'s CacheSys \<Rightarrow> nat \<Rightarrow> CacheNode \<Rightarrow> 's CacheSys" where
  "upd_node sys n nd = sys\<lparr> cs_node := (cs_node sys)(n := nd) \<rparr>"

definition upd_block :: "CacheNode \<Rightarrow> nat \<Rightarrow> CacheBlock \<Rightarrow> CacheNode" where
  "upd_block nd i blk = nd\<lparr> block_cache := (block_cache nd)(i := blk) \<rparr>"

definition send_control :: "'s CacheSys \<Rightarrow> nat \<Rightarrow> nat \<Rightarrow> CacheMsg \<Rightarrow> 's CacheSys" where
  "send_control sys i j msg = sys\<lparr> cs_net := (cs_net sys)(i := (cs_net sys i)(j := cs_net sys i j @ [msg])) \<rparr>"

text \<open>The high part of an address is the object, the low part the field.\<close>

definition addr_object :: "u64 \<Rightarrow> ObjectKey" where
  "addr_object addr = ucast (drop_bit 32 addr)"

definition addr_field :: "u64 \<Rightarrow> FieldKey" where
  "addr_field addr = ucast addr"

definition home :: "nat \<Rightarrow> u64 \<Rightarrow> nat" where
  "home caches addr = unat (drop_bit DSM_CACHE_BITS addr) mod caches"

section \<open>Handlers of the protocol\<close>

text \<open>
  \<^verbatim>\<open>UaTryEnterReadRWLock\<close> is \<^verbatim>\<open>TryAcquireSRWLockShared\<close> on Windows, true when the lock was taken, and
  \<^verbatim>\<open>pthread_rwlock_tryrdlock\<close> on Linux, which returns 0 then: there the words are discarded and the
  lock is kept. Between two steps no block is locked for writing.
\<close>

definition ServerRenew :: "platform \<Rightarrow> CacheNode \<Rightarrow> u64 \<Rightarrow> u32 list \<Rightarrow> CacheNode" where
  "ServerRenew plat nd addr v =
     (case hash nd (addr AND DSM_CACHE_HIGH_MASK_64) of
        None \<Rightarrow> nd
      | Some i \<Rightarrow>
          let blk = block_cache nd i
          in case plat of
               Win32 \<Rightarrow>
                 if cb_key blk = addr AND DSM_CACHE_HIGH_MASK_64
                 then upd_block nd i (blk\<lparr> cb_cache := overwrite (cb_cache blk) (unat (addr AND DSM_CACHE_LOW_MASK_64)) v \<rparr>)
                 else nd
             | Posix \<Rightarrow> upd_block nd i (blk\<lparr> cb_readers := cb_readers blk + 1 \<rparr>))"

definition ServerRenewChunk :: "platform \<Rightarrow> CacheNode \<Rightarrow> u64 \<Rightarrow> u32 list \<Rightarrow> CacheNode" where
  "ServerRenewChunk plat nd addr v =
     (case hash nd (addr AND DSM_CACHE_HIGH_MASK_64) of
        None \<Rightarrow> nd
      | Some i \<Rightarrow>
          let blk = block_cache nd i
          in case plat of
               Win32 \<Rightarrow>
                 if cb_key blk = addr AND DSM_CACHE_HIGH_MASK_64
                 then upd_block nd i (blk\<lparr> cb_cache := overwrite (cb_cache blk) 0 (take DSM_CACHE_BLOCK_SIZE v) \<rparr>)
                 else nd
             | Posix \<Rightarrow> upd_block nd i (blk\<lparr> cb_readers := cb_readers blk + 1 \<rparr>))"

text \<open>
  The loop of \<^verbatim>\<open>ServerWrite\<close> and \<^verbatim>\<open>ServerWriteMiss\<close> over the holders in the bit mask \<open>old\<close>: node \<open>i\<close>
  is told unless it is the writer; the home node \<open>h\<close> renews its own copy directly.
\<close>

fun send_renews :: "platform \<Rightarrow> nat \<Rightarrow> nat \<Rightarrow> u64 \<Rightarrow> u32 list \<Rightarrow> u64 \<Rightarrow> nat list \<Rightarrow> 's CacheSys \<Rightarrow> 's CacheSys" where
  "send_renews plat h src addr v old [] sys = sys"
| "send_renews plat h src addr v old (i # is) sys =
     send_renews plat h src addr v old is
       (if bit old i \<and> src \<noteq> i
        then if i = h then upd_node sys h (ServerRenew plat (cs_node sys h) addr v)
             else send_control sys h i (MsgRenew addr v)
        else sys)"

definition ServerWrite :: "'s SoStorage \<Rightarrow> platform \<Rightarrow> nat \<Rightarrow> 's CacheSys \<Rightarrow> nat \<Rightarrow> u64 \<Rightarrow> nat \<Rightarrow> u32 list \<Rightarrow> 's CacheSys option" where
  "ServerWrite S plat caches sys h addr src v =
     (if src \<noteq> h \<and> home caches addr \<noteq> h then None else
      let baddr = addr AND DSM_CACHE_HIGH_MASK_64;
          sys1 = sys\<lparr> cs_backend := fst (so_putchunk32 S (cs_backend sys) (addr_object addr) (addr_field addr)
                   (of_nat (length v)) v) \<rparr>;
          old = (case directory (cs_node sys h) baddr of None \<Rightarrow> 0 | Some d \<Rightarrow> d)
      in Some (send_renews plat h src addr v old [0..<caches] sys1))"

definition ServerWriteback :: "nat \<Rightarrow> 's CacheSys \<Rightarrow> nat \<Rightarrow> u64 \<Rightarrow> nat \<Rightarrow> 's CacheSys option" where
  "ServerWriteback caches sys h addr src =
     (if home caches addr \<noteq> h then None else
      let nd = cs_node sys h
      in case directory nd addr of
           None \<Rightarrow> Some sys
         | Some old \<Rightarrow>
             let newv = old AND NOT (push_bit src 1)
             in Some (upd_node sys h (nd\<lparr> directory := (directory nd)(addr := (if newv \<noteq> 0 then Some newv else None)) \<rparr>)))"

definition set_holder :: "'s CacheSys \<Rightarrow> nat \<Rightarrow> u64 \<Rightarrow> nat \<Rightarrow> 's CacheSys" where
  "set_holder sys h baddr src =
     (let nd = cs_node sys h;
          old = (case directory nd baddr of None \<Rightarrow> 0 | Some d \<Rightarrow> d)
      in upd_node sys h (nd\<lparr> directory := (directory nd)(baddr \<mapsto> old OR push_bit src 1) \<rparr>))"

text \<open>The block for the reply, or \<open>None\<close> for \<^verbatim>\<open>MsgReplyBadAddress\<close>.\<close>

definition fetch_block :: "'s SoStorage \<Rightarrow> 's CacheSys \<Rightarrow> u64 \<Rightarrow> u32 list option" where
  "fetch_block S sys baddr =
     (case so_getblock S (cs_backend sys) baddr (replicate DSM_CACHE_BLOCK_SIZE 0) of
        (Some SoOK, buf) \<Rightarrow> Some buf
      | _ \<Rightarrow> None)"

definition ServerWriteMiss ::
    "'s SoStorage \<Rightarrow> platform \<Rightarrow> nat \<Rightarrow> 's CacheSys \<Rightarrow> nat \<Rightarrow> u64 \<Rightarrow> nat \<Rightarrow> u32 list \<Rightarrow> ('s CacheSys \<times> u32 list option) option" where
  "ServerWriteMiss S plat caches sys h addr src v =
     (if src \<noteq> h \<and> home caches addr \<noteq> h then None else
      let baddr = addr AND DSM_CACHE_HIGH_MASK_64;
          sys1 = sys\<lparr> cs_backend := fst (so_putchunk32 S (cs_backend sys) (addr_object addr) (addr_field addr)
                   (of_nat (length v)) v) \<rparr>;
          old = (case directory (cs_node sys h) baddr of None \<Rightarrow> 0 | Some d \<Rightarrow> d);
          sys2 = set_holder sys1 h baddr src;
          sys3 = send_renews plat h src addr v old [0..<caches] sys2
      in Some (sys3, fetch_block S sys3 baddr))"

definition ServerReadMiss ::
    "'s SoStorage \<Rightarrow> nat \<Rightarrow> 's CacheSys \<Rightarrow> nat \<Rightarrow> u64 \<Rightarrow> nat \<Rightarrow> ('s CacheSys \<times> u32 list option) option" where
  "ServerReadMiss S caches sys h addr src =
     (if src \<noteq> h \<and> home caches addr \<noteq> h then None else
      let sys1 = set_holder sys h addr src
      in Some (sys1, fetch_block S sys1 addr))"

text \<open>One asynchronous message of \<^verbatim>\<open>CacheProtocalProc\<close>: node \<open>j\<close> handles what node \<open>i\<close> sent.\<close>

definition CacheProtocalProc :: "platform \<Rightarrow> nat \<Rightarrow> 's CacheSys \<Rightarrow> nat \<Rightarrow> nat \<Rightarrow> 's CacheSys option" where
  "CacheProtocalProc plat caches sys i j =
     (case cs_net sys i j of
        [] \<Rightarrow> Some sys
      | msg # msgs \<Rightarrow>
          let sys1 = sys\<lparr> cs_net := (cs_net sys)(i := (cs_net sys i)(j := msgs)) \<rparr>
          in case msg of
               MsgRenew addr v \<Rightarrow> Some (upd_node sys1 j (ServerRenew plat (cs_node sys1 j) addr v))
             | MsgRenewChunk addr v \<Rightarrow> Some (upd_node sys1 j (ServerRenewChunk plat (cs_node sys1 j) addr v))
             | MsgWriteback addr \<Rightarrow> ServerWriteback caches sys1 j addr i)"

fun handle_pending :: "platform \<Rightarrow> nat \<Rightarrow> nat \<Rightarrow> nat \<Rightarrow> nat \<Rightarrow> 's CacheSys \<Rightarrow> 's CacheSys option" where
  "handle_pending plat caches i j 0 sys = Some sys"
| "handle_pending plat caches i j (Suc k) sys =
     (case CacheProtocalProc plat caches sys i j of None \<Rightarrow> None | Some sys' \<Rightarrow> handle_pending plat caches i j k sys')"

text \<open>A request of node \<open>n\<close> reaches node \<open>h\<close> behind everything \<open>n\<close> sent before.\<close>

definition drain :: "platform \<Rightarrow> nat \<Rightarrow> nat \<Rightarrow> nat \<Rightarrow> 's CacheSys \<Rightarrow> 's CacheSys option" where
  "drain plat caches n h sys = handle_pending plat caches n h (length (cs_net sys n h)) sys"

section \<open>Requests of the client\<close>

definition WritebackReq :: "nat \<Rightarrow> 's CacheSys \<Rightarrow> nat \<Rightarrow> u64 \<Rightarrow> 's CacheSys option" where
  "WritebackReq caches sys n addr =
     (let target = home caches addr
      in if target = n then ServerWriteback caches sys n addr n
         else Some (send_control sys n target (MsgWriteback addr)))"

definition WriteReq :: "'s SoStorage \<Rightarrow> platform \<Rightarrow> nat \<Rightarrow> 's CacheSys \<Rightarrow> nat \<Rightarrow> u64 \<Rightarrow> u32 list \<Rightarrow> 's CacheSys option" where
  "WriteReq S plat caches sys n addr v =
     (let target = home caches addr
      in if target = n then ServerWrite S plat caches sys n addr n v
         else case drain plat caches n target sys of
                None \<Rightarrow> None
              | Some sys1 \<Rightarrow> ServerWrite S plat caches sys1 target addr n v)"

text \<open>
  The local branch of \<^verbatim>\<open>WriteMiss\<close> passes the length 1, whatever \<^verbatim>\<open>len\<close> is. The block is returned,
  \<open>None\<close> where the status is \<^verbatim>\<open>SoFail\<close>.
\<close>

definition WriteMiss ::
    "'s SoStorage \<Rightarrow> platform \<Rightarrow> nat \<Rightarrow> 's CacheSys \<Rightarrow> nat \<Rightarrow> u64 \<Rightarrow> u32 list \<Rightarrow> ('s CacheSys \<times> u32 list option) option" where
  "WriteMiss S plat caches sys n addr v =
     (let target = home caches addr
      in if target = n then ServerWriteMiss S plat caches sys n addr n (take 1 v)
         else case drain plat caches n target sys of
                None \<Rightarrow> None
              | Some sys1 \<Rightarrow> ServerWriteMiss S plat caches sys1 target addr n v)"

definition ReadMiss ::
    "'s SoStorage \<Rightarrow> platform \<Rightarrow> nat \<Rightarrow> 's CacheSys \<Rightarrow> nat \<Rightarrow> u64 \<Rightarrow> ('s CacheSys \<times> u32 list option) option" where
  "ReadMiss S plat caches sys n addr =
     (let target = home caches addr
      in if target = n then ServerReadMiss S caches sys n addr n
         else case drain plat caches n target sys of
                None \<Rightarrow> None
              | Some sys1 \<Rightarrow> ServerReadMiss S caches sys1 target addr n)"

section \<open>The cache of a node\<close>

text \<open>The search for the victim: the first valid block with the smallest \<^verbatim>\<open>lru\<close> below \<open>0xffffffff\<close>.\<close>

fun find_victim :: "(nat \<Rightarrow> CacheBlock) \<Rightarrow> nat \<Rightarrow> nat option \<Rightarrow> nat list \<Rightarrow> nat option" where
  "find_victim bs minlru mini [] = mini"
| "find_victim bs minlru mini (i # is) =
     (if cb_key (bs i) \<noteq> DSM_CACHE_BAD_KEY \<and> cb_lru (bs i) < minlru
      then find_victim bs (cb_lru (bs i)) (Some i) is
      else find_victim bs minlru mini is)"

text \<open>
  \<^verbatim>\<open>getblock\<close>: the index of the block and \<^verbatim>\<open>is_pending\<close>. Taking the write lock waits for readers.
\<close>

definition dc_getblock :: "nat \<Rightarrow> 's CacheSys \<Rightarrow> nat \<Rightarrow> u64 \<Rightarrow> ('s CacheSys \<times> nat \<times> bool) option" where
  "dc_getblock caches sys n k =
     (let nd = cs_node sys n
      in case hash nd k of
           Some i \<Rightarrow> Some (sys, i, True)
         | None \<Rightarrow>
             (case block_queue nd of
                [] \<Rightarrow>
                  (case find_victim (block_cache nd) 0xffffffff None [0..<DSM_CACHE_SIZE] of
                     None \<Rightarrow> None
                   | Some mini \<Rightarrow>
                       let blk = block_cache nd mini; oldkey = cb_key blk
                       in if 0 < cb_readers blk then None else
                          let nd1 = (upd_block nd mini (blk\<lparr> cb_key := DSM_CACHE_BAD_KEY, cb_lru := 0xffffffff \<rparr>))
                                \<lparr> hash := ((hash nd)(oldkey := None))(k \<mapsto> mini) \<rparr>
                          in case WritebackReq caches (upd_node sys n nd1) n oldkey of
                               None \<Rightarrow> None
                             | Some sys1 \<Rightarrow> Some (sys1, mini, False))
              | ret # q \<Rightarrow>
                  if 0 < cb_readers (block_cache nd ret) then None
                  else Some (upd_node sys n (nd\<lparr> block_queue := q, hash := (hash nd)(k \<mapsto> ret) \<rparr>), ret, False)))"

text \<open>\<^verbatim>\<open>blk->lru = CacheClock()\<close>\<close>

definition touch :: "CacheNode \<Rightarrow> nat \<Rightarrow> CacheNode" where
  "touch nd i = (upd_block nd i ((block_cache nd i)\<lparr> cb_lru := unat (cache_clock nd) \<rparr>))
     \<lparr> cache_clock := cache_clock nd + 1 \<rparr>"

text \<open>
  A hit of \<^verbatim>\<open>doput\<close>, on a block found in the table or one that is pending there. A pending block whose key
  is not \<^verbatim>\<open>k\<close> sends the caller back to \<^verbatim>\<open>MISS\<close>, where it finds the same block again.
\<close>

definition put_hit ::
    "'s SoStorage \<Rightarrow> platform \<Rightarrow> nat \<Rightarrow> 's CacheSys \<Rightarrow> nat \<Rightarrow> nat \<Rightarrow> u64 \<Rightarrow> u32 list \<Rightarrow> ('s CacheSys \<times> SoStatus) option" where
  "put_hit S plat caches sys n i addr v =
     (let nd = touch (cs_node sys n) i;
          blk = block_cache nd i;
          nd1 = upd_block nd i (blk\<lparr> cb_cache := overwrite (cb_cache blk) (unat (addr AND DSM_CACHE_LOW_MASK_64)) v \<rparr>)
      in case WriteReq S plat caches (upd_node sys n nd1) n addr v of
           None \<Rightarrow> None
         | Some sys1 \<Rightarrow> Some (sys1, SoOK))"

definition store_block :: "CacheNode \<Rightarrow> nat \<Rightarrow> u64 \<Rightarrow> u32 list \<Rightarrow> CacheNode" where
  "store_block nd i key buf = upd_block nd i ((block_cache nd i)\<lparr> cb_cache := buf, cb_key := key \<rparr>)"

definition doput ::
    "'s SoStorage \<Rightarrow> platform \<Rightarrow> nat \<Rightarrow> 's CacheSys \<Rightarrow> nat \<Rightarrow> u64 \<Rightarrow> u32 list \<Rightarrow> ('s CacheSys \<times> SoStatus) option" where
  "doput S plat caches sys n addr v =
     (let k = addr AND DSM_CACHE_HIGH_MASK_64
      in case dc_getblock caches sys n k of
           None \<Rightarrow> None
         | Some (sys1, i, True) \<Rightarrow>
             if cb_key (block_cache (cs_node sys n) i) \<noteq> k then None
             else put_hit S plat caches sys n i addr v
         | Some (sys1, i, False) \<Rightarrow>
             (case WriteMiss S plat caches sys1 n addr v of
                Some (sys2, Some buf) \<Rightarrow>
                  Some (upd_node sys2 n (touch (store_block (cs_node sys2 n) i k buf) i), SoOK)
              | _ \<Rightarrow> None))"

text \<open>\<^verbatim>\<open>doget\<close> hands the block to the function given by the caller; here it returns its words.\<close>

definition doget ::
    "'s SoStorage \<Rightarrow> platform \<Rightarrow> nat \<Rightarrow> 's CacheSys \<Rightarrow> nat \<Rightarrow> u64 \<Rightarrow> ('s CacheSys \<times> u32 list) option" where
  "doget S plat caches sys n addr =
     (let k = addr AND DSM_CACHE_HIGH_MASK_64
      in case dc_getblock caches sys n k of
           None \<Rightarrow> None
         | Some (sys1, i, True) \<Rightarrow>
             if cb_key (block_cache (cs_node sys n) i) \<noteq> k then None
             else Some (upd_node sys n (touch (cs_node sys n) i), cb_cache (block_cache (cs_node sys n) i))
         | Some (sys1, i, False) \<Rightarrow>
             (case ReadMiss S plat caches sys1 n k of
                Some (sys2, Some buf) \<Rightarrow>
                  Some (upd_node sys2 n (touch (store_block (cs_node sys2 n) i k buf) i), buf)
              | _ \<Rightarrow> None))"

section \<open>Interface of the cache\<close>

definition dc_put :: "'s SoStorage \<Rightarrow> platform \<Rightarrow> nat \<Rightarrow> 's CacheSys \<Rightarrow> nat \<Rightarrow> ObjectKey \<Rightarrow> FieldKey \<Rightarrow> u32 \<Rightarrow> ('s CacheSys \<times> SoStatus) option" where
  "dc_put S plat caches sys n okey fldid v = doput S plat caches sys n (MAKE64 okey fldid) [v]"

definition dc_get_word :: "'s SoStorage \<Rightarrow> platform \<Rightarrow> nat \<Rightarrow> 's CacheSys \<Rightarrow> nat \<Rightarrow> ObjectKey \<Rightarrow> FieldKey \<Rightarrow> ('s CacheSys \<times> u32) option" where
  "dc_get_word S plat caches sys n okey fldid =
     map_option (\<lambda>(sys', blk). (sys', blk ! unat (fldid AND DSM_CACHE_LOW_MASK))) (doget S plat caches sys n (MAKE64 okey fldid))"

definition getblockdata :: "'s SoStorage \<Rightarrow> platform \<Rightarrow> nat \<Rightarrow> 's CacheSys \<Rightarrow> nat \<Rightarrow> u64 \<Rightarrow> nat \<Rightarrow> ('s CacheSys \<times> u32 list) option" where
  "getblockdata S plat caches sys n k len =
     map_option (\<lambda>(sys', blk). (sys', take len (drop (unat (k AND DSM_CACHE_LOW_MASK_64)) blk))) (doget S plat caches sys n k)"

text \<open>
  How \<^verbatim>\<open>putchunk\<close> and \<^verbatim>\<open>getchunk\<close> cut a range into blocks: address and length of every call of
  \<^verbatim>\<open>putblockdata\<close> or \<^verbatim>\<open>getblockdata\<close>, as they compute them from \<^verbatim>\<open>k_start\<close>, \<^verbatim>\<open>k_end\<close> and \<^verbatim>\<open>k_tail\<close>.
\<close>

definition chunk_pieces :: "u64 \<Rightarrow> u32 \<Rightarrow> (u64 \<times> nat) list" where
  "chunk_pieces k len =
     (let k_tail = k + ucast len;
          k_start = (if k AND DSM_CACHE_LOW_MASK_64 \<noteq> 0
                     then (k AND DSM_CACHE_HIGH_MASK_64) + of_nat DSM_CACHE_BLOCK_SIZE else k);
          k_end = k_tail AND DSM_CACHE_HIGH_MASK_64;
          copylen = (if k_start < k_tail then unat (ucast (k_start - k) :: u32) else unat len);
          blocks = (unat k_end - unat k_start) div DSM_CACHE_BLOCK_SIZE;
          idx = copylen + DSM_CACHE_BLOCK_SIZE * blocks
      in (if 0 < copylen then [(k, copylen)] else []) @
         map (\<lambda>b. (k_start + of_nat (DSM_CACHE_BLOCK_SIZE * b), DSM_CACHE_BLOCK_SIZE)) [0..<blocks] @
         (if idx < unat len then [(k_end, unat len - idx)] else []))"

fun put_pieces :: "'s SoStorage \<Rightarrow> platform \<Rightarrow> nat \<Rightarrow> nat \<Rightarrow> (u64 \<times> nat) list \<Rightarrow> u32 list \<Rightarrow> SoStatus option \<Rightarrow> 's CacheSys
    \<Rightarrow> ('s CacheSys \<times> SoStatus option) option" where
  "put_pieces S plat caches n [] v ret sys = Some (sys, ret)"
| "put_pieces S plat caches n ((k, len) # ps) v ret sys =
     (case doput S plat caches sys n k (take len v) of
        None \<Rightarrow> None
      | Some (sys', st) \<Rightarrow> put_pieces S plat caches n ps (drop len v) (if st \<noteq> SoOK then Some SoFail else ret) sys')"

text \<open>The status is a local variable that only a failure writes: \<open>None\<close> where nothing has.\<close>

definition dc_putchunk :: "'s SoStorage \<Rightarrow> platform \<Rightarrow> nat \<Rightarrow> 's CacheSys \<Rightarrow> nat \<Rightarrow> ObjectKey \<Rightarrow> FieldKey \<Rightarrow> u32 \<Rightarrow> u32 list
    \<Rightarrow> ('s CacheSys \<times> SoStatus option) option" where
  "dc_putchunk S plat caches sys n okey fldid len v =
     put_pieces S plat caches n (chunk_pieces (MAKE64 okey fldid) len) v None sys"

definition dc_putchunk64 :: "'s SoStorage \<Rightarrow> platform \<Rightarrow> nat \<Rightarrow> 's CacheSys \<Rightarrow> nat \<Rightarrow> ObjectKey \<Rightarrow> FieldKey \<Rightarrow> u32 \<Rightarrow> u64 list
    \<Rightarrow> ('s CacheSys \<times> SoStatus option) option" where
  "dc_putchunk64 S plat caches sys n okey fldid len v =
     dc_putchunk S plat caches sys n okey fldid (len * 2) (words_of_u64s v)"

definition dc_put64_word :: "'s SoStorage \<Rightarrow> platform \<Rightarrow> nat \<Rightarrow> 's CacheSys \<Rightarrow> nat \<Rightarrow> ObjectKey \<Rightarrow> FieldKey \<Rightarrow> u64
    \<Rightarrow> ('s CacheSys \<times> SoStatus option) option" where
  "dc_put64_word S plat caches sys n okey fldid v = dc_putchunk S plat caches sys n okey fldid 2 (u64_words v)"

fun get_pieces :: "'s SoStorage \<Rightarrow> platform \<Rightarrow> nat \<Rightarrow> nat \<Rightarrow> (u64 \<times> nat) list \<Rightarrow> 's CacheSys
    \<Rightarrow> ('s CacheSys \<times> u32 list) option" where
  "get_pieces S plat caches n [] sys = Some (sys, [])"
| "get_pieces S plat caches n ((k, len) # ps) sys =
     (case getblockdata S plat caches sys n k len of
        None \<Rightarrow> None
      | Some (sys', ws) \<Rightarrow>
          map_option (\<lambda>(sys'', ws'). (sys'', ws @ ws')) (get_pieces S plat caches n ps sys'))"

definition dc_getchunk :: "'s SoStorage \<Rightarrow> platform \<Rightarrow> nat \<Rightarrow> 's CacheSys \<Rightarrow> nat \<Rightarrow> ObjectKey \<Rightarrow> FieldKey \<Rightarrow> u32
    \<Rightarrow> ('s CacheSys \<times> SoStatus \<times> u32 list) option" where
  "dc_getchunk S plat caches sys n okey fldid len =
     map_option (\<lambda>(sys', ws). (sys', SoOK, ws)) (get_pieces S plat caches n (chunk_pieces (MAKE64 okey fldid) len) sys)"

definition dc_getchunk64 :: "'s SoStorage \<Rightarrow> platform \<Rightarrow> nat \<Rightarrow> 's CacheSys \<Rightarrow> nat \<Rightarrow> ObjectKey \<Rightarrow> FieldKey \<Rightarrow> u32
    \<Rightarrow> ('s CacheSys \<times> SoStatus \<times> u64 list) option" where
  "dc_getchunk64 S plat caches sys n okey fldid len =
     map_option (\<lambda>(sys', st, ws). (sys', st, u64s_of_words ws)) (dc_getchunk S plat caches sys n okey fldid (len * 2))"

end
