(* ===== verification/Dogee_CacheCopies.thy ===== *)
theory Dogee_CacheCopies
  imports Dogee_DirectoryCache
begin

text \<open>
  Coherence of the directory cache: the invariant that ties every cached block to the abstract
  memory, and that each handler of the protocol keeps it. The proofs are for the Windows lock
  primitive, where a renewal is applied.
\<close>

unbundle bit_operations_syntax

section \<open>Addresses and blocks\<close>

lemma MAKE64_addr [simp]: "MAKE64 (addr_object k) (addr_field k) = k"
  by (rule bit_word_eqI) (auto simp: addr_object_def addr_field_def MAKE64_def bit_simps)

lemma addr_MAKE64 [simp]: "addr_object (MAKE64 a b) = a" "addr_field (MAKE64 a b) = b"
  using MAKE64_addr [of "MAKE64 a b"] unfolding MAKE64_inject by simp_all

lemma MAKE64_high: "MAKE64 a b AND DSM_CACHE_HIGH_MASK_64 = MAKE64 a (b AND DSM_CACHE_HIGH_MASK)"
proof -
  have m: "unat (MAKE64 a b) = 32 * (134217728 * unat a) + unat b" by (simp add: key_simps)
  have "(32 * x + y) div 32 * 32 = 32 * x + y div 32 * 32" for x y :: nat by simp
  then have "unat (MAKE64 a b AND DSM_CACHE_HIGH_MASK_64) = 32 * (134217728 * unat a) + unat b div 32 * 32"
    unfolding unat_and_high_64 m by blast
  then show ?thesis by (simp add: word_unat_eq_iff key_simps)
qed

lemma MAKE64_low: "unat (MAKE64 a b AND DSM_CACHE_LOW_MASK_64) = unat b mod 32"
proof -
  have "unat (MAKE64 a b) = 32 * (134217728 * unat a) + unat b" by (simp add: key_simps)
  then show ?thesis unfolding unat_and_low_64 by (simp only: mod_mult_self4)
qed

lemma high_idem [simp]: "(k AND DSM_CACHE_HIGH_MASK_64) AND DSM_CACHE_HIGH_MASK_64 = k AND DSM_CACHE_HIGH_MASK_64"
  by (simp add: word_unat_eq_iff key_simps)

definition aligned :: "u64 \<Rightarrow> bool" where
  "aligned k \<longleftrightarrow> k AND DSM_CACHE_HIGH_MASK_64 = k"

definition block_ok :: "u64 \<Rightarrow> bool" where
  "block_ok k \<longleftrightarrow> aligned k \<and> dsm_range (addr_field k) 32"

lemma aligned_high [simp]: "aligned (k AND DSM_CACHE_HIGH_MASK_64)"
  by (simp add: aligned_def)

lemma aligned_not_bad: "aligned k \<Longrightarrow> k \<noteq> DSM_CACHE_BAD_KEY"
  by (auto simp: aligned_def BAD_KEY_eq HIGH_MASK_64_eq)

lemma home_high [simp]: "home caches (addr AND DSM_CACHE_HIGH_MASK_64) = home caches addr"
proof -
  have "drop_bit 5 (addr AND DSM_CACHE_HIGH_MASK_64) = drop_bit 5 addr"
    by (simp add: word_unat_eq_iff drop_bit_eq_div unat_div key_simps)
  then show ?thesis by (simp add: home_def DSM_CACHE_BITS_def)
qed

text \<open>The words of a block in the abstract memory, and what a write does to them.\<close>

definition blk_mem :: "dsm \<Rightarrow> u64 \<Rightarrow> u32 list" where
  "blk_mem mm k = dsm_read mm (addr_object k) (addr_field k) 32"

lemma length_blk_mem [simp]: "length (blk_mem mm k) = 32"
  by (simp add: blk_mem_def)

lemma blk_mem_write:
  assumes k: "block_ok k" and v: "unat f mod 32 + length v \<le> 32"
  shows "blk_mem (dsm_write mm ob f v) k =
    (if k = MAKE64 ob f AND DSM_CACHE_HIGH_MASK_64 then overwrite (blk_mem mm k) (unat f mod 32) v else blk_mem mm k)"
proof -
  let ?a = "addr_object k" and ?b = "addr_field k"
  have kab: "k = MAKE64 ?a ?b" by simp
  have "k AND DSM_CACHE_HIGH_MASK_64 = k" using k by (simp add: block_ok_def aligned_def)
  then have "MAKE64 ?a (?b AND DSM_CACHE_HIGH_MASK) = MAKE64 ?a ?b" by (metis MAKE64_addr MAKE64_high)
  then have "?b AND DSM_CACHE_HIGH_MASK = ?b" unfolding MAKE64_inject by simp
  then have "unat (?b AND DSM_CACHE_HIGH_MASK) = unat ?b" by simp
  then have b: "unat ?b div 32 * 32 = unat ?b" by (simp add: key_simps)
  have rng: "dsm_range ?b 32" using k by (simp add: block_ok_def)
  have eq: "k = MAKE64 ob f AND DSM_CACHE_HIGH_MASK_64 \<longleftrightarrow> ?a = ob \<and> unat ?b = unat f div 32 * 32"
  proof -
    have "k = MAKE64 ob f AND DSM_CACHE_HIGH_MASK_64 \<longleftrightarrow> MAKE64 ?a ?b = MAKE64 ob (f AND DSM_CACHE_HIGH_MASK)"
      by (simp add: MAKE64_high)
    also have "\<dots> \<longleftrightarrow> ?a = ob \<and> ?b = f AND DSM_CACHE_HIGH_MASK" by (rule MAKE64_inject)
    finally show ?thesis by (simp add: word_unat_eq_iff [of ?b] key_simps)
  qed
  obtain q r where f: "unat f = 32 * q + r" "r < 32" "unat f div 32 = q" "unat f mod 32 = r"
    by (rule block_split [of "unat f"])
  have pos: "unat f \<le> unat ?b + i \<and> unat ?b + i < unat f + length v \<longleftrightarrow>
      (unat ?b = unat f div 32 * 32 \<and> unat f mod 32 \<le> i \<and> i < unat f mod 32 + length v)" if "i < 32" for i
  proof (cases "unat ?b div 32 = unat f div 32")
    case True
    then have "unat ?b = unat f div 32 * 32" using b by simp
    then show ?thesis using f(2) unfolding f by auto
  next
    case False
    then have "unat ?b \<noteq> unat f div 32 * 32" using b by auto
    moreover have "\<not> (unat f \<le> unat ?b + i \<and> unat ?b + i < unat f + length v)"
    proof
      assume a: "unat f \<le> unat ?b + i \<and> unat ?b + i < unat f + length v"
      consider "unat ?b div 32 < unat f div 32" | "unat f div 32 < unat ?b div 32" using False by linarith
      then show False
      proof cases
        case 1
        then have "Suc (unat ?b div 32) * 32 \<le> unat f div 32 * 32" by (intro mult_le_mono1) simp
        then show False using a b f that by simp
      next
        case 2
        then have "Suc (unat f div 32) * 32 \<le> unat ?b div 32 * 32" by (intro mult_le_mono1) simp
        then show False using a b f v by simp
      qed
    qed
    ultimately show ?thesis by blast
  qed
  show ?thesis
  proof (rule nth_equalityI)
    fix i assume "i < length (blk_mem (dsm_write mm ob f v) k)"
    then have i: "i < 32" by simp
    have u: "unat (?b + of_nat i) = unat ?b + i" using i by (intro dsm_range_unat [OF rng]) simp
    show "blk_mem (dsm_write mm ob f v) k ! i = (if k = MAKE64 ob f AND DSM_CACHE_HIGH_MASK_64
        then overwrite (blk_mem mm k) (unat f mod 32) v else blk_mem mm k) ! i"
      using i pos [OF i] v f by (auto simp: blk_mem_def dsm_read_def dsm_write_def u eq nth_overwrite)
  qed (use v in \<open>auto simp: blk_mem_def\<close>)
qed

section \<open>Invariant\<close>

fun renew_block :: "u64 \<Rightarrow> CacheMsg \<Rightarrow> u32 list \<Rightarrow> u32 list" where
  "renew_block k (MsgRenew addr v) blk =
     (if addr AND DSM_CACHE_HIGH_MASK_64 = k then overwrite blk (unat (addr AND DSM_CACHE_LOW_MASK_64)) v else blk)"
| "renew_block k _ blk = blk"

text \<open>A copy after the renewals on their way to it have arrived.\<close>

definition pending :: "u64 \<Rightarrow> CacheMsg list \<Rightarrow> u32 list \<Rightarrow> u32 list" where
  "pending k msgs blk = fold (renew_block k) msgs blk"

fun msg_ok :: "nat \<Rightarrow> nat \<Rightarrow> nat \<Rightarrow> CacheMsg \<Rightarrow> bool" where
  "msg_ok caches i j (MsgRenew addr v) =
     (home caches addr = i \<and> unat (addr AND DSM_CACHE_LOW_MASK_64) + length v \<le> 32)"
| "msg_ok caches i j (MsgWriteback addr) = (home caches addr = j)"
| "msg_ok caches i j (MsgRenewChunk addr v) = False"

text \<open>
  A node is well-formed when the table and the free queue partition its blocks; for the keys in
  \<open>X\<close> a request is in progress.
\<close>

definition node_ok :: "u64 set \<Rightarrow> CacheNode \<Rightarrow> bool" where
  "node_ok X nd \<longleftrightarrow>
     (\<forall>i. cb_readers (block_cache nd i) = 0 \<and> length (cb_cache (block_cache nd i)) = 32) \<and>
     (\<forall>k i. hash nd k = Some i \<longrightarrow> i < DSM_CACHE_SIZE \<and> i \<notin> set (block_queue nd) \<and> block_ok k) \<and>
     (\<forall>k k' i. hash nd k = Some i \<longrightarrow> hash nd k' = Some i \<longrightarrow> k = k') \<and>
     (\<forall>k i. k \<notin> X \<longrightarrow> hash nd k = Some i \<longrightarrow>
        cb_key (block_cache nd i) = k \<and> cb_lru (block_cache nd i) < unat (cache_clock nd)) \<and>
     distinct (block_queue nd) \<and> (\<forall>i \<in> set (block_queue nd). i < DSM_CACHE_SIZE) \<and>
     (\<forall>i < DSM_CACHE_SIZE. i \<in> set (block_queue nd) \<or> (\<exists>k. hash nd k = Some i))"

definition holder :: "'s CacheSys \<Rightarrow> nat \<Rightarrow> u64 \<Rightarrow> nat \<Rightarrow> bool" where
  "holder sys h k n \<longleftrightarrow> (\<exists>d. directory (cs_node sys h) k = Some d \<and> bit d n)"

text \<open>Node \<open>n\<close> holds a correct copy of block \<open>k\<close>, up to renewals on their way.\<close>

definition copy_ok :: "nat \<Rightarrow> dsm \<Rightarrow> 's CacheSys \<Rightarrow> nat \<Rightarrow> u64 \<Rightarrow> nat \<Rightarrow> bool" where
  "copy_ok caches mm sys n k i \<longleftrightarrow> holder sys (home caches k) k n \<and>
     MsgWriteback k \<notin> set (cs_net sys n (home caches k)) \<and>
     pending k (cs_net sys (home caches k) n) (cb_cache (block_cache (cs_node sys n) i)) = blk_mem mm k"

definition sys_ok :: "nat \<Rightarrow> (nat \<times> u64) set \<Rightarrow> dsm \<Rightarrow> 's CacheSys \<Rightarrow> bool" where
  "sys_ok caches E mm sys \<longleftrightarrow>
     (\<forall>n < caches. node_ok {k. (n, k) \<in> E} (cs_node sys n)) \<and>
     (\<forall>i j. \<forall>msg \<in> set (cs_net sys i j). msg_ok caches i j msg) \<and> (\<forall>i. cs_net sys i i = []) \<and>
     (\<forall>n < caches. \<forall>k i. (n, k) \<notin> E \<longrightarrow> hash (cs_node sys n) k = Some i \<longrightarrow> copy_ok caches mm sys n k i)"

lemma pending_simps [simp]:
  "pending k [] blk = blk" "pending k (m # ms) blk = pending k ms (renew_block k m blk)"
  "pending k (ms @ ms') blk = pending k ms' (pending k ms blk)"
  by (simp_all add: pending_def)

lemma ServerRenew_fields [simp]:
  "hash (ServerRenew Win32 nd addr v) = hash nd" "block_queue (ServerRenew Win32 nd addr v) = block_queue nd"
  "directory (ServerRenew Win32 nd addr v) = directory nd" "cache_clock (ServerRenew Win32 nd addr v) = cache_clock nd"
  "cb_key (block_cache (ServerRenew Win32 nd addr v) i) = cb_key (block_cache nd i)"
  "cb_lru (block_cache (ServerRenew Win32 nd addr v) i) = cb_lru (block_cache nd i)"
  "cb_readers (block_cache (ServerRenew Win32 nd addr v) i) = cb_readers (block_cache nd i)"
  by (auto simp: ServerRenew_def upd_block_def Let_def split: option.splits)

lemma ServerRenew_node_ok:
  assumes "node_ok X nd" "unat (addr AND DSM_CACHE_LOW_MASK_64) + length v \<le> 32"
  shows "node_ok X (ServerRenew Win32 nd addr v)"
proof -
  have "length (cb_cache (block_cache (ServerRenew Win32 nd addr v) i)) = 32" for i
    using assms by (auto simp: node_ok_def ServerRenew_def upd_block_def Let_def split: option.splits)
  then show ?thesis using assms(1) by (simp add: node_ok_def)
qed

lemma ServerRenew_copy:
  assumes "node_ok X nd" "hash nd k = Some i" "k \<notin> X"
  shows "cb_cache (block_cache (ServerRenew Win32 nd addr v) i) =
    renew_block k (MsgRenew addr v) (cb_cache (block_cache nd i))"
proof -
  have key: "cb_key (block_cache nd i) = k" using assms by (auto simp: node_ok_def)
  show ?thesis
  proof (cases "addr AND DSM_CACHE_HIGH_MASK_64 = k")
    case True
    then show ?thesis using assms key by (simp add: ServerRenew_def upd_block_def Let_def)
  next
    case False
    then have "hash nd (addr AND DSM_CACHE_HIGH_MASK_64) \<noteq> Some i" using assms by (auto simp: node_ok_def)
    then show ?thesis using False by (auto simp: ServerRenew_def upd_block_def Let_def split: option.splits)
  qed
qed

lemma sys_okD:
  assumes "sys_ok caches E mm sys"
  shows "n < caches \<Longrightarrow> node_ok {k. (n, k) \<in> E} (cs_node sys n)"
    and "msg \<in> set (cs_net sys i j) \<Longrightarrow> msg_ok caches i j msg"
    and "cs_net sys i i = []"
    and "n < caches \<Longrightarrow> (n, k) \<notin> E \<Longrightarrow> hash (cs_node sys n) k = Some b \<Longrightarrow> copy_ok caches mm sys n k b"
  using assms by (auto simp: sys_ok_def)

lemma sys_okI:
  assumes "\<And>n. n < caches \<Longrightarrow> node_ok {k. (n, k) \<in> E} (cs_node sys n)"
    and "\<And>i j msg. msg \<in> set (cs_net sys i j) \<Longrightarrow> msg_ok caches i j msg"
    and "\<And>i. cs_net sys i i = []"
    and "\<And>n k b. n < caches \<Longrightarrow> (n, k) \<notin> E \<Longrightarrow> hash (cs_node sys n) k = Some b \<Longrightarrow> copy_ok caches mm sys n k b"
  shows "sys_ok caches E mm sys"
  using assms by (auto simp: sys_ok_def)

lemma upd_node_simps [simp]:
  "cs_node (upd_node sys n nd) m = (if m = n then nd else cs_node sys m)"
  "cs_net (upd_node sys n nd) = cs_net sys" "cs_backend (upd_node sys n nd) = cs_backend sys"
  by (simp_all add: upd_node_def)

lemma send_control_simps [simp]:
  "cs_node (send_control sys i j msg) = cs_node sys"
  "cs_net (send_control sys i j msg) a b = (if a = i \<and> b = j then cs_net sys a b @ [msg] else cs_net sys a b)"
  "cs_backend (send_control sys i j msg) = cs_backend sys"
  by (simp_all add: send_control_def)

lemma upd_node_same [simp]: "upd_node sys n (cs_node sys n) = sys"
  by (simp add: upd_node_def)

text \<open>A message leaves the channel and changes nothing but the receiver.\<close>

definition delivered :: "nat \<Rightarrow> nat \<Rightarrow> 's CacheSys \<Rightarrow> 's CacheSys \<Rightarrow> bool" where
  "delivered i j sys sys' \<longleftrightarrow> cs_backend sys' = cs_backend sys \<and>
     cs_net sys' = (cs_net sys)(i := (cs_net sys i)(j := tl (cs_net sys i j))) \<and>
     (\<forall>n. n \<noteq> j \<longrightarrow> cs_node sys' n = cs_node sys n) \<and>
     hash (cs_node sys' j) = hash (cs_node sys j) \<and> cache_clock (cs_node sys' j) = cache_clock (cs_node sys j)"

lemma copy_ok_Cons_other:
  assumes "copy_ok caches mm sys n k b" "cs_net sys i j = msg # msgs"
    and "cs_net sys' = (cs_net sys)(i := (cs_net sys i)(j := msgs))"
    and "holder sys (home caches k) k n \<Longrightarrow> MsgWriteback k \<notin> set (cs_net sys n (home caches k)) \<Longrightarrow> holder sys' (home caches k) k n"
    and "cb_cache (block_cache (cs_node sys' n) b) =
      (if i = home caches k \<and> j = n then renew_block k msg (cb_cache (block_cache (cs_node sys n) b))
       else cb_cache (block_cache (cs_node sys n) b))"
  shows "copy_ok caches mm sys' n k b"
  using assms by (auto simp: copy_ok_def)

lemma ServerWriteback_home:
  assumes "home caches addr = j"
  shows "\<exists>d. ServerWriteback caches sys j addr i = Some (upd_node sys j ((cs_node sys j)\<lparr> directory := d \<rparr>)) \<and>
    (\<forall>k n. holder sys j k n \<longrightarrow> k \<noteq> addr \<or> n \<noteq> i \<longrightarrow> (\<exists>w. d k = Some w \<and> bit w n))"
proof (cases "directory (cs_node sys j) addr")
  case None
  show ?thesis
    using None assms by (intro exI [of _ "directory (cs_node sys j)"]) (auto simp: ServerWriteback_def holder_def)
next
  case (Some old)
  let ?newv = "old AND NOT (push_bit i 1)"
  have bits: "bit ?newv n \<longleftrightarrow> bit old n \<and> n \<noteq> i" for n
    by (cases "bit old n") (auto simp: bit_simps dest: bit_imp_le_length)
  have "holder sys j k n \<longrightarrow> k \<noteq> addr \<or> n \<noteq> i \<longrightarrow>
      (\<exists>w. ((directory (cs_node sys j))(addr := (if ?newv \<noteq> 0 then Some ?newv else None))) k = Some w \<and> bit w n)" for k n
    using Some bits [of n] by (auto simp: holder_def)
  moreover have "ServerWriteback caches sys j addr i = Some (upd_node sys j ((cs_node sys j)\<lparr> directory :=
      (directory (cs_node sys j))(addr := (if ?newv \<noteq> 0 then Some ?newv else None)) \<rparr>))"
    using Some assms by (simp add: ServerWriteback_def Let_def)
  ultimately show ?thesis by blast
qed

lemma node_ok_directory [simp]: "node_ok X (nd\<lparr> directory := d \<rparr>) = node_ok X nd"
  by (simp add: node_ok_def)

lemma deliver_sys_ok:
  assumes ok: "sys_ok caches E mm sys" and j: "j < caches"
  shows "\<exists>sys'. CacheProtocalProc Win32 caches sys i j = Some sys' \<and> sys_ok caches E mm sys' \<and> delivered i j sys sys' \<and>
    (\<forall>h k. MsgWriteback k \<notin> set (cs_net sys i j) \<longrightarrow> holder sys h k i \<longrightarrow> holder sys' h k i)"
proof (cases "cs_net sys i j")
  case Nil
  then show ?thesis using ok by (auto simp: CacheProtocalProc_def delivered_def fun_eq_iff)
next
  case (Cons msg msgs)
  have mok: "msg_ok caches i j msg" using sys_okD(2) [OF ok, of msg i j] Cons by simp
  have ij: "i \<noteq> j" using sys_okD(3) [OF ok, of i] Cons by auto
  let ?sys1 = "sys\<lparr> cs_net := (cs_net sys)(i := (cs_net sys i)(j := msgs)) \<rparr>"
  show ?thesis
  proof (cases msg)
    case (MsgRenew addr v)
    let ?sys' = "upd_node ?sys1 j (ServerRenew Win32 (cs_node sys j) addr v)"
    have step: "CacheProtocalProc Win32 caches sys i j = Some ?sys'"
      using Cons MsgRenew by (simp add: CacheProtocalProc_def)
    have ren: "home caches addr = i" "unat (addr AND DSM_CACHE_LOW_MASK_64) + length v \<le> 32"
      using mok MsgRenew by simp_all
    have hold: "holder ?sys' h k n = holder sys h k n" for h k n by (simp add: holder_def)
    have "sys_ok caches E mm ?sys'"
    proof (rule sys_okI)
      fix n assume "n < caches"
      then show "node_ok {k. (n, k) \<in> E} (cs_node ?sys' n)"
        using sys_okD(1) [OF ok, of n] ren(2) by (auto intro: ServerRenew_node_ok)
    next
      fix a b m assume "m \<in> set (cs_net ?sys' a b)"
      then show "msg_ok caches a b m" using sys_okD(2) [OF ok, of m a b] Cons by (auto split: if_splits)
    next
      fix a show "cs_net ?sys' a a = []" using sys_okD(3) [OF ok, of a] ij by auto
    next
      fix n k b assume n: "n < caches" "(n, k) \<notin> E" "hash (cs_node ?sys' n) k = Some b"
      then have h: "hash (cs_node sys n) k = Some b" by (auto split: if_splits)
      have cp: "copy_ok caches mm sys n k b" by (rule sys_okD(4) [OF ok n(1,2) h])
      have "cb_cache (block_cache (cs_node ?sys' n) b) =
        (if i = home caches k \<and> j = n then renew_block k msg (cb_cache (block_cache (cs_node sys n) b))
         else cb_cache (block_cache (cs_node sys n) b))"
      proof (cases "j = n")
        case True
        have "cb_cache (block_cache (ServerRenew Win32 (cs_node sys n) addr v) b) =
            renew_block k (MsgRenew addr v) (cb_cache (block_cache (cs_node sys n) b))"
          by (rule ServerRenew_copy [OF sys_okD(1) [OF ok n(1)] h]) (use n in simp)
        then show ?thesis using True MsgRenew ren(1) by auto
      qed simp
      then show "copy_ok caches mm ?sys' n k b"
        by (intro copy_ok_Cons_other [OF cp Cons]) (simp_all add: hold)
    qed
    then show ?thesis using step Cons hold by (auto simp: delivered_def)
  next
    case (MsgRenewChunk addr v)
    then show ?thesis using mok by simp
  next
    case (MsgWriteback addr)
    then have hj: "home caches addr = j" using mok by simp
    obtain d where d: "ServerWriteback caches ?sys1 j addr i = Some (upd_node ?sys1 j ((cs_node ?sys1 j)\<lparr> directory := d \<rparr>))"
        "\<And>k n. holder ?sys1 j k n \<Longrightarrow> k \<noteq> addr \<or> n \<noteq> i \<Longrightarrow> \<exists>w. d k = Some w \<and> bit w n"
      using ServerWriteback_home [OF hj, of ?sys1 i] by blast
    let ?sys' = "upd_node ?sys1 j ((cs_node ?sys1 j)\<lparr> directory := d \<rparr>)"
    have step: "CacheProtocalProc Win32 caches sys i j = Some ?sys'"
      using Cons MsgWriteback d(1) by (simp add: CacheProtocalProc_def)
    have hold: "holder ?sys' h k n" if "holder sys h k n" "h = j \<longrightarrow> k \<noteq> addr \<or> n \<noteq> i" for h k n
      using that d(2) [of k n] by (cases "h = j") (auto simp: holder_def)
    have "sys_ok caches E mm ?sys'"
    proof (rule sys_okI)
      fix n assume "n < caches"
      then show "node_ok {k. (n, k) \<in> E} (cs_node ?sys' n)" using sys_okD(1) [OF ok, of n] by auto
    next
      fix a b m assume "m \<in> set (cs_net ?sys' a b)"
      then show "msg_ok caches a b m" using sys_okD(2) [OF ok, of m a b] Cons by (auto split: if_splits)
    next
      fix a show "cs_net ?sys' a a = []" using sys_okD(3) [OF ok, of a] ij by auto
    next
      fix n k b assume n: "n < caches" "(n, k) \<notin> E" "hash (cs_node ?sys' n) k = Some b"
      then have h: "hash (cs_node sys n) k = Some b" by (auto split: if_splits)
      have cp: "copy_ok caches mm sys n k b" by (rule sys_okD(4) [OF ok n(1,2) h])
      show "copy_ok caches mm ?sys' n k b"
      proof (rule copy_ok_Cons_other [OF cp Cons])
        assume "holder sys (home caches k) k n" "MsgWriteback k \<notin> set (cs_net sys n (home caches k))"
        then show "holder ?sys' (home caches k) k n" using Cons MsgWriteback by (intro hold) auto
      qed (use MsgWriteback in auto)
    qed
    moreover have "holder ?sys' h k i" if "MsgWriteback k \<notin> set (cs_net sys i j)" "holder sys h k i" for h k
      using that Cons MsgWriteback by (intro hold) auto
    ultimately show ?thesis using step Cons by (auto simp: delivered_def)
  qed
qed

lemma handle_pending_sys_ok:
  assumes "sys_ok caches E mm sys" "j < caches"
  shows "\<exists>sys'. handle_pending Win32 caches i j m sys = Some sys' \<and> sys_ok caches E mm sys' \<and>
    cs_backend sys' = cs_backend sys \<and>
    cs_net sys' = (cs_net sys)(i := (cs_net sys i)(j := drop m (cs_net sys i j))) \<and>
    (\<forall>n. n \<noteq> j \<longrightarrow> cs_node sys' n = cs_node sys n) \<and>
    (\<forall>h k. MsgWriteback k \<notin> set (cs_net sys i j) \<longrightarrow> holder sys h k i \<longrightarrow> holder sys' h k i)"
  using assms
proof (induction m arbitrary: sys)
  case 0
  then show ?case by (simp add: fun_eq_iff)
next
  case (Suc m)
  obtain s1 where s1: "CacheProtocalProc Win32 caches sys i j = Some s1" "sys_ok caches E mm s1" "delivered i j sys s1"
      "\<forall>h k. MsgWriteback k \<notin> set (cs_net sys i j) \<longrightarrow> holder sys h k i \<longrightarrow> holder s1 h k i"
    using deliver_sys_ok [OF Suc.prems] by blast
  obtain s2 where s2: "handle_pending Win32 caches i j m s1 = Some s2" "sys_ok caches E mm s2"
      "cs_backend s2 = cs_backend s1" "cs_net s2 = (cs_net s1)(i := (cs_net s1 i)(j := drop m (cs_net s1 i j)))"
      "\<forall>n. n \<noteq> j \<longrightarrow> cs_node s2 n = cs_node s1 n"
      "\<forall>h k. MsgWriteback k \<notin> set (cs_net s1 i j) \<longrightarrow> holder s1 h k i \<longrightarrow> holder s2 h k i"
    using Suc.IH [OF s1(2) Suc.prems(2)] by blast
  have net: "cs_net s1 = (cs_net sys)(i := (cs_net sys i)(j := tl (cs_net sys i j)))"
    and rest: "cs_backend s1 = cs_backend sys" "\<forall>n. n \<noteq> j \<longrightarrow> cs_node s1 n = cs_node sys n"
    using s1(3) by (simp_all add: delivered_def)
  have "set (cs_net s1 i j) \<subseteq> set (cs_net sys i j)" using net by (cases "cs_net sys i j") auto
  then have "holder s2 h k i" if "MsgWriteback k \<notin> set (cs_net sys i j)" "holder sys h k i" for h k
    using that s1(4) s2(6) by blast
  moreover have "cs_net s2 = (cs_net sys)(i := (cs_net sys i)(j := drop (Suc m) (cs_net sys i j)))"
    unfolding s2(4) net by (simp add: drop_Suc fun_eq_iff)
  moreover have "handle_pending Win32 caches i j (Suc m) sys = Some s2" "cs_backend s2 = cs_backend sys"
      "\<forall>n. n \<noteq> j \<longrightarrow> cs_node s2 n = cs_node sys n"
    using s1(1) s2(1,3,5) rest by simp_all
  ultimately show ?case using s2(2) by blast
qed

lemma drain_sys_ok:
  assumes "sys_ok caches E mm sys" "h < caches" "n \<noteq> h"
  obtains sys' where "drain Win32 caches n h sys = Some sys'" "sys_ok caches E mm sys'"
    "cs_backend sys' = cs_backend sys" "cs_net sys' = (cs_net sys)(n := (cs_net sys n)(h := []))"
    "cs_node sys' n = cs_node sys n"
    "\<And>k. MsgWriteback k \<notin> set (cs_net sys n h) \<Longrightarrow> holder sys h k n \<Longrightarrow> holder sys' h k n"
  using handle_pending_sys_ok [OF assms(1,2), of n "length (cs_net sys n h)"] assms(3) by (auto simp: drain_def)

lemma send_renews_eq:
  assumes "distinct is"
  shows "send_renews Win32 h src addr v old is sys =
    sys\<lparr> cs_node := (if h \<in> set is \<and> bit old h \<and> src \<noteq> h
                      then (cs_node sys)(h := ServerRenew Win32 (cs_node sys h) addr v) else cs_node sys),
         cs_net := (cs_net sys)(h := \<lambda>j. if j \<in> set is \<and> bit old j \<and> src \<noteq> j \<and> j \<noteq> h
                      then cs_net sys h j @ [MsgRenew addr v] else cs_net sys h j) \<rparr>"
  using assms
proof (induction "is" arbitrary: sys)
  case Nil
  then show ?case by simp
next
  case (Cons i ys)
  show ?case
    using Cons.prems by (cases sys) (auto simp: Cons.IH upd_node_def send_control_def fun_eq_iff)
qed

lemma bit_or_exp: "bit (w OR 2 ^ i :: u64) n \<longleftrightarrow> bit w n \<or> (n = i \<and> i < 64)"
  by (auto simp: bit_simps)

lemma set_holder_sys_ok:
  assumes ok: "sys_ok caches E mm sys" and src: "src < 64"
  shows "sys_ok caches E mm (set_holder sys h k src)" "holder (set_holder sys h k src) h k src"
    "cs_net (set_holder sys h k src) = cs_net sys" "cs_backend (set_holder sys h k src) = cs_backend sys"
    "\<And>m. block_cache (cs_node (set_holder sys h k src) m) = block_cache (cs_node sys m)"
    "\<And>m. hash (cs_node (set_holder sys h k src) m) = hash (cs_node sys m)"
    "\<And>m. cache_clock (cs_node (set_holder sys h k src) m) = cache_clock (cs_node sys m)"
    "\<And>j. (case directory (cs_node (set_holder sys h k src) h) k of None \<Rightarrow> 0 | Some d \<Rightarrow> d) =
       (case directory (cs_node sys h) k of None \<Rightarrow> 0 | Some d \<Rightarrow> d) OR push_bit src 1"
proof -
  let ?sys' = "set_holder sys h k src"
  have mono: "holder ?sys' h' k' n" if "holder sys h' k' n" for h' k' n
    using that by (auto simp: holder_def set_holder_def Let_def bit_or_exp)
  have eqs: "cs_net ?sys' = cs_net sys" "block_cache (cs_node ?sys' m) = block_cache (cs_node sys m)"
      "hash (cs_node ?sys' m) = hash (cs_node sys m)" for m
    by (simp_all add: set_holder_def Let_def)
  show "sys_ok caches E mm ?sys'"
  proof (rule sys_okI)
    fix n assume "n < caches"
    then show "node_ok {k. (n, k) \<in> E} (cs_node ?sys' n)"
      using sys_okD(1) [OF ok, of n] by (auto simp: set_holder_def Let_def)
  qed (use sys_okD [OF ok] mono in \<open>auto simp: eqs copy_ok_def\<close>)
qed (use src in \<open>auto simp: set_holder_def Let_def holder_def bit_or_exp\<close>)

lemma node_ok_hash:
  assumes "node_ok X nd" "hash nd k = Some i"
  shows "i < DSM_CACHE_SIZE" "block_ok k" "k \<notin> X \<Longrightarrow> cb_key (block_cache nd i) = k"
    "length (cb_cache (block_cache nd i)) = 32" "\<And>k'. hash nd k' = Some i \<Longrightarrow> k' = k"
    "k \<notin> X \<Longrightarrow> cb_lru (block_cache nd i) < unat (cache_clock nd)"
  using assms by (auto simp: node_ok_def)

lemma node_ok_readers: "node_ok X nd \<Longrightarrow> cb_readers (block_cache nd i) = 0"
  by (simp add: node_ok_def)

lemma node_ok_mono: "node_ok X nd \<Longrightarrow> X \<subseteq> Y \<Longrightarrow> node_ok Y nd"
  by (auto simp: node_ok_def)

text \<open>The home node writes for \<open>src\<close>: every other copy is renewed, now or by a message.\<close>

lemma home_write_sys_ok:
  assumes ok: "sys_ok caches E mm sys" and h: "home caches addr = h" and addr: "addr = MAKE64 ob f"
    and v: "unat f mod 32 + length v \<le> 32" and k: "k = addr AND DSM_CACHE_HIGH_MASK_64"
    and old: "\<And>j. j \<noteq> src \<Longrightarrow> holder sys h k j \<Longrightarrow> bit old j"
  shows "sys_ok caches (insert (src, k) E) (dsm_write mm ob f v)
      (send_renews Win32 h src addr v old [0..<caches] sys)"
proof -
  let ?sys' = "send_renews Win32 h src addr v old [0..<caches] sys"
  let ?E = "insert (src, k) E"
  define sys' where "sys' = ?sys'"
  have node: "cs_node sys' m = (if m = h \<and> h < caches \<and> bit old h \<and> src \<noteq> h
      then ServerRenew Win32 (cs_node sys h) addr v else cs_node sys m)" for m
    by (simp add: sys'_def send_renews_eq)
  have net: "cs_net sys' a c = (if a = h \<and> c < caches \<and> bit old c \<and> src \<noteq> c \<and> c \<noteq> h
      then cs_net sys a c @ [MsgRenew addr v] else cs_net sys a c)" for a c
    by (simp add: sys'_def send_renews_eq)
  have low: "unat (addr AND DSM_CACHE_LOW_MASK_64) = unat f mod 32" by (simp add: addr MAKE64_low)
  have hold: "holder sys' a b c = holder sys a b c" for a b c by (simp add: node holder_def)
  have hash: "hash (cs_node sys' n) = hash (cs_node sys n)" for n by (simp add: node)
  have "sys_ok caches ?E (dsm_write mm ob f v) sys'"
  proof (rule sys_okI)
    fix n assume "n < caches"
    then have "node_ok {k. (n, k) \<in> E} (cs_node sys' n)"
      using sys_okD(1) [OF ok] v low by (auto simp: node net intro!: ServerRenew_node_ok)
    then show "node_ok {k. (n, k) \<in> ?E} (cs_node sys' n)" by (rule node_ok_mono) auto
  next
    fix a b m assume "m \<in> set (cs_net sys' a b)"
    then show "msg_ok caches a b m"
      using sys_okD(2) [OF ok, of m a b] v low h by (auto simp: node net split: if_splits)
  next
    fix a show "cs_net sys' a a = []" using sys_okD(3) [OF ok] by (simp add: node net)
  next
    fix n k' b assume n: "n < caches" "(n, k') \<notin> ?E" "hash (cs_node sys' n) k' = Some b"
    then have hn: "hash (cs_node sys n) k' = Some b" and nE: "(n, k') \<notin> E" by (simp_all add: hash)
    have nk: "node_ok {k. (n, k) \<in> E} (cs_node sys n)" by (rule sys_okD(1) [OF ok n(1)])
    have cp: "copy_ok caches mm sys n k' b" by (rule sys_okD(4) [OF ok n(1) nE hn])
    have bm: "blk_mem (dsm_write mm ob f v) k' = renew_block k' (MsgRenew addr v) (blk_mem mm k')"
      using blk_mem_write [OF node_ok_hash(2) [OF nk hn] v] low addr by (auto simp: eq_commute)
    show "copy_ok caches (dsm_write mm ob f v) sys' n k' b"
    proof (cases "k' = k \<and> n \<noteq> src")
      case True
      then have kk: "k' = k" and hk: "home caches k = h" using h k by simp_all
      have bit: "bit old n" using True cp hk kk by (intro old) (auto simp: copy_ok_def)
      show ?thesis
      proof (cases "n = h")
        case True
        have "cb_cache (block_cache (ServerRenew Win32 (cs_node sys n) addr v) b) =
            renew_block k' (MsgRenew addr v) (cb_cache (block_cache (cs_node sys n) b))"
          by (rule ServerRenew_copy [OF nk hn]) (use nE in simp)
        moreover have "cs_net sys h h = []" by (rule sys_okD(3) [OF ok])
        ultimately show ?thesis
          using cp True \<open>k' = k \<and> n \<noteq> src\<close> bit n(1)
          by (simp add: kk copy_ok_def hk hold bm [unfolded kk] node net del: renew_block.simps)
      next
        case False
        then show ?thesis
          using cp True bit n(1) by (simp add: kk copy_ok_def hk hold bm [unfolded kk] node net del: renew_block.simps)
      qed
    next
      case False
      then have kk: "k' \<noteq> k" using n(2) by auto
      have p: "pending k' (cs_net sys' a n) w = pending k' (cs_net sys a n) w" for a w
        using kk k by (simp add: node net)
      have c: "cb_cache (block_cache (cs_node sys' n) b) = cb_cache (block_cache (cs_node sys n) b)"
        using ServerRenew_copy [OF nk hn, of addr v] kk k nE by (auto simp: node)
      have w: "MsgWriteback k' \<in> set (cs_net sys' a c) \<longleftrightarrow> MsgWriteback k' \<in> set (cs_net sys a c)" for a c
        by (simp add: node net)
      show ?thesis using cp kk k by (simp add: copy_ok_def hold bm p c w)
    qed
  qed
  then show ?thesis by (simp only: sys'_def)
qed

lemma send_renews_frame:
  shows "cs_node (send_renews Win32 h src addr v old [0..<caches] sys) src = cs_node sys src"
    "cs_net (send_renews Win32 h src addr v old [0..<caches] sys) h src = cs_net sys h src"
    "a \<noteq> h \<Longrightarrow> cs_net (send_renews Win32 h src addr v old [0..<caches] sys) a = cs_net sys a"
    "cs_backend (send_renews Win32 h src addr v old [0..<caches] sys) = cs_backend sys"
    "holder (send_renews Win32 h src addr v old [0..<caches] sys) x y z = holder sys x y z"
  by (simp_all add: send_renews_eq holder_def)

text \<open>No renewal of block \<open>k\<close> is on its way to node \<open>n\<close>.\<close>

definition quiet :: "nat \<Rightarrow> 's CacheSys \<Rightarrow> nat \<Rightarrow> u64 \<Rightarrow> bool" where
  "quiet caches sys n k \<longleftrightarrow> list_all (\<lambda>msg. case msg of MsgRenew addr v \<Rightarrow> addr AND DSM_CACHE_HIGH_MASK_64 \<noteq> k | _ \<Rightarrow> True)
     (cs_net sys (home caches k) n)"

lemma pending_quiet:
  assumes "quiet caches sys n k"
  shows "pending k (cs_net sys (home caches k) n) blk = blk"
proof -
  have "pending k msgs blk = blk"
    if "list_all (\<lambda>msg. case msg of MsgRenew addr v \<Rightarrow> addr AND DSM_CACHE_HIGH_MASK_64 \<noteq> k | _ \<Rightarrow> True) msgs" for msgs
    using that
  proof (induction msgs)
    case (Cons m ms)
    then show ?case by (cases m) auto
  qed simp
  then show ?thesis using assms by (simp add: quiet_def)
qed

lemma node_ok_block:
  assumes nok: "node_ok X nd" and hk: "hash nd k = Some i"
    and blk: "cb_readers blk = 0" "length (cb_cache blk) = 32" "cb_key blk = k" "cb_lru blk < unat c"
    and c: "unat (cache_clock nd) \<le> unat c" and Y: "X \<subseteq> insert k Y"
  shows "node_ok Y ((upd_block nd i blk)\<lparr> cache_clock := c \<rparr>)"
proof -
  have *: "b = i \<and> k' = k \<or> b \<noteq> i \<and> cb_key (block_cache nd b) = k' \<and> cb_lru (block_cache nd b) < unat c"
    if "hash nd k' = Some b" "k' \<notin> Y" for k' b
  proof (cases "k' = k")
    case False
    then show ?thesis
      using node_ok_hash(3,5,6) [OF nok that(1)] hk c Y that(2) by fastforce
  qed (use hk that in auto)
  let ?nd = "(upd_block nd i blk)\<lparr> cache_clock := c \<rparr>"
  have "cb_readers (block_cache ?nd b) = 0 \<and> length (cb_cache (block_cache ?nd b)) = 32" for b
    using nok blk by (simp add: node_ok_def upd_block_def)
  moreover have "cb_key (block_cache ?nd b) = k' \<and> cb_lru (block_cache ?nd b) < unat (cache_clock ?nd)"
    if "k' \<notin> Y" "hash ?nd k' = Some b" for k' b
    using * [of k' b] that blk by (auto simp: upd_block_def)
  moreover have "hash ?nd = hash nd" "block_queue ?nd = block_queue nd" by (simp_all add: upd_block_def)
  ultimately show ?thesis using nok by (simp add: node_ok_def)
qed

text \<open>A block whose words, holder bit and channels are right becomes a copy again.\<close>

lemma settle_sys_ok:
  assumes ok: "sys_ok caches {(n, k)} mm sys" and n: "n < caches" and hk: "hash (cs_node sys n) k = Some i"
    and hold: "holder sys (home caches k) k n" and wb: "MsgWriteback k \<notin> set (cs_net sys n (home caches k))"
    and q: "quiet caches sys n k" and clk: "unat (cache_clock (cs_node sys n)) < 0xffffffff"
    and nd: "nd = (upd_block (cs_node sys n) i (block_cache (cs_node sys n) i
        \<lparr> cb_cache := blk_mem mm k, cb_key := k, cb_lru := unat (cache_clock (cs_node sys n)) \<rparr>))
        \<lparr> cache_clock := cache_clock (cs_node sys n) + 1 \<rparr>"
  shows "sys_ok caches {} mm (upd_node sys n nd)"
proof -
  let ?sys' = "upd_node sys n nd" and ?nd = "cs_node sys n"
  have nok: "node_ok {k} ?nd" using sys_okD(1) [OF ok n] by simp
  have tick: "unat (cache_clock ?nd + 1) = unat (cache_clock ?nd) + 1"
    using clk unat_add_of_nat [of "cache_clock ?nd" 1] by simp
  have other: "b \<noteq> i" if "hash ?nd k' = Some b" "k' \<noteq> k" for k' b
    using node_ok_hash(5) [OF nok that(1), of k] hk that by auto
  have hold': "holder ?sys' a b c = holder sys a b c" for a b c by (simp add: holder_def nd upd_block_def)
  have bc: "cb_cache (block_cache (cs_node ?sys' m) b) =
      (if m = n \<and> b = i then blk_mem mm k else cb_cache (block_cache (cs_node sys m) b))" for m b
    by (simp add: nd upd_block_def)
  show ?thesis
  proof (rule sys_okI)
    fix m assume m: "m < caches"
    have "node_ok {} nd"
      using nok tick unfolding nd by (intro node_ok_block [OF nok hk]) (simp_all add: node_ok_readers)
    then show "node_ok {k'. (m, k') \<in> {}} (cs_node ?sys' m)"
      using sys_okD(1) [OF ok m] by auto
  next
    fix m k' b assume m: "m < caches" "(m, k') \<notin> {}" "hash (cs_node ?sys' m) k' = Some b"
    then have hm: "hash (cs_node sys m) k' = Some b" by (auto simp: nd upd_block_def split: if_splits)
    show "copy_ok caches mm ?sys' m k' b"
    proof (cases "(m, k') = (n, k)")
      case True
      then show ?thesis
        using hm hk hold wb pending_quiet [OF q] unfolding copy_ok_def hold' bc by simp
    next
      case False
      then have "copy_ok caches mm sys m k' b" by (intro sys_okD(4) [OF ok m(1) _ hm]) simp
      then show ?thesis using False other [of k' b] hm unfolding copy_ok_def hold' bc by auto
    qed
  qed (use sys_okD [OF ok] in auto)
qed
end
