(* ===== verification/Dogee_CacheCoherence.thy ===== *)
theory Dogee_CacheCoherence
  imports Dogee_CacheCopies
begin

text \<open>
  The calls of a client of the directory cache over any backend that satisfies \<open>dsm_storage\<close>: a
  get returns the words of the abstract memory, a put writes them there, and both keep every cached
  copy coherent.
\<close>

unbundle bit_operations_syntax

section \<open>Blocks of a chunk\<close>

text \<open>
  \<open>pieces_cover ob p ps e\<close>: the pieces \<open>ps\<close> follow each other from field \<open>p\<close> to field \<open>e\<close> of the
  object, and none crosses the end of a block.
\<close>

fun pieces_cover :: "ObjectKey \<Rightarrow> nat \<Rightarrow> (u64 \<times> nat) list \<Rightarrow> nat \<Rightarrow> bool" where
  "pieces_cover ob p [] e = (p = e)"
| "pieces_cover ob p ((k, len) # ps) e =
     (k = MAKE64 ob (of_nat p) \<and> 0 < len \<and> p mod 32 + len \<le> 32 \<and> pieces_cover ob (p + len) ps e)"

lemma pieces_cover_append:
  "pieces_cover ob p ps m \<Longrightarrow> pieces_cover ob m qs e \<Longrightarrow> pieces_cover ob p (ps @ qs) e"
  by (induction ob p ps m rule: pieces_cover.induct) simp_all

lemma pieces_cover_blocks:
  "p mod 32 = 0 \<Longrightarrow>
   pieces_cover ob p (map (\<lambda>b. (MAKE64 ob (of_nat (p + 32 * b)), 32)) [0..<n]) (p + 32 * n)"
proof (induction n)
  case (Suc n)
  have "pieces_cover ob (p + 32 * n) [(MAKE64 ob (of_nat (p + 32 * n)), 32)] (p + 32 * Suc n)"
    using Suc.prems by simp
  then show ?case using pieces_cover_append [OF Suc.IH [OF Suc.prems]] by simp
qed simp

lemma MAKE64_of_nat:
  assumes "p < 4294967296" "p + i < 4294967296"
  shows "MAKE64 ob (of_nat p) + of_nat i = MAKE64 ob (of_nat (p + i))"
  using MAKE64_add [of "of_nat p" i ob] assms by (simp add: unat_of_nat_small)

lemma MAKE64_of_nat_high:
  assumes "p < 4294967296"
  shows "MAKE64 ob (of_nat p) AND DSM_CACHE_HIGH_MASK_64 = MAKE64 ob (of_nat (p div 32 * 32))"
proof -
  have "p div 32 * 32 \<le> p" by simp
  then have "unat (of_nat p AND DSM_CACHE_HIGH_MASK :: u32) = unat (of_nat (p div 32 * 32) :: u32)"
    using assms unfolding unat_and_high by (subst (1 2) unat_of_nat_small) simp_all
  then have "(of_nat p AND DSM_CACHE_HIGH_MASK :: u32) = of_nat (p div 32 * 32)" by (simp only: word_unat_eq_iff)
  then show ?thesis by (simp only: MAKE64_high)
qed

lemma chunk_pieces_cover_nat:
  assumes al: "a + l \<le> 4294967264"
  shows "pieces_cover ob a (chunk_pieces (MAKE64 ob (of_nat a)) (of_nat l)) (a + l)"
proof -
  let ?k = "\<lambda>p. MAKE64 ob (of_nat p)"
  obtain q r where a: "a = 32 * q + r" "r < 32" "a div 32 = q" "a mod 32 = r" by (rule block_split)
  obtain q' r' where e: "a + l = 32 * q' + r'" "r' < 32" "(a + l) div 32 = q'" "(a + l) mod 32 = r'" by (rule block_split)
  define s where "s = (if r = 0 then a else 32 * q + 32)"
  have q': "q \<le> q'" using a e div_le_mono [of a "a + l" 32] by simp
  have s: "a \<le> s" "s mod 32 = 0" "s < 4294967296" using a al by (auto simp: s_def)
  have un: "unat (?k p) = unat ob * 4294967296 + p" if "p < 4294967296" for p
    using that by (simp add: unat_MAKE64 unat_of_nat_small)
  have l: "unat (of_nat l :: u32) = l" using al by (simp add: unat_of_nat_small)
  have tail: "?k a + ucast (of_nat l :: u32) = ?k (a + l)"
  proof -
    have "ucast (of_nat l :: u32) = (of_nat l :: u64)"
      using al by (simp add: unsigned_of_nat take_bit_nat_eq_self)
    then show ?thesis using MAKE64_of_nat [of a l ob] al by simp
  qed
  have start: "(if ?k a AND DSM_CACHE_LOW_MASK_64 \<noteq> 0
      then (?k a AND DSM_CACHE_HIGH_MASK_64) + of_nat 32 else ?k a) = ?k s"
  proof -
    have "unat (of_nat a :: u32) = a" using al by (simp add: unat_of_nat_small)
    then have "?k a AND DSM_CACHE_LOW_MASK_64 = 0 \<longleftrightarrow> r = 0"
      using a(4) by (simp add: word_unat_eq_iff MAKE64_low)
    moreover have "(?k a AND DSM_CACHE_HIGH_MASK_64) + of_nat 32 = ?k (32 * q + 32)" if "r \<noteq> 0"
    proof -
      have "a < 4294967296" "32 * q + 32 < 4294967296" using al a that by simp_all
      moreover have "?k a AND DSM_CACHE_HIGH_MASK_64 = ?k (32 * q)"
        using MAKE64_of_nat_high [OF calculation(1), of ob] by (simp only: a(3) mult.commute)
      ultimately show ?thesis using MAKE64_of_nat [of "32 * q" 32 ob] by (simp only:)
    qed
    ultimately show ?thesis by (simp add: s_def)
  qed
  have ke: "?k (a + l) AND DSM_CACHE_HIGH_MASK_64 = ?k (32 * q')"
    using al MAKE64_of_nat_high [of "a + l" ob] by (simp only: e(3) mult.commute)
  have lt: "?k s < ?k (a + l) \<longleftrightarrow> s < a + l" using un [of s] un [of "a + l"] s al by (simp add: word_less_nat_alt)
  have cl: "unat (ucast (?k s - ?k a) :: u32) = s - a"
  proof -
    have "unat (?k s - ?k a) = s - a" using un [of s] un [of a] s al by (subst unat_sub_le) simp_all
    then show ?thesis using s by (simp add: unsigned_ucast_eq take_bit_nat_eq_self)
  qed
  have bl: "(unat (?k (32 * q')) - unat (?k s)) div 32 = q' - s div 32"
  proof -
    obtain q2 where q2: "s = 32 * q2" using s(2) by auto
    show ?thesis using un [of "32 * q'"] un [of s] s al e unfolding q2 by (simp flip: diff_mult_distrib2)
  qed
  have blocks: "?k s + of_nat (32 * b) = ?k (s + 32 * b)" if "b < q' - s div 32" for b
  proof -
    obtain q2 where q2: "s = 32 * q2" using s(2) by auto
    then have "s + 32 * b < 32 * q'" using that by simp
    then show ?thesis using s e al by (intro MAKE64_of_nat) simp_all
  qed
  define cp where "cp = (if s < a + l then s - a else l)"
  have m: "map (\<lambda>b. (?k s + of_nat (32 * b), 32 :: nat)) [0..<q' - s div 32] = map (\<lambda>b. (?k (s + 32 * b), 32)) [0..<q' - s div 32]"
    by (rule map_cong [OF refl]) (simp only: blocks set_upt atLeastLessThan_iff)
  have eq: "chunk_pieces (?k a) (of_nat l) = (if 0 < cp then [(?k a, cp)] else []) @
      map (\<lambda>b. (?k (s + 32 * b), 32)) [0..<q' - s div 32] @
      (if cp + 32 * (q' - s div 32) < l then [(?k (32 * q'), l - (cp + 32 * (q' - s div 32)))] else [])"
    unfolding chunk_pieces_def Let_def tail start ke lt cl l DSM_CACHE_BLOCK_SIZE_eq bl cp_def m by (rule refl)
  show ?thesis
  proof (cases "s < a + l")
    case False
    then have "q' - s div 32 = 0" using div_le_mono [of "a + l" s 32] e by simp
    moreover have "l = 0 \<or> a mod 32 + l \<le> 32" using False a(1,2) unfolding a(4) by (auto simp: s_def split: if_splits)
    ultimately show ?thesis using False unfolding eq by (auto simp: cp_def)
  next
    case True
    obtain q2 where q2: "s = 32 * q2" using s(2) by auto
    have qq: "q2 \<le> q'" using True div_le_mono [of s "a + l" 32] e q2 by simp
    have head: "pieces_cover ob a (if 0 < cp then [(?k a, cp)] else []) s"
      using True s a by (auto simp: cp_def s_def)
    have mid: "pieces_cover ob s (map (\<lambda>b. (?k (s + 32 * b), 32)) [0..<q' - q2]) (32 * q')"
      using pieces_cover_blocks [OF s(2), of ob "q' - q2"] qq q2 by (simp add: diff_mult_distrib2)
    have idx: "cp + 32 * (q' - q2) = 32 * q' - a" using True s qq q2 by (simp add: cp_def diff_mult_distrib2)
    have last: "pieces_cover ob (32 * q') (if 32 * q' - a < l then [(?k (32 * q'), l - (32 * q' - a))] else []) (a + l)"
      using e q2 qq s(1) by (auto simp: not_less)
    have sq: "s div 32 = q2" using q2 by simp
    show ?thesis
      unfolding eq sq idx by (rule pieces_cover_append [OF head pieces_cover_append [OF mid last]])
  qed
qed

lemma chunk_pieces_cover:
  assumes "dsm_range f (unat len)"
  shows "pieces_cover ob (unat f) (chunk_pieces (MAKE64 ob f) len) (unat f + unat len)"
  using chunk_pieces_cover_nat [of "unat f" "unat len" ob] assms by (simp add: dsm_range_def)
section \<open>Eviction\<close>

lemma find_victim_spec:
  assumes "find_victim bs m0 mini is = Some i"
  shows "mini = Some i \<and> (\<forall>j \<in> set is. cb_key (bs j) \<noteq> DSM_CACHE_BAD_KEY \<longrightarrow> m0 \<le> cb_lru (bs j)) \<or>
    i \<in> set is \<and> cb_key (bs i) \<noteq> DSM_CACHE_BAD_KEY \<and> cb_lru (bs i) < m0 \<and>
      (\<forall>j \<in> set is. cb_key (bs j) \<noteq> DSM_CACHE_BAD_KEY \<longrightarrow> cb_lru (bs i) \<le> cb_lru (bs j))"
  using assms
proof (induction bs m0 mini "is" rule: find_victim.induct)
  case (2 bs minlru mini i' js)
  show ?case
  proof (cases "cb_key (bs i') \<noteq> DSM_CACHE_BAD_KEY \<and> cb_lru (bs i') < minlru")
    case True
    then show ?thesis using 2(1) [OF True] 2(3) by auto
  next
    case False
    then show ?thesis using 2(2) [OF False] 2(3) by auto
  qed
qed simp

lemma find_victim_Some: "\<exists>i. find_victim bs m0 (Some j) is = Some i"
  by (induction "is" arbitrary: m0 j) auto

lemma find_victim_exists:
  assumes "j \<in> set is" "cb_key (bs j) \<noteq> DSM_CACHE_BAD_KEY" "cb_lru (bs j) < m0"
  shows "find_victim bs m0 None is \<noteq> None"
  using assms by (induction "is") (auto simp: find_victim_Some)

lemma node_ok_length: "node_ok X nd \<Longrightarrow> length (cb_cache (block_cache nd i)) = 32"
  by (simp add: node_ok_def)

lemma node_ok_table: "node_ok X nd \<Longrightarrow> i < DSM_CACHE_SIZE \<Longrightarrow> i \<in> set (block_queue nd) \<or> (\<exists>k. hash nd k = Some i)"
  unfolding node_ok_def by blast

lemma node_okI:
  assumes "\<And>i. cb_readers (block_cache nd i) = 0" "\<And>i. length (cb_cache (block_cache nd i)) = 32"
    and "\<And>k i. hash nd k = Some i \<Longrightarrow> i < DSM_CACHE_SIZE \<and> i \<notin> set (block_queue nd) \<and> block_ok k"
    and "\<And>k k' i. hash nd k = Some i \<Longrightarrow> hash nd k' = Some i \<Longrightarrow> k = k'"
    and "\<And>k i. k \<notin> X \<Longrightarrow> hash nd k = Some i \<Longrightarrow>
        cb_key (block_cache nd i) = k \<and> cb_lru (block_cache nd i) < unat (cache_clock nd)"
    and "distinct (block_queue nd)" "\<And>i. i \<in> set (block_queue nd) \<Longrightarrow> i < DSM_CACHE_SIZE"
    and "\<And>i. i < DSM_CACHE_SIZE \<Longrightarrow> i \<in> set (block_queue nd) \<or> (\<exists>k. hash nd k = Some i)"
  shows "node_ok X nd"
  unfolding node_ok_def using assms by blast

lemma queue_sys_ok:
  assumes ok: "sys_ok caches {} mm sys" and n: "n < caches" and k: "block_ok k"
    and h: "hash (cs_node sys n) k = None" and q: "block_queue (cs_node sys n) = ret # q"
  shows "sys_ok caches {(n, k)} mm (upd_node sys n ((cs_node sys n)\<lparr> block_queue := q, hash := (hash (cs_node sys n))(k \<mapsto> ret) \<rparr>))"
proof -
  let ?nd = "cs_node sys n"
  let ?nd' = "?nd\<lparr> block_queue := q, hash := (hash ?nd)(k \<mapsto> ret) \<rparr>"
  let ?sys' = "upd_node sys n ?nd'"
  have nok: "node_ok {} ?nd" using sys_okD(1) [OF ok n] by simp
  have dq: "distinct (ret # q)" "\<forall>i \<in> set (ret # q). i < DSM_CACHE_SIZE"
    using nok by (simp_all add: node_ok_def q)
  have nq: "i \<noteq> ret" "i \<notin> set q" if "hash ?nd k' = Some i" for k' i
    using nok that by (auto simp: node_ok_def q)
  have part: "i \<in> set q \<or> (\<exists>k'. ((hash ?nd)(k \<mapsto> ret)) k' = Some i)" if "i < DSM_CACHE_SIZE" for i
  proof -
    have "i \<in> set (ret # q) \<or> (\<exists>k'. hash ?nd k' = Some i)" using nok that unfolding node_ok_def q by blast
    then show ?thesis using h by (auto intro: exI [of _ k]) (metis option.distinct(1))
  qed
  have hold: "holder ?sys' a b c = holder sys a b c" for a b c by (simp add: holder_def)
  have "node_ok {k} ?nd'"
  proof (rule node_okI)
    fix k' i assume "hash ?nd' k' = Some i"
    then show "i < DSM_CACHE_SIZE \<and> i \<notin> set (block_queue ?nd') \<and> block_ok k'"
      using node_ok_hash(1,2) [OF nok, of k' i] nq(2) [of k' i] dq k by (auto split: if_splits)
  next
    fix k1 k2 i assume "hash ?nd' k1 = Some i" "hash ?nd' k2 = Some i"
    then show "k1 = k2"
      using node_ok_hash(5) [OF nok, of k1 i k2] nq(1) [of k1 i] nq(1) [of k2 i] by (auto split: if_splits)
  next
    fix k' i assume "k' \<notin> {k}" "hash ?nd' k' = Some i"
    then show "cb_key (block_cache ?nd' i) = k' \<and> cb_lru (block_cache ?nd' i) < unat (cache_clock ?nd')"
      using node_ok_hash(3,6) [OF nok, of k' i] by auto
  qed (use nok dq part in \<open>simp_all add: node_ok_readers node_ok_length\<close>)
  then have node: "node_ok {k'. (m, k') \<in> {(n, k)}} (cs_node ?sys' m)" if "m < caches" for m
    using sys_okD(1) [OF ok that] by auto
  show ?thesis
  proof (rule sys_okI)
    fix m k' b assume m: "m < caches" "(m, k') \<notin> {(n, k)}" "hash (cs_node ?sys' m) k' = Some b"
    then have "copy_ok caches mm sys m k' b" by (intro sys_okD(4) [OF ok m(1)]) (auto split: if_splits)
    then show "copy_ok caches mm ?sys' m k' b" unfolding copy_ok_def hold by auto
  qed (use sys_okD [OF ok] node in auto)
qed


text \<open>With an empty free queue every block is in the table, so a victim is found.\<close>

lemma victim_in_table:
  assumes nok: "node_ok {} nd" and q: "block_queue nd = []"
  obtains mini where "find_victim (block_cache nd) 0xffffffff None [0..<DSM_CACHE_SIZE] = Some mini"
    "hash nd (cb_key (block_cache nd mini)) = Some mini"
proof -
  have tab: "\<exists>k. hash nd k = Some i \<and> cb_key (block_cache nd i) = k \<and> cb_lru (block_cache nd i) < 0xffffffff"
    if "i < DSM_CACHE_SIZE" for i
  proof -
    have "\<exists>k. hash nd k = Some i" using node_ok_table [OF nok that] q by simp
    then obtain k where k: "hash nd k = Some i" ..
    then show ?thesis
      using node_ok_hash(3,6) [OF nok k] unat_u32_less [of "cache_clock nd"] by (auto intro!: exI [of _ k])
  qed
  have nb: "cb_key (block_cache nd i) \<noteq> DSM_CACHE_BAD_KEY" if "i < DSM_CACHE_SIZE" for i
    using tab [OF that] node_ok_hash(2) [OF nok] aligned_not_bad by (auto simp: block_ok_def)
  have "find_victim (block_cache nd) 0xffffffff None [0..<DSM_CACHE_SIZE] \<noteq> None"
    using tab [of 0] nb [of 0] by (intro find_victim_exists [of 0]) (auto simp: DSM_CACHE_SIZE_def)
  then obtain mini where m: "find_victim (block_cache nd) 0xffffffff None [0..<DSM_CACHE_SIZE] = Some mini" by auto
  then have "mini < DSM_CACHE_SIZE" using find_victim_spec [OF m] by auto
  then show thesis using that m tab [of mini] by auto
qed

lemma evict_node_ok:
  assumes nok: "node_ok {} nd" and q: "block_queue nd = []" and k: "block_ok k" and h: "hash nd k = None"
    and old: "hash nd oldkey = Some mini"
    and blk: "cb_readers blk = 0" "length (cb_cache blk) = 32"
  shows "node_ok {k} ((upd_block nd mini blk)\<lparr> hash := ((hash nd)(oldkey := None))(k \<mapsto> mini) \<rparr>)"
proof -
  let ?nd' = "(upd_block nd mini blk)\<lparr> hash := ((hash nd)(oldkey := None))(k \<mapsto> mini) \<rparr>"
  have hash: "hash ?nd' k' = Some i \<longleftrightarrow> k' = k \<and> i = mini \<or> k' \<noteq> k \<and> k' \<noteq> oldkey \<and> hash nd k' = Some i" for k' i
    by auto
  have other: "i \<noteq> mini" if "k' \<noteq> oldkey" "hash nd k' = Some i" for k' i
    using node_ok_hash(5) [OF nok that(2), of oldkey] old that by auto
  have queue: "block_queue ?nd' = []" by (simp add: q upd_block_def)
  have bc: "block_cache ?nd' i = (if i = mini then blk else block_cache nd i)" "cache_clock ?nd' = cache_clock nd" for i
    by (simp_all add: upd_block_def)
  show ?thesis
  proof (rule node_okI)
    fix k' i assume "hash ?nd' k' = Some i"
    then show "i < DSM_CACHE_SIZE \<and> i \<notin> set (block_queue ?nd') \<and> block_ok k'"
      using node_ok_hash(1,2) [OF nok, of k' i] node_ok_hash(1) [OF nok old] k unfolding hash queue by auto
  next
    fix k1 k2 i assume "hash ?nd' k1 = Some i" "hash ?nd' k2 = Some i"
    then show "k1 = k2"
      using node_ok_hash(5) [OF nok, of k1 i k2] other [of k1 i] other [of k2 i] unfolding hash by auto
  next
    fix k' i assume "k' \<notin> {k}" "hash ?nd' k' = Some i"
    then show "cb_key (block_cache ?nd' i) = k' \<and> cb_lru (block_cache ?nd' i) < unat (cache_clock ?nd')"
      using node_ok_hash(3,6) [OF nok, of k' i] other [of k' i] unfolding hash bc by auto
  next
    fix i assume "i < DSM_CACHE_SIZE"
    then obtain k' where k': "hash nd k' = Some i" using node_ok_table [OF nok] q by fastforce
    then have "k' \<noteq> k" using h by auto
    then show "i \<in> set (block_queue ?nd') \<or> (\<exists>k. hash ?nd' k = Some i)"
      using k' old unfolding hash queue by (cases "k' = oldkey") auto
  next
    show "cb_readers (block_cache ?nd' i) = 0" "length (cb_cache (block_cache ?nd' i)) = 32" for i
      using nok blk by (simp_all only: bc) (simp_all add: node_ok_readers node_ok_length)
  qed (simp_all add: queue)
qed

lemma WritebackReq_total:
  assumes "home caches addr = h"
  shows "\<exists>sys'. WritebackReq caches sys n addr = Some sys' \<and> cs_backend sys' = cs_backend sys \<and>
    (\<forall>m. hash (cs_node sys' m) = hash (cs_node sys m) \<and> block_cache (cs_node sys' m) = block_cache (cs_node sys m) \<and>
       cache_clock (cs_node sys' m) = cache_clock (cs_node sys m) \<and> (\<forall>X. node_ok X (cs_node sys' m) = node_ok X (cs_node sys m))) \<and>
    (\<forall>h' k m. holder sys h' k m \<longrightarrow> k \<noteq> addr \<or> m \<noteq> n \<longrightarrow> holder sys' h' k m) \<and>
    cs_net sys' = (if h = n then cs_net sys else (cs_net sys)(n := (cs_net sys n)(h := cs_net sys n h @ [MsgWriteback addr])))"
proof (cases "h = n")
  case True
  then have "home caches addr = n" using assms by simp
  then obtain d where d: "ServerWriteback caches sys n addr n = Some (upd_node sys n ((cs_node sys n)\<lparr> directory := d \<rparr>))"
      "\<And>k m. holder sys n k m \<Longrightarrow> k \<noteq> addr \<or> m \<noteq> n \<Longrightarrow> \<exists>w. d k = Some w \<and> bit w m"
    using ServerWriteback_home [of caches addr n sys n] by blast
  have "holder (upd_node sys n ((cs_node sys n)\<lparr> directory := d \<rparr>)) h' k m"
    if "holder sys h' k m" "k \<noteq> addr \<or> m \<noteq> n" for h' k m
    using that d(2) [of k m] by (cases "h' = n") (auto simp: holder_def)
  then show ?thesis using d(1) True assms by (simp add: WritebackReq_def)
next
  case False
  then show ?thesis using assms by (auto simp: WritebackReq_def holder_def send_control_def)
qed

lemma evict_sys_ok:
  assumes ok: "sys_ok caches {} mm sys" and n: "n < caches" and k: "block_ok k"
    and h: "hash (cs_node sys n) k = None" and q: "block_queue (cs_node sys n) = []"
    and old: "hash (cs_node sys n) oldkey = Some mini"
    and blk: "cb_readers blk = 0" "length (cb_cache blk) = 32"
    and nd1: "nd1 = (upd_block (cs_node sys n) mini blk)\<lparr> hash := ((hash (cs_node sys n))(oldkey := None))(k \<mapsto> mini) \<rparr>"
    and wb: "WritebackReq caches (upd_node sys n nd1) n oldkey = Some sys'"
  shows "sys_ok caches {(n, k)} mm sys'"
proof -
  let ?sys1 = "upd_node sys n nd1" and ?h = "home caches oldkey"
  have nok: "node_ok {} (cs_node sys n)" using sys_okD(1) [OF ok n] by simp
  have w: "\<And>m. hash (cs_node sys' m) = hash (cs_node ?sys1 m)" "\<And>m. block_cache (cs_node sys' m) = block_cache (cs_node ?sys1 m)"
      "\<And>m X. node_ok X (cs_node sys' m) = node_ok X (cs_node ?sys1 m)"
      "\<And>h' k m. holder ?sys1 h' k m \<Longrightarrow> k \<noteq> oldkey \<or> m \<noteq> n \<Longrightarrow> holder sys' h' k m"
      "cs_net sys' = (if ?h = n then cs_net sys else (cs_net sys)(n := (cs_net sys n)(?h := cs_net sys n ?h @ [MsgWriteback oldkey])))"
    using WritebackReq_total [OF refl, where sys = ?sys1 and n = n and addr = oldkey and caches = caches] wb by auto
  have hold1: "holder ?sys1 a b c = holder sys a b c" for a b c by (simp add: holder_def nd1 upd_block_def)
  have old_other: "b \<noteq> mini" if "k' \<noteq> oldkey" "hash (cs_node sys n) k' = Some b" for k' b
    using node_ok_hash(5) [OF nok that(2), of oldkey] old that by auto
  show ?thesis
  proof (rule sys_okI)
    fix m assume m: "m < caches"
    have "node_ok {k} nd1" unfolding nd1 by (rule evict_node_ok [OF nok q k h old blk])
    then show "node_ok {k'. (m, k') \<in> {(n, k)}} (cs_node sys' m)"
      using sys_okD(1) [OF ok m] by (auto simp: w(3))
  next
    fix i j msg assume "msg \<in> set (cs_net sys' i j)"
    then show "msg_ok caches i j msg"
      using sys_okD(2) [OF ok, of msg i j] by (auto simp: w(5) split: if_splits)
  next
    show "cs_net sys' i i = []" for i using sys_okD(3) [OF ok] by (auto simp: w(5))
  next
    fix m k' b assume m: "m < caches" "(m, k') \<notin> {(n, k)}" "hash (cs_node sys' m) k' = Some b"
    have hm: "hash (cs_node sys m) k' = Some b" "m = n \<longrightarrow> k' \<noteq> oldkey"
      using m(2,3) unfolding w(1) by (auto simp: nd1 split: if_splits)
    have cp: "copy_ok caches mm sys m k' b" by (rule sys_okD(4) [OF ok m(1) _ hm(1)]) simp
    have c: "cb_cache (block_cache (cs_node sys' m) b) = cb_cache (block_cache (cs_node sys m) b)"
      using hm old_other [of k' b] unfolding w(2) by (auto simp: nd1 upd_block_def)
    have hd: "holder sys' (home caches k') k' m"
      using cp hm(2) by (intro w(4)) (auto simp: hold1 copy_ok_def)
    have p: "pending k' (cs_net sys' i j) x = pending k' (cs_net sys i j) x" for i j x by (simp add: w(5))
    have wbk: "MsgWriteback k' \<notin> set (cs_net sys' m (home caches k'))"
      using cp hm(2) by (auto simp: w(5) copy_ok_def)
    show "copy_ok caches mm sys' m k' b" using cp hd wbk by (simp add: copy_ok_def c p)
  qed
qed

lemma dc_getblock_hit: "hash (cs_node sys n) k = Some i \<Longrightarrow> dc_getblock caches sys n k = Some (sys, i, True)"
  by (simp add: dc_getblock_def)

lemma dc_getblock_miss:
  assumes ok: "sys_ok caches {} mm sys" and n: "n < caches" and k: "block_ok k"
    and h: "hash (cs_node sys n) k = None"
  obtains sys1 i where "dc_getblock caches sys n k = Some (sys1, i, False)" "sys_ok caches {(n, k)} mm sys1"
    "hash (cs_node sys1 n) k = Some i" "cs_backend sys1 = cs_backend sys"
    "cache_clock (cs_node sys1 n) = cache_clock (cs_node sys n)" "quiet caches sys1 n k = quiet caches sys n k"
    "\<forall>a. a \<noteq> n \<longrightarrow> cs_net sys1 a = cs_net sys a"
proof (cases "block_queue (cs_node sys n)")
  case (Cons ret q)
  let ?sys1 = "upd_node sys n ((cs_node sys n)\<lparr> block_queue := q, hash := (hash (cs_node sys n))(k \<mapsto> ret) \<rparr>)"
  have "dc_getblock caches sys n k = Some (?sys1, ret, False)"
    using h Cons sys_okD(1) [OF ok n] by (simp add: dc_getblock_def node_ok_readers Let_def)
  moreover have "sys_ok caches {(n, k)} mm ?sys1" by (rule queue_sys_ok [OF ok n k h Cons])
  ultimately show thesis by (rule that) (simp_all add: quiet_def)
next
  case Nil
  have nok: "node_ok {} (cs_node sys n)" using sys_okD(1) [OF ok n] by simp
  obtain mini where m: "find_victim (block_cache (cs_node sys n)) 0xffffffff None [0..<DSM_CACHE_SIZE] = Some mini"
      "hash (cs_node sys n) (cb_key (block_cache (cs_node sys n) mini)) = Some mini"
    by (rule victim_in_table [OF nok Nil])
  let ?blk = "(block_cache (cs_node sys n) mini)\<lparr> cb_key := DSM_CACHE_BAD_KEY, cb_lru := 0xffffffff \<rparr>"
  let ?old = "cb_key (block_cache (cs_node sys n) mini)"
  let ?nd1 = "(upd_block (cs_node sys n) mini ?blk)\<lparr> hash := ((hash (cs_node sys n))(?old := None))(k \<mapsto> mini) \<rparr>"
  obtain sys' where s': "WritebackReq caches (upd_node sys n ?nd1) n ?old = Some sys'"
      "cs_backend sys' = cs_backend (upd_node sys n ?nd1)"
      "\<And>m. hash (cs_node sys' m) = hash (cs_node (upd_node sys n ?nd1) m)"
      "\<And>m. cache_clock (cs_node sys' m) = cache_clock (cs_node (upd_node sys n ?nd1) m)"
      "cs_net sys' = (if home caches ?old = n then cs_net sys else
         (cs_net sys)(n := (cs_net sys n)(home caches ?old := cs_net sys n (home caches ?old) @ [MsgWriteback ?old])))"
    using WritebackReq_total [OF refl, where sys = "upd_node sys n ?nd1" and n = n and addr = ?old and caches = caches] by auto
  have "dc_getblock caches sys n k = Some (sys', mini, False)"
    using h Nil m s'(1) nok by (simp add: dc_getblock_def node_ok_readers Let_def)
  moreover have "sys_ok caches {(n, k)} mm sys'"
    by (rule evict_sys_ok [OF ok n k h Nil m(2) _ _ refl s'(1)]) (use nok in \<open>simp_all add: node_ok_readers node_ok_length\<close>)
  moreover have "quiet caches sys' n k = quiet caches sys n k" by (auto simp: quiet_def s'(5))
  moreover have "\<forall>a. a \<noteq> n \<longrightarrow> cs_net sys' a = cs_net sys a" by (simp add: s'(5))
  ultimately show thesis using that [of sys' mini] by (simp add: s'(2-4) upd_block_def)
qed

lemma block_ok_MAKE64: "dsm_range f 1 \<Longrightarrow> block_ok (MAKE64 ob f AND DSM_CACHE_HIGH_MASK_64)"
proof -
  assume "dsm_range f 1"
  then have "unat f div 32 * 32 + 32 \<le> 2 ^ 32 - 32"
    by (cases rule: block_split [of "unat f"]) (auto simp: dsm_range_def)
  then show ?thesis by (simp add: block_ok_def MAKE64_high dsm_range_def key_simps) (simp add: flip: MAKE64_high)
qed

text \<open>A block that is up to date again is no longer an exception.\<close>

lemma attach_sys_ok:
  assumes ok: "sys_ok caches {(n, k)} mm sys" and nok: "node_ok {} (cs_node sys n)"
    and cp: "\<And>i. hash (cs_node sys n) k = Some i \<Longrightarrow> copy_ok caches mm sys n k i"
  shows "sys_ok caches {} mm sys"
proof (rule sys_okI)
  fix m assume "m < caches"
  then show "node_ok {k'. (m, k') \<in> {}} (cs_node sys m)" using sys_okD(1) [OF ok, of m] nok by (cases "m = n") auto
next
  fix m k' b assume m: "m < caches" "(m, k') \<notin> {}" "hash (cs_node sys m) k' = Some b"
  then show "copy_ok caches mm sys m k' b" using cp sys_okD(4) [OF ok m(1), of k' b] by (cases "(m, k') = (n, k)") auto
qed (use sys_okD [OF ok] in auto)

lemma home_less: "0 < caches \<Longrightarrow> home caches k < caches"
  by (simp add: home_def)

section \<open>The cache over a backend\<close>

definition coherent :: "('s \<Rightarrow> bool) \<Rightarrow> ('s \<Rightarrow> dsm) \<Rightarrow> nat \<Rightarrow> 's CacheSys \<Rightarrow> bool" where
  "coherent ok mem caches sys \<longleftrightarrow> ok (cs_backend sys) \<and> sys_ok caches {} (mem (cs_backend sys)) sys"

text \<open>
  What a write stores: a miss at the home node itself stores only the first word.
\<close>

definition stored_words :: "nat \<Rightarrow> 's CacheSys \<Rightarrow> nat \<Rightarrow> u64 \<Rightarrow> u32 list \<Rightarrow> u32 list" where
  "stored_words caches sys n k v = (if hash (cs_node sys n) k = None \<and> home caches k = n then take 1 v else v)"

text \<open>What a call of node \<open>n\<close> leaves alone: the messages on their way to it; its clock ticks once.\<close>

definition call_frame :: "nat \<Rightarrow> 's CacheSys \<Rightarrow> 's CacheSys \<Rightarrow> bool" where
  "call_frame n sys sys' \<longleftrightarrow> (\<forall>a. a \<noteq> n \<longrightarrow> cs_net sys' a n = cs_net sys a n) \<and>
     unat (cache_clock (cs_node sys' n)) = Suc (unat (cache_clock (cs_node sys n)))"

lemma clock_tick: "unat (c :: u32) < 0xffffffff \<Longrightarrow> unat (c + 1) = Suc (unat c)"
  using unat_add_of_nat [of c 1] by simp

locale directory_cache = dsm_storage S ok mem info
  for S :: "'s SoStorage" and ok mem info +
  fixes caches :: nat
  assumes caches: "0 < caches" "caches \<le> 64"
begin

lemma fetch_block_spec:
  assumes "ok (cs_backend sys)" "block_ok k"
  shows "fetch_block S sys k = Some (blk_mem (mem (cs_backend sys)) k)"
proof -
  have "k AND DSM_CACHE_HIGH_MASK_64 = k" using assms(2) by (simp add: block_ok_def aligned_def)
  then have "MAKE64 (addr_object k) (addr_field k AND DSM_CACHE_HIGH_MASK) = MAKE64 (addr_object k) (addr_field k)"
    by (metis MAKE64_addr MAKE64_high)
  then have "unat (addr_field k AND DSM_CACHE_HIGH_MASK) = unat (addr_field k)" unfolding MAKE64_inject by simp
  then have "unat (addr_field k) mod 32 = 0" unfolding unat_and_high by (metis mod_mult_self2_is_0)
  then show ?thesis
    using getblock [of "cs_backend sys" "addr_field k" "replicate 32 0" "addr_object k"] assms
    by (simp add: fetch_block_def blk_mem_def block_ok_def)
qed

lemma putchunk_words:
  assumes "ok s" "dsm_range f 1" "unat f mod 32 + length v \<le> 32"
  obtains s' where "so_putchunk32 S s ob f (of_nat (length v)) v = (s', SoOK)" "ok s'"
    "mem s' = dsm_write (mem s) ob f v" "info s' = info s"
proof -
  have len: "unat (of_nat (length v) :: u32) = length v" using assms(3) by (simp add: unat_of_nat_small)
  obtain q r where qr: "unat f = 32 * q + r" "unat f mod 32 = r" by (rule block_split [of "unat f"])
  then have "q < 134217727" using assms(2) by (simp add: dsm_range_def)
  then have "dsm_range f (length v)" using assms(3) qr by (simp add: dsm_range_def)
  then show thesis using putchunk32 [of s f "of_nat (length v)" v ob] assms(1) that by (auto simp: len)
qed

text \<open>
  A request of node \<open>n\<close> to the home node of \<open>k\<close>, after earlier messages were handled there: the
  state \<open>sys1\<close> in which the home node runs its handler.
\<close>

lemma reach_home:
  assumes ok: "sys_ok caches E mm sys" and n: "n < caches"
  obtains sys1 where "(if home caches k = n then Some sys else drain Win32 caches n (home caches k) sys) = Some sys1"
    "sys_ok caches E mm sys1" "cs_backend sys1 = cs_backend sys" "cs_node sys1 n = cs_node sys n"
    "cs_net sys1 n (home caches k) = []" "cs_net sys1 (home caches k) n = cs_net sys (home caches k) n"
    "\<forall>a. a \<noteq> n \<longrightarrow> cs_net sys1 a = cs_net sys a"
    "MsgWriteback k \<notin> set (cs_net sys n (home caches k)) \<Longrightarrow> holder sys (home caches k) k n \<Longrightarrow> holder sys1 (home caches k) k n"
proof (cases "home caches k = n")
  case True
  then show thesis using that [of sys] ok sys_okD(3) [OF ok, of n] by simp
next
  case False
  then have ne: "n \<noteq> home caches k" by simp
  show thesis
  proof (rule drain_sys_ok [OF ok home_less [OF caches(1)] ne])
    fix sys' assume a: "drain Win32 caches n (home caches k) sys = Some sys'" "sys_ok caches E mm sys'"
      "cs_backend sys' = cs_backend sys" "cs_net sys' = (cs_net sys)(n := (cs_net sys n)(home caches k := []))"
      "cs_node sys' n = cs_node sys n"
      "\<And>k'. MsgWriteback k' \<notin> set (cs_net sys n (home caches k)) \<Longrightarrow> holder sys (home caches k) k' n \<Longrightarrow> holder sys' (home caches k) k' n"
    show thesis using False ne a(1-5) a(6) [of k] by (intro that [of sys']) simp_all
  qed
qed

lemma ServerWrite_spec:
  assumes ok: "ok (cs_backend sys)" "sys_ok caches {(n, k)} (mem (cs_backend sys)) sys"
    and f: "dsm_range f 1" "unat f mod 32 + length v \<le> 32"
    and addr: "addr = MAKE64 ob f" "k = addr AND DSM_CACHE_HIGH_MASK_64" and h: "home caches k = h"
  obtains sys' where "ServerWrite S Win32 caches sys h addr n v = Some sys'"
    "ok (cs_backend sys')" "mem (cs_backend sys') = dsm_write (mem (cs_backend sys)) ob f v"
    "info (cs_backend sys') = info (cs_backend sys)"
    "sys_ok caches {(n, k)} (mem (cs_backend sys')) sys'" "cs_node sys' n = cs_node sys n"
    "\<forall>a. cs_net sys' a n = cs_net sys a n" "n \<noteq> h \<Longrightarrow> cs_net sys' n h = cs_net sys n h"
    "holder sys' h k n = holder sys h k n"
proof -
  obtain s' where s': "so_putchunk32 S (cs_backend sys) ob f (of_nat (length v)) v = (s', SoOK)" "ok s'"
      "mem s' = dsm_write (mem (cs_backend sys)) ob f v" "info s' = info (cs_backend sys)"
    by (rule putchunk_words [OF ok(1) f])
  let ?old = "case directory (cs_node sys h) k of None \<Rightarrow> 0 | Some d \<Rightarrow> d"
  let ?sys1 = "sys\<lparr> cs_backend := s' \<rparr>"
  let ?sys' = "send_renews Win32 h n addr v ?old [0..<caches] ?sys1"
  have ha: "home caches addr = h" using h addr(2) by simp
  have sok: "sys_ok caches {(n, k)} (mem (cs_backend sys)) ?sys1"
    using ok(2) by (simp add: sys_ok_def copy_ok_def holder_def)
  have old: "bit ?old j" if "j \<noteq> n" "holder ?sys1 h k j" for j
    using that by (auto simp: holder_def)
  have "sys_ok caches {(n, k)} (dsm_write (mem (cs_backend sys)) ob f v) ?sys'"
    using home_write_sys_ok [where src = n, OF sok ha addr(1) f(2) addr(2) old] by simp
  moreover have "ServerWrite S Win32 caches sys h addr n v = Some ?sys'"
    using ha s'(1) addr by (simp add: ServerWrite_def Let_def)
  moreover have "holder ?sys' h k n = holder sys h k n"
    unfolding send_renews_frame by (simp add: holder_def)
  moreover have "cs_net ?sys' a n = cs_net sys a n" for a by (cases "a = h") (simp_all add: send_renews_frame)
  ultimately show thesis
    using that [of ?sys'] s' by (simp add: send_renews_frame)
qed

lemma ServerWriteMiss_spec:
  assumes ok: "ok (cs_backend sys)" "sys_ok caches {(n, k)} (mem (cs_backend sys)) sys" and n: "n < caches"
    and f: "dsm_range f 1" "unat f mod 32 + length v \<le> 32"
    and addr: "addr = MAKE64 ob f" "k = addr AND DSM_CACHE_HIGH_MASK_64" and h: "home caches k = h"
  obtains sys' where "ServerWriteMiss S Win32 caches sys h addr n v = Some (sys', Some (blk_mem (mem (cs_backend sys')) k))"
    "ok (cs_backend sys')" "mem (cs_backend sys') = dsm_write (mem (cs_backend sys)) ob f v"
    "info (cs_backend sys') = info (cs_backend sys)"
    "sys_ok caches {(n, k)} (mem (cs_backend sys')) sys'" "hash (cs_node sys' n) = hash (cs_node sys n)"
    "cache_clock (cs_node sys' n) = cache_clock (cs_node sys n)"
    "\<forall>a. cs_net sys' a n = cs_net sys a n" "n \<noteq> h \<Longrightarrow> cs_net sys' n h = cs_net sys n h"
    "holder sys' h k n"
proof -
  obtain s' where s': "so_putchunk32 S (cs_backend sys) ob f (of_nat (length v)) v = (s', SoOK)" "ok s'"
      "mem s' = dsm_write (mem (cs_backend sys)) ob f v" "info s' = info (cs_backend sys)"
    by (rule putchunk_words [OF ok(1) f])
  let ?old = "case directory (cs_node sys h) k of None \<Rightarrow> 0 | Some d \<Rightarrow> d"
  let ?sys1 = "sys\<lparr> cs_backend := s' \<rparr>"
  let ?sys2 = "set_holder ?sys1 h k n"
  let ?sys' = "send_renews Win32 h n addr v ?old [0..<caches] ?sys2"
  have ha: "home caches addr = h" using h addr(2) by simp
  have n64: "n < 64" using n caches(2) by simp
  have sok: "sys_ok caches {(n, k)} (mem (cs_backend sys)) ?sys1"
    using ok(2) by (simp add: sys_ok_def copy_ok_def holder_def)
  note sh = set_holder_sys_ok [OF sok n64, of h k]
  have old: "bit ?old j" if "j \<noteq> n" "holder ?sys2 h k j" for j
    using that by (auto simp: holder_def set_holder_def Let_def bit_or_exp split: option.splits)
  have bk: "cs_backend ?sys' = s'" by (simp add: send_renews_frame sh)
  have "sys_ok caches {(n, k)} (dsm_write (mem (cs_backend sys)) ob f v) ?sys'"
    using home_write_sys_ok [where src = n, OF sh(1) ha addr(1) f(2) addr(2) old] by simp
  moreover have "ServerWriteMiss S Win32 caches sys h addr n v = Some (?sys', Some (blk_mem (mem s') k))"
    using ha s' addr fetch_block_spec [of ?sys' k] block_ok_MAKE64 [OF f(1), of ob] bk
    by (simp add: ServerWriteMiss_def Let_def)
  moreover have "holder ?sys' h k n" unfolding send_renews_frame by (rule sh(2))
  moreover have "cs_net ?sys' a n = cs_net sys a n" for a using sh(3) by (cases "a = h") (simp_all add: send_renews_frame)
  moreover have "n \<noteq> h \<Longrightarrow> cs_net ?sys' n h = cs_net sys n h"
      "hash (cs_node ?sys' n) = hash (cs_node sys n)" "cache_clock (cs_node ?sys' n) = cache_clock (cs_node sys n)"
    using sh(3,6,7) by (simp_all add: send_renews_frame)
  ultimately show thesis
    using that [of ?sys'] s' bk by simp
qed

text \<open>The end of a miss: the block is stored and stamped.\<close>

lemma finish_miss:
  assumes ok: "ok (cs_backend sys)" "sys_ok caches {(n, k)} (mem (cs_backend sys)) sys" and n: "n < caches"
    and h: "hash (cs_node sys n) k = Some i" "holder sys (home caches k) k n"
    and net: "cs_net sys n (home caches k) = []" "quiet caches sys n k"
    and clk: "unat (cache_clock (cs_node sys n)) < 0xffffffff"
  shows "coherent ok mem caches
    (upd_node sys n (touch (store_block (cs_node sys n) i k (blk_mem (mem (cs_backend sys)) k)) i))"
proof -
  have "sys_ok caches {} (mem (cs_backend sys))
    (upd_node sys n (touch (store_block (cs_node sys n) i k (blk_mem (mem (cs_backend sys)) k)) i))"
    by (rule settle_sys_ok [OF ok(2) n h _ net(2) clk]) (simp_all add: net touch_def store_block_def upd_block_def)
  then show ?thesis using ok(1) by (simp add: coherent_def)
qed

lemma hit_words:
  assumes "coherent ok mem caches sys" "n < caches" "hash (cs_node sys n) k = Some i" "quiet caches sys n k"
  shows "cb_cache (block_cache (cs_node sys n) i) = blk_mem (mem (cs_backend sys)) k"
    "cb_key (block_cache (cs_node sys n) i) = k" "copy_ok caches (mem (cs_backend sys)) sys n k i"
    "node_ok {} (cs_node sys n)"
proof -
  have ok: "sys_ok caches {} (mem (cs_backend sys)) sys" using assms(1) by (simp add: coherent_def)
  show nok: "node_ok {} (cs_node sys n)" using sys_okD(1) [OF ok assms(2)] by simp
  show "copy_ok caches (mem (cs_backend sys)) sys n k i" using sys_okD(4) [OF ok assms(2) _ assms(3)] by simp
  then show "cb_cache (block_cache (cs_node sys n) i) = blk_mem (mem (cs_backend sys)) k"
    using pending_quiet [OF assms(4)] by (simp add: copy_ok_def)
  show "cb_key (block_cache (cs_node sys n) i) = k" using node_ok_hash(3) [OF nok assms(3)] by simp
qed

lemma detach_sys_ok:
  assumes ok: "sys_ok caches {} mm sys" and n: "n < caches" and h: "hash (cs_node sys n) k = Some i"
    and blk: "cb_readers blk = 0" "length (cb_cache blk) = 32" "cb_key blk = k" "cb_lru blk = unat (cache_clock (cs_node sys n))"
    and clk: "unat (cache_clock (cs_node sys n)) < 0xffffffff"
    and nd: "nd = (upd_block (cs_node sys n) i blk)\<lparr> cache_clock := cache_clock (cs_node sys n) + 1 \<rparr>"
  shows "sys_ok caches {(n, k)} mm (upd_node sys n nd)" "node_ok {} nd"
proof -
  have nok: "node_ok {} (cs_node sys n)" using sys_okD(1) [OF ok n] by simp
  have tick: "unat (cache_clock (cs_node sys n) + 1) = unat (cache_clock (cs_node sys n)) + 1"
    using clk unat_add_of_nat [of "cache_clock (cs_node sys n)" 1] by simp
  show nok': "node_ok {} nd" unfolding nd by (rule node_ok_block [OF nok h blk(1-3)]) (simp_all add: tick blk)
  let ?sys' = "upd_node sys n nd"
  have hold: "holder ?sys' a b c = holder sys a b c" for a b c by (simp add: holder_def nd upd_block_def)
  show "sys_ok caches {(n, k)} mm ?sys'"
  proof (rule sys_okI)
    fix m assume "m < caches"
    then have "node_ok {} (cs_node ?sys' m)" using sys_okD(1) [OF ok, of m] nok' by simp
    then show "node_ok {k'. (m, k') \<in> {(n, k)}} (cs_node ?sys' m)" by (rule node_ok_mono) simp
  next
    fix m k' b assume m: "m < caches" "(m, k') \<notin> {(n, k)}" "hash (cs_node ?sys' m) k' = Some b"
    then have hm: "hash (cs_node sys m) k' = Some b" by (auto simp: nd upd_block_def split: if_splits)
    have "m = n \<Longrightarrow> b \<noteq> i" using node_ok_hash(5) [OF nok, of k' b k] hm h m(2) by auto
    then have c: "cb_cache (block_cache (cs_node ?sys' m) b) = cb_cache (block_cache (cs_node sys m) b)"
      by (auto simp: nd upd_block_def)
    have "copy_ok caches mm sys m k' b" by (rule sys_okD(4) [OF ok m(1) _ hm]) simp
    then show "copy_ok caches mm ?sys' m k' b" unfolding copy_ok_def hold c by simp
  qed (use sys_okD [OF ok] in auto)
qed

lemma doget_spec:
  assumes co: "coherent ok mem caches sys" and n: "n < caches" and f: "dsm_range f 1"
    and k: "k = MAKE64 ob f AND DSM_CACHE_HIGH_MASK_64" and q: "quiet caches sys n k"
    and clk: "unat (cache_clock (cs_node sys n)) < 0xffffffff"
  obtains sys' where "doget S Win32 caches sys n (MAKE64 ob f) = Some (sys', blk_mem (mem (cs_backend sys)) k)"
    "coherent ok mem caches sys'" "cs_backend sys' = cs_backend sys" "call_frame n sys sys'"
proof (cases "hash (cs_node sys n) k")
  case (Some i)
  let ?sys' = "upd_node sys n (touch (cs_node sys n) i)"
  let ?blk = "(block_cache (cs_node sys n) i)\<lparr> cb_lru := unat (cache_clock (cs_node sys n)) \<rparr>"
  note hit = hit_words [OF co n Some q]
  have ok: "sys_ok caches {} (mem (cs_backend sys)) sys" using co by (simp add: coherent_def)
  have d: "sys_ok caches {(n, k)} (mem (cs_backend sys)) ?sys'" "node_ok {} (touch (cs_node sys n) i)"
    by (rule detach_sys_ok [OF ok n Some, where blk = ?blk]; use hit clk in \<open>simp add: node_ok_readers node_ok_length touch_def\<close>)+
  have "copy_ok caches (mem (cs_backend sys)) ?sys' n k i"
    using hit(3) by (auto simp: copy_ok_def holder_def touch_def upd_block_def)
  then have "sys_ok caches {} (mem (cs_backend sys)) ?sys'"
    using Some d(2) by (intro attach_sys_ok [OF d(1)]) (auto simp: touch_def upd_block_def)
  then have "coherent ok mem caches ?sys'" using co by (simp add: coherent_def)
  then show thesis
    using Some hit clk
    by (intro that [of ?sys']) (simp_all add: doget_def dc_getblock_hit call_frame_def touch_def clock_tick flip: k)
next
  case None
  have bk: "block_ok k" unfolding k by (rule block_ok_MAKE64 [OF f])
  have ok: "ok (cs_backend sys)" "sys_ok caches {} (mem (cs_backend sys)) sys" using co by (simp_all add: coherent_def)
  obtain sys1 i where g: "dc_getblock caches sys n k = Some (sys1, i, False)" "sys_ok caches {(n, k)} (mem (cs_backend sys)) sys1"
      "hash (cs_node sys1 n) k = Some i" "cs_backend sys1 = cs_backend sys"
      "cache_clock (cs_node sys1 n) = cache_clock (cs_node sys n)" "quiet caches sys1 n k = quiet caches sys n k"
      "\<forall>a. a \<noteq> n \<longrightarrow> cs_net sys1 a = cs_net sys a"
    by (rule dc_getblock_miss [OF ok(2) n bk None])
  obtain sys2 where r: "(if home caches k = n then Some sys1 else drain Win32 caches n (home caches k) sys1) = Some sys2"
    "sys_ok caches {(n, k)} (mem (cs_backend sys)) sys2" "cs_backend sys2 = cs_backend sys1" "cs_node sys2 n = cs_node sys1 n"
    "cs_net sys2 n (home caches k) = []" "cs_net sys2 (home caches k) n = cs_net sys1 (home caches k) n"
    "\<forall>a. a \<noteq> n \<longrightarrow> cs_net sys2 a = cs_net sys1 a"
    by (rule reach_home [OF g(2) n, of k])
  let ?sys3 = "set_holder sys2 (home caches k) k n"
  let ?buf = "blk_mem (mem (cs_backend sys)) k"
  have "n < 64" using n caches(2) by simp
  note sh = set_holder_sys_ok [OF r(2) this, of "home caches k" k]
  have fb: "fetch_block S ?sys3 k = Some ?buf" using fetch_block_spec [of ?sys3 k] ok(1) bk sh(4) r(3) g(4) by simp
  have kk: "home caches k = n \<longrightarrow> sys2 = sys1" using r(1) by auto
  have miss: "ReadMiss S Win32 caches sys1 n k = Some (?sys3, Some ?buf)"
    using r(1) fb by (auto simp: ReadMiss_def ServerReadMiss_def Let_def split: if_splits)
  let ?sys' = "upd_node ?sys3 n (touch (store_block (cs_node ?sys3 n) i k ?buf) i)"
  have "coherent ok mem caches ?sys'"
    using finish_miss [of ?sys3 n k i] sh ok(1) n g r clk q by (simp add: quiet_def)
  moreover have "doget S Win32 caches sys n (MAKE64 ob f) = Some (?sys', ?buf)"
    using g(1) miss by (simp add: doget_def flip: k)
  moreover have "call_frame n sys ?sys'"
    using sh(3,7) r(4,7) g(5,7) clk by (simp add: call_frame_def touch_def store_block_def upd_block_def clock_tick)
  ultimately show thesis using that sh(4) r(3) g(4) by simp
qed

lemma put_hit_spec:
  assumes co: "coherent ok mem caches sys" and n: "n < caches" and f: "dsm_range f 1" "unat f mod 32 + length v \<le> 32"
    and k: "k = MAKE64 ob f AND DSM_CACHE_HIGH_MASK_64" and q: "quiet caches sys n k"
    and clk: "unat (cache_clock (cs_node sys n)) < 0xffffffff" and h: "hash (cs_node sys n) k = Some i"
  obtains sys' where "put_hit S Win32 caches sys n i (MAKE64 ob f) v = Some (sys', SoOK)"
    "coherent ok mem caches sys'" "mem (cs_backend sys') = dsm_write (mem (cs_backend sys)) ob f v"
    "info (cs_backend sys') = info (cs_backend sys)" "call_frame n sys sys'"
proof -
  let ?addr = "MAKE64 ob f" and ?mm = "mem (cs_backend sys)"
  note hit = hit_words [OF co n h q]
  have ok: "ok (cs_backend sys)" "sys_ok caches {} ?mm sys" using co by (simp_all add: coherent_def)
  have low: "unat (?addr AND DSM_CACHE_LOW_MASK_64) = unat f mod 32" by (simp add: MAKE64_low)
  have bk: "block_ok k" by (rule node_ok_hash(2) [OF hit(4) h])
  have bm: "blk_mem (dsm_write ?mm ob f v) k = overwrite (blk_mem ?mm k) (unat f mod 32) v"
    using blk_mem_write [OF bk f(2)] k by simp
  let ?blk = "(block_cache (cs_node sys n) i)\<lparr> cb_lru := unat (cache_clock (cs_node sys n)),
      cb_cache := overwrite (blk_mem ?mm k) (unat f mod 32) v \<rparr>"
  let ?nd = "(upd_block (cs_node sys n) i ?blk)\<lparr> cache_clock := cache_clock (cs_node sys n) + 1 \<rparr>"
  let ?sys1 = "upd_node sys n ?nd"
  have d: "sys_ok caches {(n, k)} ?mm ?sys1" "node_ok {} ?nd"
    by (rule detach_sys_ok [OF ok(2) n h _ _ _ _ clk refl]; use hit f(2) in \<open>simp add: node_ok_readers\<close>)+
  have hold1: "holder ?sys1 (home caches k) k n" "MsgWriteback k \<notin> set (cs_net ?sys1 n (home caches k))"
    using hit(3) by (auto simp: copy_ok_def holder_def upd_block_def)
  obtain sys2 where r: "(if home caches k = n then Some ?sys1 else drain Win32 caches n (home caches k) ?sys1) = Some sys2"
    "sys_ok caches {(n, k)} ?mm sys2" "cs_backend sys2 = cs_backend ?sys1" "cs_node sys2 n = cs_node ?sys1 n"
    "cs_net sys2 n (home caches k) = []" "cs_net sys2 (home caches k) n = cs_net ?sys1 (home caches k) n"
    "\<forall>a. a \<noteq> n \<longrightarrow> cs_net sys2 a = cs_net ?sys1 a"
    "holder sys2 (home caches k) k n"
    using hold1 by (auto intro: reach_home [OF d(1) n, of k])
  obtain sys3 where w: "ServerWrite S Win32 caches sys2 (home caches k) ?addr n v = Some sys3"
    "ok (cs_backend sys3)" "mem (cs_backend sys3) = dsm_write ?mm ob f v"
    "info (cs_backend sys3) = info (cs_backend sys)"
    "sys_ok caches {(n, k)} (mem (cs_backend sys3)) sys3" "cs_node sys3 n = cs_node sys2 n"
    "\<forall>a. cs_net sys3 a n = cs_net sys2 a n"
    "n \<noteq> home caches k \<Longrightarrow> cs_net sys3 n (home caches k) = cs_net sys2 n (home caches k)"
    "holder sys3 (home caches k) k n = holder sys2 (home caches k) k n"
    by (rule ServerWrite_spec [of sys2 n k f v ?addr ob, OF _ _ f refl k refl]) (use r ok in simp_all)
  have nd3: "cs_node sys3 n = ?nd" using w(6) r(4) by simp
  have net3: "cs_net sys3 n (home caches k) = []"
    using r(5) w(8) sys_okD(3) [OF w(5), of n] by (cases "n = home caches k") simp_all
  have q3: "quiet caches sys3 n k" using q w(7) r(6) by (simp add: quiet_def)
  have "copy_ok caches (mem (cs_backend sys3)) sys3 n k i"
    using r(8) w(9) net3 pending_quiet [OF q3] by (simp add: copy_ok_def nd3 w(3) bm upd_block_def)
  then have "sys_ok caches {} (mem (cs_backend sys3)) sys3"
    using h d(2) by (intro attach_sys_ok [OF w(5)]) (auto simp: nd3 upd_block_def)
  then have "coherent ok mem caches sys3" using w(2) by (simp add: coherent_def)
  moreover have "WriteReq S Win32 caches ?sys1 n ?addr v = Some sys3"
    using r(1) w(1) home_high [of caches ?addr] unfolding k by (auto simp: WriteReq_def Let_def split: if_splits)
  moreover have "upd_block (touch (cs_node sys n) i) i ((block_cache (touch (cs_node sys n) i) i)
      \<lparr> cb_cache := overwrite (cb_cache (block_cache (touch (cs_node sys n) i) i)) (unat f mod 32) v \<rparr>) = ?nd"
    using hit(1) by (cases "cs_node sys n") (simp add: touch_def upd_block_def)
  ultimately have "put_hit S Win32 caches sys n i ?addr v = Some (sys3, SoOK)" "coherent ok mem caches sys3"
    using low by (simp_all add: put_hit_def Let_def)
  moreover have "call_frame n sys sys3"
    using w(7) r(7) clk by (simp add: call_frame_def nd3 clock_tick)
  ultimately show thesis using that w(3,4) by blast
qed

lemma doput_spec:
  assumes co: "coherent ok mem caches sys" and n: "n < caches" and f: "dsm_range f 1" "unat f mod 32 + length v \<le> 32"
    and k: "k = MAKE64 ob f AND DSM_CACHE_HIGH_MASK_64" and q: "quiet caches sys n k"
    and clk: "unat (cache_clock (cs_node sys n)) < 0xffffffff"
  obtains sys' where "doput S Win32 caches sys n (MAKE64 ob f) v = Some (sys', SoOK)"
    "coherent ok mem caches sys'" "mem (cs_backend sys') = dsm_write (mem (cs_backend sys)) ob f (stored_words caches sys n k v)"
    "info (cs_backend sys') = info (cs_backend sys)" "call_frame n sys sys'"
proof (cases "hash (cs_node sys n) k")
  case (Some i)
  obtain sys' where "put_hit S Win32 caches sys n i (MAKE64 ob f) v = Some (sys', SoOK)"
    "coherent ok mem caches sys'" "mem (cs_backend sys') = dsm_write (mem (cs_backend sys)) ob f v"
    "info (cs_backend sys') = info (cs_backend sys)" "call_frame n sys sys'"
    by (rule put_hit_spec [OF co n f k q clk Some])
  then show thesis
    using Some hit_words(2) [OF co n Some q]
    by (intro that [of sys']) (simp_all add: doput_def dc_getblock_hit stored_words_def flip: k)
next
  case None
  let ?addr = "MAKE64 ob f" and ?v = "stored_words caches sys n k v"
  have bk: "block_ok k" unfolding k by (rule block_ok_MAKE64 [OF f(1)])
  have ok: "ok (cs_backend sys)" "sys_ok caches {} (mem (cs_backend sys)) sys" using co by (simp_all add: coherent_def)
  have v: "unat f mod 32 + length ?v \<le> 32" using f(2) by (auto simp: stored_words_def)
  obtain sys1 i where g: "dc_getblock caches sys n k = Some (sys1, i, False)" "sys_ok caches {(n, k)} (mem (cs_backend sys)) sys1"
      "hash (cs_node sys1 n) k = Some i" "cs_backend sys1 = cs_backend sys"
      "cache_clock (cs_node sys1 n) = cache_clock (cs_node sys n)" "quiet caches sys1 n k = quiet caches sys n k"
      "\<forall>a. a \<noteq> n \<longrightarrow> cs_net sys1 a = cs_net sys a"
    by (rule dc_getblock_miss [OF ok(2) n bk None])
  obtain sys2 where r: "(if home caches k = n then Some sys1 else drain Win32 caches n (home caches k) sys1) = Some sys2"
    "sys_ok caches {(n, k)} (mem (cs_backend sys)) sys2" "cs_backend sys2 = cs_backend sys1" "cs_node sys2 n = cs_node sys1 n"
    "cs_net sys2 n (home caches k) = []" "cs_net sys2 (home caches k) n = cs_net sys1 (home caches k) n"
    "\<forall>a. a \<noteq> n \<longrightarrow> cs_net sys2 a = cs_net sys1 a"
    by (rule reach_home [OF g(2) n, of k])
  obtain sys3 where w: "ServerWriteMiss S Win32 caches sys2 (home caches k) ?addr n ?v = Some (sys3, Some (blk_mem (mem (cs_backend sys3)) k))"
    "ok (cs_backend sys3)" "mem (cs_backend sys3) = dsm_write (mem (cs_backend sys)) ob f ?v"
    "info (cs_backend sys3) = info (cs_backend sys)"
    "sys_ok caches {(n, k)} (mem (cs_backend sys3)) sys3" "hash (cs_node sys3 n) = hash (cs_node sys2 n)"
    "cache_clock (cs_node sys3 n) = cache_clock (cs_node sys2 n)"
    "\<forall>a. cs_net sys3 a n = cs_net sys2 a n"
    "n \<noteq> home caches k \<Longrightarrow> cs_net sys3 n (home caches k) = cs_net sys2 n (home caches k)"
    "holder sys3 (home caches k) k n"
    by (rule ServerWriteMiss_spec [of sys2 n k f ?v ?addr ob, OF _ _ n f(1) v refl k refl]) (use r g ok in simp_all)
  have net3: "cs_net sys3 n (home caches k) = []"
    using r(5) w(9) sys_okD(3) [OF w(5), of n] by (cases "n = home caches k") simp_all
  have miss: "WriteMiss S Win32 caches sys1 n ?addr v = Some (sys3, Some (blk_mem (mem (cs_backend sys3)) k))"
    using r(1) w(1) None home_high [of caches ?addr] unfolding stored_words_def k
    by (auto simp: WriteMiss_def Let_def split: if_splits)
  let ?sys' = "upd_node sys3 n (touch (store_block (cs_node sys3 n) i k (blk_mem (mem (cs_backend sys3)) k)) i)"
  have "coherent ok mem caches ?sys'"
    using finish_miss [OF w(2,5) n _ w(10) net3, of i] w r g clk q by (simp add: quiet_def)
  moreover have "doput S Win32 caches sys n ?addr v = Some (?sys', SoOK)"
    using g(1) miss by (simp add: doput_def flip: k)
  moreover have "call_frame n sys ?sys'"
    using w(7,8) r(4,7) g(5,7) clk by (simp add: call_frame_def touch_def store_block_def upd_block_def clock_tick)
  ultimately show thesis using that [of ?sys'] w(3,4) by simp
qed
end

end
