(* ===== verification/Dogee_CacheRuns.thy ===== *)
theory Dogee_CacheRuns
  imports Dogee_CacheCoherence
begin

text \<open>
  Chunks and runs: the pieces of a chunk are read and written block by block, and every sequence of
  covered calls and deliveries returns what the abstract memory returns.
\<close>

unbundle bit_operations_syntax

section \<open>Chunks\<close>

lemma blk_mem_take:
  assumes f: "dsm_range f 1" "unat f mod 32 + len \<le> 32"
  shows "take len (drop (unat f mod 32) (blk_mem mm (MAKE64 ob f AND DSM_CACHE_HIGH_MASK_64))) = dsm_read mm ob f len"
proof (rule nth_equalityI)
  obtain q r where qr: "unat f = 32 * q + r" "r < 32" "unat f div 32 = q" "unat f mod 32 = r" by (rule block_split)
  let ?b = "f AND DSM_CACHE_HIGH_MASK"
  have b: "unat ?b = 32 * q" using qr by (simp add: unat_and_high)
  fix i assume "i < length (take len (drop (unat f mod 32) (blk_mem mm (MAKE64 ob f AND DSM_CACHE_HIGH_MASK_64))))"
  then have i: "i < len" by simp
  have "unat (?b + of_nat (r + i)) = unat (f + of_nat i)"
    using b qr f i unat_add_of_nat [of ?b "r + i"] unat_add_of_nat [of f i] by (simp add: dsm_range_def del: of_nat_add)
  then have "?b + of_nat (r + i) = f + of_nat i" by (simp only: word_unat_eq_iff)
  then show "take len (drop (unat f mod 32) (blk_mem mm (MAKE64 ob f AND DSM_CACHE_HIGH_MASK_64))) ! i = dsm_read mm ob f len ! i"
    using i f(2) qr(4) by (simp add: blk_mem_def dsm_read_def MAKE64_high del: of_nat_add)
qed (use f in simp)

lemma coherent_net: "coherent ok mem caches sys \<Longrightarrow> cs_net sys n n = []"
  by (simp add: coherent_def sys_ok_def)

lemma quiet_call:
  assumes "coherent ok mem caches sys'" "call_frame n sys sys'" "quiet caches sys n k"
  shows "quiet caches sys' n k"
  using assms coherent_net [OF assms(1), of n] by (cases "home caches k = n") (auto simp: quiet_def call_frame_def)

text \<open>What a call of node \<open>n\<close> for the pieces \<open>ps\<close> relies on.\<close>

definition pieces_ok :: "nat \<Rightarrow> 's CacheSys \<Rightarrow> nat \<Rightarrow> (u64 \<times> nat) list \<Rightarrow> bool" where
  "pieces_ok caches sys n ps \<longleftrightarrow>
     list_all (\<lambda>(k, len). quiet caches sys n (k AND DSM_CACHE_HIGH_MASK_64)) ps \<and>
     unat (cache_clock (cs_node sys n)) + length ps \<le> 0xffffffff"

lemma pieces_ok_call:
  assumes "coherent ok mem caches sys'" "call_frame n sys sys'" "pieces_ok caches sys n (p # ps)"
  shows "pieces_ok caches sys' n ps"
  using assms(3) quiet_call [OF assms(1,2)] assms(2)
  by (auto simp: pieces_ok_def list_all_iff call_frame_def)

lemma pieces_cover_le: "pieces_cover ob p ps e \<Longrightarrow> p \<le> e"
  by (induction ob p ps e rule: pieces_cover.induct) auto

context directory_cache
begin

lemma get_pieces_spec:
  assumes "coherent ok mem caches sys" "n < caches" "pieces_cover ob p ps e" "e \<le> 4294967264" "pieces_ok caches sys n ps"
  shows "\<exists>sys'. get_pieces S Win32 caches n ps sys = Some (sys', dsm_read (mem (cs_backend sys)) ob (of_nat p) (e - p)) \<and>
    coherent ok mem caches sys' \<and> cs_backend sys' = cs_backend sys"
  using assms
proof (induction ob p ps e arbitrary: sys rule: pieces_cover.induct)
  case (1 ob p e)
  then show ?case by (simp add: dsm_read_def)
next
  case (2 ob p k len ps e)
  have pe: "p + len \<le> e"
    using 2(4) pieces_cover_le [of ob "p + len" ps e] by simp
  let ?f = "of_nat p :: u32"
  have p: "unat ?f = p" using 2(4,5) pe by (simp add: unat_of_nat_small)
  have k: "k = MAKE64 ob ?f" "p mod 32 + len \<le> 32" "0 < len" using 2(4) by simp_all
  have f: "dsm_range ?f 1" "unat ?f mod 32 + len \<le> 32" "dsm_range ?f (e - p)"
    using 2(5) pe p k by (simp_all add: dsm_range_def)
  obtain sys1 where s1: "doget S Win32 caches sys n (MAKE64 ob ?f) =
        Some (sys1, blk_mem (mem (cs_backend sys)) (MAKE64 ob ?f AND DSM_CACHE_HIGH_MASK_64))"
      "coherent ok mem caches sys1" "cs_backend sys1 = cs_backend sys" "call_frame n sys sys1"
    by (rule doget_spec [OF 2(2,3) f(1) refl]) (use 2(6) k in \<open>auto simp: pieces_ok_def\<close>)
  obtain sys2 where s2: "get_pieces S Win32 caches n ps sys1 =
        Some (sys2, dsm_read (mem (cs_backend sys1)) ob (of_nat (p + len)) (e - (p + len)))"
      "coherent ok mem caches sys2" "cs_backend sys2 = cs_backend sys1"
    using 2(1) [OF s1(2) 2(3) _ 2(5) pieces_ok_call [OF s1(2,4) 2(6)]] 2(4) by auto
  have "dsm_read mm ob ?f (e - p) = dsm_read mm ob ?f len @ dsm_read mm ob (of_nat (p + len)) (e - (p + len))" for mm
    using dsm_read_append [of ?f len "e - (p + len)" mm ob] f(3) pe by simp
  then show ?case
    using s1 s2 k(1) blk_mem_take [OF f(1,2), of "mem (cs_backend sys)" ob]
    by (simp add: getblockdata_def MAKE64_low)
qed

lemma put_pieces_spec:
  assumes "coherent ok mem caches sys" "n < caches" "pieces_cover ob p ps e" "e \<le> 4294967264" "pieces_ok caches sys n ps"
    and "length v = e - p" "list_all (\<lambda>(k, len). len \<le> 1 \<or> home caches k \<noteq> n) ps"
  shows "\<exists>sys'. put_pieces S Win32 caches n ps v ret sys = Some (sys', ret) \<and>
    coherent ok mem caches sys' \<and> mem (cs_backend sys') = dsm_write (mem (cs_backend sys)) ob (of_nat p) v \<and>
    info (cs_backend sys') = info (cs_backend sys)"
  using assms
proof (induction ob p ps e arbitrary: sys v rule: pieces_cover.induct)
  case (1 ob p e)
  then show ?case by simp
next
  case (2 ob p k len ps e)
  have pe: "p + len \<le> e"
    using 2(4) pieces_cover_le [of ob "p + len" ps e] by simp
  let ?f = "of_nat p :: u32" and ?v = "take len v"
  have p: "unat ?f = p" using 2(4,5) pe by (simp add: unat_of_nat_small)
  have k: "k = MAKE64 ob ?f" "p mod 32 + len \<le> 32" "0 < len" using 2(4) by simp_all
  have len: "length ?v = len" using 2(7) pe by simp
  have f: "dsm_range ?f 1" "unat ?f mod 32 + length ?v \<le> 32" "dsm_range ?f (length v)"
    using 2(5,7) pe p k len by (simp_all add: dsm_range_def)
  have st: "stored_words caches sys n (MAKE64 ob ?f AND DSM_CACHE_HIGH_MASK_64) ?v = ?v"
    using 2(8) k(1) len by (auto simp: stored_words_def)
  obtain sys1 where s1: "doput S Win32 caches sys n (MAKE64 ob ?f) ?v = Some (sys1, SoOK)"
      "coherent ok mem caches sys1" "mem (cs_backend sys1) = dsm_write (mem (cs_backend sys)) ob ?f ?v"
      "info (cs_backend sys1) = info (cs_backend sys)" "call_frame n sys sys1"
    by (rule doput_spec [OF 2(2,3) f(1,2) refl]) (use 2(6) k st in \<open>auto simp: pieces_ok_def\<close>)
  obtain sys2 where s2: "put_pieces S Win32 caches n ps (drop len v) ret sys1 = Some (sys2, ret)"
      "coherent ok mem caches sys2"
      "mem (cs_backend sys2) = dsm_write (mem (cs_backend sys1)) ob (of_nat (p + len)) (drop len v)"
      "info (cs_backend sys2) = info (cs_backend sys1)"
    using 2(1) [OF s1(2) 2(3) _ 2(5) pieces_ok_call [OF s1(2,5) 2(6)], of "drop len v"] 2(4,7,8) by auto
  have "dsm_write (dsm_write mm ob ?f ?v) ob (of_nat (p + len)) (drop len v) = dsm_write mm ob ?f v" for mm
    using dsm_write_append [of ?f ?v "drop len v" mm ob] f(3) unfolding len by simp
  then show ?case
    using s1 s2 k(1) by simp
qed
end

section \<open>Runs\<close>

text \<open>Client calls of the nodes and deliveries on the control channels, in any order.\<close>

datatype cache_op =
    CDeliver nat nat
  | CPut nat ObjectKey FieldKey u32
  | CGet nat ObjectKey FieldKey
  | CPutChunk nat ObjectKey FieldKey "u32 list"
  | CGetChunk nat ObjectKey FieldKey nat

fun dc_exec :: "'s SoStorage \<Rightarrow> platform \<Rightarrow> nat \<Rightarrow> 's CacheSys \<Rightarrow> cache_op \<Rightarrow> ('s CacheSys \<times> u32 list) option" where
  "dc_exec S plat caches sys (CDeliver i j) = map_option (\<lambda>sys'. (sys', [])) (CacheProtocalProc plat caches sys i j)"
| "dc_exec S plat caches sys (CPut n ob f v) = map_option (\<lambda>(sys', st). (sys', [])) (dc_put S plat caches sys n ob f v)"
| "dc_exec S plat caches sys (CGet n ob f) = map_option (\<lambda>(sys', w). (sys', [w])) (dc_get_word S plat caches sys n ob f)"
| "dc_exec S plat caches sys (CPutChunk n ob f v) =
     map_option (\<lambda>(sys', st). (sys', [])) (dc_putchunk S plat caches sys n ob f (of_nat (length v)) v)"
| "dc_exec S plat caches sys (CGetChunk n ob f len) =
     map_option (\<lambda>(sys', st, ws). (sys', ws)) (dc_getchunk S plat caches sys n ob f (of_nat len))"

text \<open>
  When a call is covered: the node is not about to receive a renewal of a block it touches, its
  clock does not wrap, and a chunk is not written to blocks the node is home of.
\<close>

fun dc_ok :: "nat \<Rightarrow> 's CacheSys \<Rightarrow> cache_op \<Rightarrow> bool" where
  "dc_ok caches sys (CDeliver i j) = (j < caches)"
| "dc_ok caches sys (CPut n ob f v) = (n < caches \<and> dsm_range f 1 \<and> pieces_ok caches sys n [(MAKE64 ob f, 1)])"
| "dc_ok caches sys (CGet n ob f) = (n < caches \<and> dsm_range f 1 \<and> pieces_ok caches sys n [(MAKE64 ob f, 1)])"
| "dc_ok caches sys (CPutChunk n ob f v) =
     (n < caches \<and> dsm_range f (length v) \<and>
      pieces_ok caches sys n (chunk_pieces (MAKE64 ob f) (of_nat (length v))) \<and>
      list_all (\<lambda>(k, len). len \<le> 1 \<or> home caches k \<noteq> n) (chunk_pieces (MAKE64 ob f) (of_nat (length v))))"
| "dc_ok caches sys (CGetChunk n ob f len) =
     (n < caches \<and> dsm_range f len \<and> pieces_ok caches sys n (chunk_pieces (MAKE64 ob f) (of_nat len)))"

fun dc_spec :: "dsm \<Rightarrow> cache_op \<Rightarrow> dsm \<times> u32 list" where
  "dc_spec mm (CDeliver i j) = (mm, [])"
| "dc_spec mm (CPut n ob f v) = (dsm_write mm ob f [v], [])"
| "dc_spec mm (CGet n ob f) = (mm, [mm ob f])"
| "dc_spec mm (CPutChunk n ob f v) = (dsm_write mm ob f v, [])"
| "dc_spec mm (CGetChunk n ob f len) = (mm, dsm_read mm ob f len)"

fun dc_run :: "'s SoStorage \<Rightarrow> platform \<Rightarrow> nat \<Rightarrow> 's CacheSys \<Rightarrow> cache_op list \<Rightarrow> ('s CacheSys \<times> u32 list list) option" where
  "dc_run S plat caches sys [] = Some (sys, [])"
| "dc_run S plat caches sys (c # cs) =
     (case dc_exec S plat caches sys c of
        None \<Rightarrow> None
      | Some (sys', r) \<Rightarrow> map_option (\<lambda>(sys'', rs). (sys'', r # rs)) (dc_run S plat caches sys' cs))"

fun dc_run_ok :: "'s SoStorage \<Rightarrow> platform \<Rightarrow> nat \<Rightarrow> 's CacheSys \<Rightarrow> cache_op list \<Rightarrow> bool" where
  "dc_run_ok S plat caches sys [] = True"
| "dc_run_ok S plat caches sys (c # cs) =
     (dc_ok caches sys c \<and>
      (case dc_exec S plat caches sys c of None \<Rightarrow> True | Some (sys', r) \<Rightarrow> dc_run_ok S plat caches sys' cs))"

fun dc_spec_run :: "dsm \<Rightarrow> cache_op list \<Rightarrow> dsm \<times> u32 list list" where
  "dc_spec_run mm [] = (mm, [])"
| "dc_spec_run mm (c # cs) =
     (case dc_spec mm c of (mm', r) \<Rightarrow> case dc_spec_run mm' cs of (mm'', rs) \<Rightarrow> (mm'', r # rs))"

context directory_cache
begin

lemma dc_get_word_spec:
  assumes "coherent ok mem caches sys" "dc_ok caches sys (CGet n ob f)"
  obtains sys' where "dc_get_word S Win32 caches sys n ob f = Some (sys', mem (cs_backend sys) ob f)"
    "coherent ok mem caches sys'" "cs_backend sys' = cs_backend sys"
proof -
  have f: "dsm_range f 1" using assms(2) by simp
  let ?k = "MAKE64 ob f AND DSM_CACHE_HIGH_MASK_64" and ?mm = "mem (cs_backend sys)"
  obtain sys' where s': "doget S Win32 caches sys n (MAKE64 ob f) = Some (sys', blk_mem ?mm ?k)"
      "coherent ok mem caches sys'" "cs_backend sys' = cs_backend sys"
    by (rule doget_spec [OF assms(1) _ f refl]) (use assms(2) in \<open>auto simp: pieces_ok_def\<close>)
  have r: "unat f mod 32 < 32" by simp
  have "take 1 (drop (unat f mod 32) (blk_mem ?mm ?k)) = dsm_read ?mm ob f 1" by (rule blk_mem_take [OF f]) (use r in simp)
  then have "blk_mem ?mm ?k ! (unat f mod 32) = ?mm ob f"
    using r by (simp add: dsm_read_def take_Suc hd_drop_conv_nth)
  then show thesis using that s' by (simp add: dc_get_word_def unat_and_low)
qed

lemma dc_put_spec:
  assumes "coherent ok mem caches sys" "dc_ok caches sys (CPut n ob f v)"
  obtains sys' where "dc_put S Win32 caches sys n ob f v = Some (sys', SoOK)" "coherent ok mem caches sys'"
    "mem (cs_backend sys') = dsm_write (mem (cs_backend sys)) ob f [v]" "info (cs_backend sys') = info (cs_backend sys)"
proof -
  have f: "dsm_range f 1" "unat f mod 32 + length [v] \<le> 32" using assms(2) by (simp_all add: Suc_le_eq)
  obtain sys' where "doput S Win32 caches sys n (MAKE64 ob f) [v] = Some (sys', SoOK)"
      "coherent ok mem caches sys'" "mem (cs_backend sys') = dsm_write (mem (cs_backend sys)) ob f
        (stored_words caches sys n (MAKE64 ob f AND DSM_CACHE_HIGH_MASK_64) [v])"
      "info (cs_backend sys') = info (cs_backend sys)"
    by (rule doput_spec [OF assms(1) _ f refl]) (use assms(2) in \<open>auto simp: pieces_ok_def\<close>)
  then show thesis using that [of sys'] by (simp add: dc_put_def stored_words_def)
qed

lemma dc_exec_refines:
  assumes co: "coherent ok mem caches sys" and c: "dc_ok caches sys c"
  shows "\<exists>sys'. dc_exec S Win32 caches sys c = Some (sys', snd (dc_spec (mem (cs_backend sys)) c)) \<and>
    coherent ok mem caches sys' \<and> mem (cs_backend sys') = fst (dc_spec (mem (cs_backend sys)) c)"
proof (cases c)
  case (CDeliver i j)
  have "sys_ok caches {} (mem (cs_backend sys)) sys" "j < caches" using co c CDeliver by (simp_all add: coherent_def)
  then obtain sys' where "CacheProtocalProc Win32 caches sys i j = Some sys'" "sys_ok caches {} (mem (cs_backend sys)) sys'"
      "cs_backend sys' = cs_backend sys"
    using deliver_sys_ok [of caches "{}" "mem (cs_backend sys)" sys j i] by (auto simp: delivered_def)
  then show ?thesis using CDeliver co by (simp add: coherent_def)
next
  case (CPut n ob f v)
  then have "dc_ok caches sys (CPut n ob f v)" using c by simp
  then show ?thesis by (rule dc_put_spec [OF co]) (use CPut in auto)
next
  case (CGet n ob f)
  then have "dc_ok caches sys (CGet n ob f)" using c by simp
  then show ?thesis by (rule dc_get_word_spec [OF co]) (use CGet in auto)
next
  case (CPutChunk n ob f v)
  have len: "unat (of_nat (length v) :: u32) = length v" using c CPutChunk by (simp add: dsm_range_def unat_of_nat_small)
  have "pieces_cover ob (unat f) (chunk_pieces (MAKE64 ob f) (of_nat (length v))) (unat f + length v)"
    using chunk_pieces_cover [of f "of_nat (length v)" ob] c CPutChunk len by simp
  then show ?thesis
    using put_pieces_spec [OF co, of n ob "unat f" _ "unat f + length v" v None] c CPutChunk
    by (fastforce simp: dc_putchunk_def dsm_range_def)
next
  case (CGetChunk n ob f l)
  have len: "unat (of_nat l :: u32) = l" using c CGetChunk by (simp add: dsm_range_def unat_of_nat_small)
  have "pieces_cover ob (unat f) (chunk_pieces (MAKE64 ob f) (of_nat l)) (unat f + l)"
    using chunk_pieces_cover [of f "of_nat l" ob] c CGetChunk len by simp
  then show ?thesis
    using get_pieces_spec [OF co, of n ob "unat f" _ "unat f + l"] c CGetChunk
    by (fastforce simp: dc_getchunk_def dsm_range_def)
qed

lemma dc_run_refines:
  assumes "coherent ok mem caches sys" "dc_run_ok S Win32 caches sys cs"
  shows "\<exists>sys'. dc_run S Win32 caches sys cs = Some (sys', snd (dc_spec_run (mem (cs_backend sys)) cs)) \<and>
    coherent ok mem caches sys' \<and> mem (cs_backend sys') = fst (dc_spec_run (mem (cs_backend sys)) cs)"
  using assms
proof (induction cs arbitrary: sys)
  case (Cons c cs)
  obtain s1 where s1: "dc_exec S Win32 caches sys c = Some (s1, snd (dc_spec (mem (cs_backend sys)) c))"
      "coherent ok mem caches s1" "mem (cs_backend s1) = fst (dc_spec (mem (cs_backend sys)) c)"
    using dc_exec_refines [of sys c] Cons.prems by auto
  then show ?case using Cons.IH [OF s1(2)] Cons.prems by (auto simp: case_prod_unfold)
qed simp

lemma init_coherent: "ok s \<Longrightarrow> coherent ok mem caches (CacheSys_init s)"
  by (simp add: coherent_def sys_ok_def node_ok_def CacheSys_init_def CacheNode_init_def CacheBlock_init_def)
end
end
