(* ===== verification/Dogee_Memcached.thy ===== *)
theory Dogee_Memcached
  imports Dogee_Storage
begin

text \<open>
  The fine-grained backend \<^verbatim>\<open>SoStorageMemcached\<close> of \<^verbatim>\<open>Dogee/DogeeMemcachedStorage.cpp\<close>: one
  memcached item per 32-bit field, the object header under field 0xFFFFFFFF, and decimal strings
  for the atomic counters. The memcached client library is not part of the program: it is the
  parameter \<open>api\<close>, and what its documentation says of a healthy server is \<open>memcached_reliable\<close>.
  The backend is shown to meet the storage contract.
\<close>

section \<open>The memcached client library\<close>

datatype memcached_return =
    MEMCACHED_SUCCESS
  | MEMCACHED_NOTFOUND
  | MEMCACHED_NOTSTORED
  | MEMCACHED_ERROR nat

text \<open>
  Keys are the 8 bytes of a 64-bit integer, values are byte strings. \<open>memcached_mget\<close> stands for
  the call of that name together with the results that the following calls of
  \<^verbatim>\<open>memcached_fetch_result\<close> deliver until it returns a null pointer.
\<close>

type_synonym memcached_result = "memcached_return \<times> u64 \<times> u8 list"

record 'm memcached_api =
  memcached_set :: "'m \<Rightarrow> u64 \<Rightarrow> u8 list \<Rightarrow> 'm \<times> memcached_return"
  memcached_add :: "'m \<Rightarrow> u64 \<Rightarrow> u8 list \<Rightarrow> 'm \<times> memcached_return"
  memcached_get :: "'m \<Rightarrow> u64 \<Rightarrow> u8 list \<times> memcached_return"
  memcached_delete :: "'m \<Rightarrow> u64 \<Rightarrow> 'm \<times> memcached_return"
  memcached_increment :: "'m \<Rightarrow> u64 \<Rightarrow> u64 \<Rightarrow> 'm \<times> u64 \<times> memcached_return"
  memcached_mget :: "'m \<Rightarrow> u64 list \<Rightarrow> memcached_return \<times> memcached_result list"

section \<open>Decimal strings\<close>

text \<open>\<^verbatim>\<open>sprintf ("%lu", n)\<close> and \<^verbatim>\<open>atoll\<close>, as far as the counters use them.\<close>

fun sprintf_lu :: "nat \<Rightarrow> u8 list" where
  "sprintf_lu n = (if n < 10 then [] else sprintf_lu (n div 10)) @ [of_nat (48 + n mod 10)]"

definition isdigit :: "u8 \<Rightarrow> bool" where
  "isdigit c \<longleftrightarrow> 48 \<le> unat c \<and> unat c \<le> 57"

definition isspace :: "u8 \<Rightarrow> bool" where
  "isspace c \<longleftrightarrow> unat c = 32 \<or> 9 \<le> unat c \<and> unat c \<le> 13"

fun digits_value :: "nat \<Rightarrow> u8 list \<Rightarrow> nat" where
  "digits_value acc [] = acc"
| "digits_value acc (c # cs) = (if isdigit c then digits_value (10 * acc + (unat c - 48)) cs else acc)"

definition atoll :: "u8 list \<Rightarrow> int" where
  "atoll s = (case dropWhile isspace s of
      [] \<Rightarrow> 0
    | c # cs \<Rightarrow> if unat c = 45 then - int (digits_value 0 cs)
                else if unat c = 43 then int (digits_value 0 cs)
                else int (digits_value 0 (c # cs)))"

section \<open>SoStorageMemcached\<close>

definition memcached_put :: "'m memcached_api \<Rightarrow> 'm \<Rightarrow> u64 \<Rightarrow> u8 list \<Rightarrow> 'm \<times> memcached_return" where
  "memcached_put api memca k v = memcached_set api memca k v"

definition fetchchunk :: "'m memcached_api \<Rightarrow> 'm \<Rightarrow> u64 \<Rightarrow> u32 \<Rightarrow> SoStatus \<times> memcached_result list" where
  "fetchchunk api memc k len =
     (let keys = map (\<lambda>i. k + of_nat i) [0..<unat len];
          (rc, results) = memcached_mget api memc keys
      in (if rc = MEMCACHED_SUCCESS then SoOK else SoFail, results))"

definition MEMCACHED_FETCH_BATCH :: nat where
  "MEMCACHED_FETCH_BATCH = 490"

text \<open>The \<^verbatim>\<open>while\<close> loop over the fetched results: \<^verbatim>\<open>buf[(*pkey) - k] = *pvalue\<close>.\<close>

fun fetch_results :: "u64 \<Rightarrow> u32 list \<Rightarrow> memcached_result list \<Rightarrow> u32 list" where
  "fetch_results k buf [] = buf"
| "fetch_results k buf ((rc, pkey, pvalue) # results) =
     fetch_results k
       (if rc = MEMCACHED_SUCCESS then buf[unat (pkey - k) := words_of_bytes pvalue ! 0] else buf)
       results"

function MemcachedGetChunk_loop ::
    "'m memcached_api \<Rightarrow> 'm \<Rightarrow> LongKey \<Rightarrow> nat \<Rightarrow> nat \<Rightarrow> SoStatus option \<Rightarrow> u32 list
     \<Rightarrow> SoStatus option \<times> u32 list" where
  "MemcachedGetChunk_loop api memc k len offset ret buf =
     (if offset < len then
        let mylen = (if offset + MEMCACHED_FETCH_BATCH < len then MEMCACHED_FETCH_BATCH else len - offset);
            buf1 = overwrite buf offset (replicate mylen 0);
            (st, results) = fetchchunk api memc (k + of_nat offset) (of_nat mylen)
        in MemcachedGetChunk_loop api memc k len (offset + MEMCACHED_FETCH_BATCH) (Some st)
             (fetch_results k buf1 results)
      else (ret, buf))"
  by pat_completeness auto
termination
  by (relation "measure (\<lambda>(api, memc, k, len, offset, ret, buf). len - offset)")
    (auto simp: MEMCACHED_FETCH_BATCH_def)

declare MemcachedGetChunk_loop.simps [simp del]

definition MemcachedGetChunk ::
    "'m memcached_api \<Rightarrow> 'm \<Rightarrow> LongKey \<Rightarrow> u32 \<Rightarrow> u32 list \<Rightarrow> SoStatus option \<times> u32 list" where
  "MemcachedGetChunk api memc k len buf = MemcachedGetChunk_loop api memc k (unat len) 0 None buf"

definition smc_getcounter :: "'m memcached_api \<Rightarrow> 'm \<Rightarrow> ObjectKey \<Rightarrow> FieldKey \<Rightarrow> u64 cxx" where
  "smc_getcounter api memc key fldid =
     (case memcached_get api memc (MAKE64 key fldid) of (return_value, rc) \<Rightarrow>
        if rc \<noteq> MEMCACHED_SUCCESS then Throw 1 else Ret (of_int (atoll return_value)))"

definition smc_setcounter ::
    "'m memcached_api \<Rightarrow> 'm \<Rightarrow> ObjectKey \<Rightarrow> FieldKey \<Rightarrow> u64 \<Rightarrow> 'm \<times> SoStatus" where
  "smc_setcounter api memc key fldid n =
     (case memcached_set api memc (MAKE64 key fldid) (sprintf_lu (unat n)) of (memc', rc) \<Rightarrow>
        (memc', if rc \<noteq> MEMCACHED_SUCCESS then SoFail else SoOK))"

definition smc_inc ::
    "'m memcached_api \<Rightarrow> 'm \<Rightarrow> ObjectKey \<Rightarrow> FieldKey \<Rightarrow> u64 \<Rightarrow> ('m \<times> u64) cxx" where
  "smc_inc api memc key fldid n =
     (case memcached_increment api memc (MAKE64 key fldid) n of (memc', ret, rc) \<Rightarrow>
        if rc \<noteq> MEMCACHED_SUCCESS then Throw 1 else Ret (memc', ret))"

definition smc_dec ::
    "'m memcached_api \<Rightarrow> 'm \<Rightarrow> ObjectKey \<Rightarrow> FieldKey \<Rightarrow> u64 \<Rightarrow> ('m \<times> u64) cxx" where
  "smc_dec api memc key fldid n =
     (case memcached_increment api memc (MAKE64 key fldid) n of (memc', ret, rc) \<Rightarrow>
        if rc \<noteq> MEMCACHED_SUCCESS then Throw 1 else Ret (memc', ret))"

definition smc_getchunk32 ::
    "'m memcached_api \<Rightarrow> 'm \<Rightarrow> ObjectKey \<Rightarrow> FieldKey \<Rightarrow> u32 \<Rightarrow> u32 list \<Rightarrow> SoStatus option \<times> u32 list" where
  "smc_getchunk32 api memc key fldid len buf = MemcachedGetChunk api memc (MAKE64 key fldid) len buf"

definition smc_getchunk64 ::
    "'m memcached_api \<Rightarrow> 'm \<Rightarrow> ObjectKey \<Rightarrow> FieldKey \<Rightarrow> u32 \<Rightarrow> u64 list \<Rightarrow> SoStatus option \<times> u64 list" where
  "smc_getchunk64 api memc key fldid len buf =
     map_prod id u64s_of_words (smc_getchunk32 api memc key fldid (len * 2) (words_of_u64s buf))"

definition smc_getblock ::
    "'m memcached_api \<Rightarrow> 'm \<Rightarrow> LongKey \<Rightarrow> u32 list \<Rightarrow> SoStatus option \<times> u32 list" where
  "smc_getblock api memc k buf = MemcachedGetChunk api memc k (of_nat DSM_CACHE_BLOCK_SIZE) buf"

text \<open>
  The loop of \<^verbatim>\<open>MemcachedPutChunk\<close>, with its counters \<open>i\<close> and \<open>k\<close> at their width: \<open>k\<close> wraps
  around inside the object's field space.
\<close>

function MemcachedPutChunk_loop ::
    "'m memcached_api \<Rightarrow> ObjectKey \<Rightarrow> u32 \<Rightarrow> u32 list \<Rightarrow> u32 \<Rightarrow> u32 \<Rightarrow> 'm \<Rightarrow> SoStatus \<Rightarrow> 'm \<times> SoStatus" where
  "MemcachedPutChunk_loop api key len buf i k memc ret =
     (if i < len then
        case memcached_put api memc (MAKE64 key k) (u32_bytes (buf ! unat i)) of (memc', rc) \<Rightarrow>
          MemcachedPutChunk_loop api key len buf (i + 1) (k + 1) memc'
            (if rc \<noteq> MEMCACHED_SUCCESS then SoFail else ret)
      else (memc, ret))"
  by pat_completeness auto
termination
proof (relation "measure (\<lambda>(api, key, len, buf, i, k, memc, ret). unat len - unat i)")
  fix api :: "'m memcached_api" and key len :: u32 and buf :: "u32 list" and i k :: u32
    and memc :: 'm and ret :: SoStatus and x memc' rc
  assume "i < len"
  then have "unat i < unat len" by (simp add: word_less_nat_alt)
  moreover then have "unat (i + of_nat 1) = unat i + 1"
    using unat_u32_less [of len] by (intro unat_add_of_nat) simp
  ultimately show "((api, key, len, buf, i + 1, k + 1, memc', if rc \<noteq> MEMCACHED_SUCCESS then SoFail else ret),
      (api, key, len, buf, i, k, memc, ret))
      \<in> measure (\<lambda>(api, key, len, buf, i, k, memc, ret). unat len - unat i)"
    by simp
qed simp

declare MemcachedPutChunk_loop.simps [simp del]

definition smc_putchunk32 ::
    "'m memcached_api \<Rightarrow> 'm \<Rightarrow> ObjectKey \<Rightarrow> FieldKey \<Rightarrow> u32 \<Rightarrow> u32 list \<Rightarrow> 'm \<times> SoStatus" where
  "smc_putchunk32 api memc key fldid len buf = MemcachedPutChunk_loop api key len buf 0 fldid memc SoOK"

definition smc_putchunk64 ::
    "'m memcached_api \<Rightarrow> 'm \<Rightarrow> ObjectKey \<Rightarrow> FieldKey \<Rightarrow> u32 \<Rightarrow> u64 list \<Rightarrow> 'm \<times> SoStatus" where
  "smc_putchunk64 api memc key fldid len buf =
     smc_putchunk32 api memc key fldid (len * 2) (words_of_u64s buf)"

definition smc_put32 ::
    "'m memcached_api \<Rightarrow> 'm \<Rightarrow> ObjectKey \<Rightarrow> FieldKey \<Rightarrow> u32 \<Rightarrow> 'm \<times> SoStatus" where
  "smc_put32 api memc key fldid v =
     (case memcached_put api memc (MAKE64 key fldid) (u32_bytes v) of (memc', rc) \<Rightarrow>
        (memc', if rc = MEMCACHED_SUCCESS then SoOK else SoFail))"

definition smc_put64 ::
    "'m memcached_api \<Rightarrow> 'm \<Rightarrow> ObjectKey \<Rightarrow> FieldKey \<Rightarrow> u64 \<Rightarrow> 'm \<times> SoStatus" where
  "smc_put64 api memc key fldid v = smc_putchunk32 api memc key fldid 2 (u64_words v)"

text \<open>Any failure but a miss prints a message and runs into \<^verbatim>\<open>_BreakPoint\<close>.\<close>

definition smc_get :: "'m memcached_api \<Rightarrow> 'm \<Rightarrow> ObjectKey \<Rightarrow> FieldKey \<Rightarrow> u32 cxx" where
  "smc_get api memc key fldid =
     (case memcached_get api memc (MAKE64 key fldid) of (mret, rc) \<Rightarrow>
        if rc = MEMCACHED_SUCCESS then Ret (words_of_bytes mret ! 0)
        else if rc = MEMCACHED_NOTFOUND then Ret 0
        else Trap)"

definition smc_getinfo ::
    "'m memcached_api \<Rightarrow> 'm \<Rightarrow> ObjectKey \<Rightarrow> SoStatus \<times> (u32 \<times> u32) option" where
  "smc_getinfo api memc key =
     (case memcached_get api memc (MAKE64 key 0xFFFFFFFF) of (mret, rc) \<Rightarrow>
        if rc = MEMCACHED_SUCCESS
        then (SoOK, Some (words_of_bytes mret ! 0, words_of_bytes mret ! 1))
        else (SoFail, None))"

definition delete_fields :: "'m memcached_api \<Rightarrow> 'm \<Rightarrow> ObjectKey \<Rightarrow> nat \<Rightarrow> 'm" where
  "delete_fields api memc key n =
     fold (\<lambda>i memc. fst (memcached_delete api memc (MAKE64 key (of_nat i)))) [0..<n] memc"

text \<open>\<^verbatim>\<open>del\<close> ignores the status of \<^verbatim>\<open>getinfo\<close>: without a header, \<^verbatim>\<open>size\<close> was never written.\<close>

definition smc_del :: "'m memcached_api \<Rightarrow> 'm \<Rightarrow> ObjectKey \<Rightarrow> ('m \<times> SoStatus) cxx" where
  "smc_del api memc key =
     (case smc_getinfo api memc key of
        (st, None) \<Rightarrow> Indeterminate
      | (st, Some (flg, sz)) \<Rightarrow>
          let memc1 = delete_fields api memc key (unat sz)
          in Ret (fst (memcached_delete api memc1 (MAKE64 key 0xFFFFFFFF)), SoOK))"

definition smc_newobj ::
    "'m memcached_api \<Rightarrow> 'm \<Rightarrow> ObjectKey \<Rightarrow> u32 \<Rightarrow> u32 \<Rightarrow> 'm \<times> SoStatus" where
  "smc_newobj api memc key flag sz =
     (case memcached_add api memc (MAKE64 key 0xFFFFFFFF) (bytes_of_words [flag, sz]) of (memc', rc) \<Rightarrow>
        (memc', if rc = MEMCACHED_SUCCESS then SoOK else SoFail))"

definition SoStorageMemcached :: "'m memcached_api \<Rightarrow> 'm SoStorage" where
  "SoStorageMemcached api = \<lparr>
     so_del = smc_del api, so_newobj = smc_newobj api, so_getinfo = smc_getinfo api,
     so_put64 = smc_put64 api, so_put32 = smc_put32 api, so_get = smc_get api,
     so_getchunk64 = smc_getchunk64 api, so_getchunk32 = smc_getchunk32 api,
     so_putchunk64 = smc_putchunk64 api, so_putchunk32 = smc_putchunk32 api,
     so_getblock = smc_getblock api, so_inc = smc_inc api, so_dec = smc_dec api,
     so_getcounter = smc_getcounter api, so_setcounter = smc_setcounter api \<rparr>"

section \<open>What the documentation of memcached promises\<close>

definition memcached_set_spec :: "'m memcached_api \<Rightarrow> ('m \<Rightarrow> u64 \<Rightarrow> u8 list option) \<Rightarrow> bool" where
  "memcached_set_spec api items \<longleftrightarrow> (\<forall>m k v.
     snd (memcached_set api m k v) = MEMCACHED_SUCCESS \<and>
     items (fst (memcached_set api m k v)) = (items m)(k \<mapsto> v))"

definition memcached_add_spec :: "'m memcached_api \<Rightarrow> ('m \<Rightarrow> u64 \<Rightarrow> u8 list option) \<Rightarrow> bool" where
  "memcached_add_spec api items \<longleftrightarrow> (\<forall>m k v.
     (snd (memcached_add api m k v) = MEMCACHED_SUCCESS \<longleftrightarrow> items m k = None) \<and>
     items (fst (memcached_add api m k v)) = (if items m k = None then (items m)(k \<mapsto> v) else items m))"

definition memcached_get_spec :: "'m memcached_api \<Rightarrow> ('m \<Rightarrow> u64 \<Rightarrow> u8 list option) \<Rightarrow> bool" where
  "memcached_get_spec api items \<longleftrightarrow> (\<forall>m k.
     (items m k = None \<longrightarrow> snd (memcached_get api m k) = MEMCACHED_NOTFOUND) \<and>
     (\<forall>v. items m k = Some v \<longrightarrow> memcached_get api m k = (v, MEMCACHED_SUCCESS)))"

definition memcached_delete_spec :: "'m memcached_api \<Rightarrow> ('m \<Rightarrow> u64 \<Rightarrow> u8 list option) \<Rightarrow> bool" where
  "memcached_delete_spec api items \<longleftrightarrow> (\<forall>m k.
     items (fst (memcached_delete api m k)) = (items m)(k := None))"

definition memcached_mget_spec :: "'m memcached_api \<Rightarrow> ('m \<Rightarrow> u64 \<Rightarrow> u8 list option) \<Rightarrow> bool" where
  "memcached_mget_spec api items \<longleftrightarrow> (\<forall>m ks.
     fst (memcached_mget api m ks) = MEMCACHED_SUCCESS \<and>
     set (snd (memcached_mget api m ks)) =
       {(MEMCACHED_SUCCESS, k, v) | k v. k \<in> set ks \<and> items m k = Some v})"

definition memcached_increment_spec :: "'m memcached_api \<Rightarrow> ('m \<Rightarrow> u64 \<Rightarrow> u8 list option) \<Rightarrow> bool" where
  "memcached_increment_spec api items \<longleftrightarrow> (\<forall>m k n d. items m k = Some (sprintf_lu (unat n)) \<longrightarrow>
     (\<exists>m'. memcached_increment api m k d = (m', n + d, MEMCACHED_SUCCESS) \<and>
       items m' = (items m)(k \<mapsto> sprintf_lu (unat (n + d)))))"

definition memcached_reliable :: "'m memcached_api \<Rightarrow> ('m \<Rightarrow> u64 \<Rightarrow> u8 list option) \<Rightarrow> bool" where
  "memcached_reliable api items \<longleftrightarrow>
     memcached_set_spec api items \<and> memcached_add_spec api items \<and> memcached_get_spec api items \<and>
     memcached_delete_spec api items \<and> memcached_mget_spec api items \<and>
     memcached_increment_spec api items"

lemma reliable_set:
  assumes "memcached_reliable api items"
  obtains m' where "memcached_set api m k v = (m', MEMCACHED_SUCCESS)" "items m' = (items m)(k \<mapsto> v)"
  using assms unfolding memcached_reliable_def memcached_set_spec_def by (metis prod.collapse)

lemma reliable_add_free:
  assumes "memcached_reliable api items" "items m k = None"
  obtains m' where "memcached_add api m k v = (m', MEMCACHED_SUCCESS)" "items m' = (items m)(k \<mapsto> v)"
  using assms unfolding memcached_reliable_def memcached_add_spec_def by (metis prod.collapse)

lemma reliable_add_taken:
  assumes "memcached_reliable api items" "items m k \<noteq> None"
  obtains m' rc where "memcached_add api m k v = (m', rc)" "rc \<noteq> MEMCACHED_SUCCESS" "items m' = items m"
  using assms unfolding memcached_reliable_def memcached_add_spec_def by (metis prod.collapse)

lemma reliable_get_None:
  assumes "memcached_reliable api items" "items m k = None"
  obtains v where "memcached_get api m k = (v, MEMCACHED_NOTFOUND)"
  using assms unfolding memcached_reliable_def memcached_get_spec_def by (metis prod.collapse)

lemma reliable_get_Some:
  assumes "memcached_reliable api items" "items m k = Some v"
  shows "memcached_get api m k = (v, MEMCACHED_SUCCESS)"
  using assms unfolding memcached_reliable_def memcached_get_spec_def by blast

lemma reliable_delete:
  assumes "memcached_reliable api items"
  shows "items (fst (memcached_delete api m k)) = (items m)(k := None)"
  using assms unfolding memcached_reliable_def memcached_delete_spec_def by blast

lemma reliable_mget:
  assumes "memcached_reliable api items"
  obtains rs where "memcached_mget api m ks = (MEMCACHED_SUCCESS, rs)"
    "set rs = {(MEMCACHED_SUCCESS, k, v) | k v. k \<in> set ks \<and> items m k = Some v}"
  using assms unfolding memcached_reliable_def memcached_mget_spec_def by (metis prod.collapse)

lemma reliable_delete_fields:
  assumes "memcached_reliable api items" "n \<le> 4294967296"
  shows "items (delete_fields api m key n) =
    (\<lambda>k. if \<exists>f. k = MAKE64 key f \<and> unat f < n then None else items m k)"
  using assms(2)
proof (induction n)
  case 0
  then show ?case by (simp add: delete_fields_def)
next
  case (Suc n)
  have eq: "(\<exists>f. k = MAKE64 key f \<and> unat f < Suc n) \<longleftrightarrow>
      k = MAKE64 key (of_nat n) \<or> (\<exists>f. k = MAKE64 key f \<and> unat f < n)" for k
  proof -
    have "unat f < Suc n \<longleftrightarrow> f = of_nat n \<or> unat f < n" for f :: u32
      using Suc.prems by (auto simp: less_Suc_eq unat_of_nat_small)
    then show ?thesis by auto
  qed
  have "items (delete_fields api m key (Suc n)) =
      (items (delete_fields api m key n))(MAKE64 key (of_nat n) := None)"
    using reliable_delete [OF assms(1)] by (simp add: delete_fields_def)
  also have "\<dots> = (\<lambda>k. if \<exists>f. k = MAKE64 key f \<and> unat f < Suc n then None else items m k)"
    using Suc by (auto simp: fun_eq_iff eq)
  finally show ?case .
qed
section \<open>The backend meets the storage contract\<close>

definition field_at :: "(u64 \<Rightarrow> u8 list option) \<Rightarrow> u64 \<Rightarrow> u32" where
  "field_at it k = (case it k of None \<Rightarrow> 0 | Some v \<Rightarrow> words_of_bytes v ! 0)"

definition smc_mem :: "('m \<Rightarrow> u64 \<Rightarrow> u8 list option) \<Rightarrow> 'm \<Rightarrow> dsm" where
  "smc_mem items m key fld =
     (if fld = 0xFFFFFFFF then 0
      else field_at (items m) (MAKE64 key fld))"

definition smc_info :: "('m \<Rightarrow> u64 \<Rightarrow> u8 list option) \<Rightarrow> 'm \<Rightarrow> ObjectKey \<Rightarrow> (u32 \<times> u32) option" where
  "smc_info items m key =
     map_option (\<lambda>v. (words_of_bytes v ! 0, words_of_bytes v ! 1)) (items m (MAKE64 key 0xFFFFFFFF))"

lemma smc_mem_update:
  assumes "items m' = (items m)(MAKE64 key fld \<mapsto> u32_bytes v)" "unat fld < 4294967295"
  shows "smc_mem items m' = dsm_write (smc_mem items m) key fld [v]"
proof (intro ext)
  fix k f
  have "words_of_bytes (u32_bytes v) ! 0 = v"
    using words_of_bytes_u32 [of v "[]"] by simp
  moreover have "unat fld \<le> unat f \<and> unat f < unat fld + 1 \<longleftrightarrow> f = fld"
    by (auto simp: word_unat_eq_iff)
  ultimately show "smc_mem items m' k f = dsm_write (smc_mem items m) key fld [v] k f"
    using assms by (auto simp: smc_mem_def field_at_def dsm_write_def)
qed

lemma smc_info_update:
  "items m' = (items m)(MAKE64 key fld \<mapsto> v) \<Longrightarrow> fld \<noteq> 0xFFFFFFFF \<Longrightarrow> smc_info items m' = smc_info items m"
  by (auto simp: smc_info_def fun_eq_iff)

lemma MemcachedPutChunk_loop_spec:
  assumes rel: "memcached_reliable api items"
    and "unat i \<le> unat len" "unat len \<le> length buf" "unat k + (unat len - unat i) < 4294967296"
  shows "\<exists>m'. MemcachedPutChunk_loop api key len buf i k m ret = (m', ret) \<and>
    smc_mem items m' = dsm_write (smc_mem items m) key k (drop (unat i) (take (unat len) buf)) \<and>
    smc_info items m' = smc_info items m"
  using assms(2-)
proof (induction "unat len - unat i" arbitrary: i k m)
  case 0
  then have "\<not> i < len" by (simp add: word_less_nat_alt)
  with 0 show ?case by (simp add: MemcachedPutChunk_loop.simps)
next
  case (Suc n)
  then have lt: "i < len" "unat i < unat len" by (simp_all add: word_less_nat_alt)
  have k: "unat k < 4294967295" using Suc.hyps(2) Suc.prems by linarith
  have i1: "unat (i + 1) = unat i + 1"
    using unat_add_of_nat [of i 1] lt unat_u32_less [of len] by simp
  have k1: "unat (k + 1) = unat k + 1"
    using unat_add_of_nat [of k 1] k by simp
  obtain m1 where m1: "memcached_set api m (MAKE64 key k) (u32_bytes (buf ! unat i)) = (m1, MEMCACHED_SUCCESS)"
      "items m1 = (items m)(MAKE64 key k \<mapsto> u32_bytes (buf ! unat i))"
    by (rule reliable_set [OF rel])
  have prem: "unat (i + 1) \<le> unat len" "unat (k + 1) + (unat len - unat (i + 1)) < 4294967296"
    using lt Suc.prems i1 k1 by linarith+
  have "n = unat len - unat (i + 1)" using Suc.hyps(2) i1 by linarith
  from Suc.hyps(1) [OF this prem(1) Suc.prems(2) prem(2), of m1]
  obtain m2 where m2: "MemcachedPutChunk_loop api key len buf (i + 1) (k + 1) m1 ret = (m2, ret)"
      "smc_mem items m2 = dsm_write (smc_mem items m1) key (k + 1) (drop (unat (i + 1)) (take (unat len) buf))"
      "smc_info items m2 = smc_info items m1"
    by blast
  have "drop (unat i) (take (unat len) buf) = buf ! unat i # drop (unat (i + 1)) (take (unat len) buf)"
    using lt Suc.prems(2) i1 by (simp add: Cons_nth_drop_Suc [symmetric])
  then have "smc_mem items m2 = dsm_write (smc_mem items m) key k (drop (unat i) (take (unat len) buf))"
    using m2(2) smc_mem_update [OF m1(2) k] k1 k
    by (auto simp: dsm_write_def fun_eq_iff nth_Cons' word_unat_eq_iff)
  moreover have "smc_info items m2 = smc_info items m"
    using m2(3) smc_info_update [OF m1(2) unat_less_header [OF k]] by simp
  moreover have "MemcachedPutChunk_loop api key len buf i k m ret = (m2, ret)"
    using m1(1) m2(1) lt by (subst MemcachedPutChunk_loop.simps) (simp add: memcached_put_def)
  ultimately show ?case by blast
qed

lemma fetch_results_nth:
  assumes "\<forall>r\<in>set rs. \<exists>k' v. r = (MEMCACHED_SUCCESS, k', v) \<and> items k' = Some v"
    and "j < length buf" "length buf \<le> 4294967296"
  shows "fetch_results k buf rs ! j =
    (if \<exists>v. (MEMCACHED_SUCCESS, k + of_nat j, v) \<in> set rs
     then words_of_bytes (the (items (k + of_nat j))) ! 0 else buf ! j)"
  using assms
proof (induction rs arbitrary: buf)
  case Nil
  then show ?case by simp
next
  case (Cons r rs)
  then obtain k' v where r: "r = (MEMCACHED_SUCCESS, k', v)" "items k' = Some v" by auto
  have "unat (k' - k) = j \<longleftrightarrow> k' = k + of_nat j"
    using Cons.prems(2,3) by (intro unat_diff_eq_iff) simp
  then show ?case using Cons r by auto
qed


lemma length_fetch_results [simp]: "length (fetch_results k buf rs) = length buf"
  by (induction k buf rs rule: fetch_results.induct) simp_all

lemma fetchchunk_reliable:
  assumes "memcached_reliable api items"
  obtains rs where "fetchchunk api m k len = (SoOK, rs)"
    "set rs = {(MEMCACHED_SUCCESS, k', v) | k' v. (\<exists>i < unat len. k' = k + of_nat i) \<and> items m k' = Some v}"
proof -
  obtain rs where "memcached_mget api m (map (\<lambda>i. k + of_nat i) [0..<unat len]) = (MEMCACHED_SUCCESS, rs)"
    "set rs = {(MEMCACHED_SUCCESS, k', v) | k' v. k' \<in> set (map (\<lambda>i. k + of_nat i) [0..<unat len]) \<and> items m k' = Some v}"
    by (rule reliable_mget [OF assms])
  then show ?thesis
    by (intro that [of rs]) (auto simp: fetchchunk_def image_iff Bex_def)
qed

text \<open>One batch of \<^verbatim>\<open>MemcachedGetChunk\<close> fills its part of the buffer and leaves the rest alone.\<close>

lemma batch_spec:
  assumes rel: "memcached_reliable api items"
    and len: "offset + n \<le> length buf" "length buf < 4294967296"
    and fetch: "fetchchunk api m (k + of_nat offset) (of_nat n) = (st, rs)"
  shows "st = SoOK \<and> fetch_results k (overwrite buf offset (replicate n 0)) rs =
    map (\<lambda>j. if offset \<le> j \<and> j < offset + n then field_at (items m) (k + of_nat j) else buf ! j) [0..<length buf]"
proof -
  have n: "unat (of_nat n :: u32) = n" using len by (simp add: unat_of_nat_small)
  obtain rs' where "fetchchunk api m (k + of_nat offset) (of_nat n) = (SoOK, rs')"
    "set rs' = {(MEMCACHED_SUCCESS, k', v) | k' v.
      (\<exists>i < unat (of_nat n :: u32). k' = k + of_nat offset + of_nat i) \<and> items m k' = Some v}"
    by (rule fetchchunk_reliable [OF rel])
  then have st: "st = SoOK" and rs: "set rs = {(MEMCACHED_SUCCESS, k', v) | k' v.
      (\<exists>i < n. k' = k + of_nat offset + of_nat i) \<and> items m k' = Some v}"
    using fetch by (simp_all only: n prod.inject)
  have key: "(\<exists>v. (MEMCACHED_SUCCESS, k + of_nat j, v) \<in> set rs) \<longleftrightarrow>
      offset \<le> j \<and> j < offset + n \<and> items m (k + of_nat j) \<noteq> None" if "j < length buf" for j
  proof -
    have "(\<exists>i < n. k + of_nat j = k + of_nat offset + of_nat i) \<longleftrightarrow> offset \<le> j \<and> j < offset + n"
    proof
      assume "\<exists>i < n. k + of_nat j = k + of_nat offset + of_nat i"
      then obtain i where "i < n" "(of_nat j :: u64) = of_nat (offset + i)" by auto
      then have "j = offset + i"
        using that len by (subst (asm) of_nat_inject_small) auto
      then show "offset \<le> j \<and> j < offset + n" using \<open>i < n\<close> by simp
    next
      assume "offset \<le> j \<and> j < offset + n"
      then have "j - offset < n" "k + of_nat j = k + of_nat offset + of_nat (j - offset)"
        by (auto simp flip: of_nat_add simp: add.assoc)
      then show "\<exists>i < n. k + of_nat j = k + of_nat offset + of_nat i" by blast
    qed
    then show ?thesis using rs by auto
  qed
  have "fetch_results k (overwrite buf offset (replicate n 0)) rs ! j =
      (if offset \<le> j \<and> j < offset + n then field_at (items m) (k + of_nat j) else buf ! j)"
    if "j < length buf" for j
    using fetch_results_nth [of rs "items m" j "overwrite buf offset (replicate n 0)" k] rs key [OF that] that len
    by (auto simp: field_at_def nth_overwrite split: option.splits)
  then show ?thesis using st len by (auto intro!: nth_equalityI)
qed

lemma MemcachedGetChunk_loop_spec:
  assumes rel: "memcached_reliable api items"
    and len: "len \<le> length buf" "length buf < 4294967296" "offset < len \<or> ret = Some SoOK"
  shows "MemcachedGetChunk_loop api m k len offset ret buf =
    (Some SoOK, map (\<lambda>j. if offset \<le> j \<and> j < len then field_at (items m) (k + of_nat j) else buf ! j)
       [0..<length buf])"
  using len
proof (induction "len - offset" arbitrary: offset ret buf rule: less_induct)
  case less
  show ?case
  proof (cases "offset < len")
    case False
    then have "map (\<lambda>j. if offset \<le> j \<and> j < len then field_at (items m) (k + of_nat j) else buf ! j)
        [0..<length buf] = buf"
      by (intro nth_equalityI) auto
    with False less.prems show ?thesis by (simp add: MemcachedGetChunk_loop.simps)
  next
    case True
    define n where "n = (if offset + MEMCACHED_FETCH_BATCH < len then MEMCACHED_FETCH_BATCH else len - offset)"
    obtain st rs where f: "fetchchunk api m (k + of_nat offset) (of_nat n) = (st, rs)" by fastforce
    have n: "offset + n \<le> length buf" using less.prems True by (auto simp: n_def)
    note b = batch_spec [OF rel n less.prems(2) f]
    let ?buf = "fetch_results k (overwrite buf offset (replicate n 0)) rs"
    have "MemcachedGetChunk_loop api m k len offset ret buf =
        MemcachedGetChunk_loop api m k len (offset + MEMCACHED_FETCH_BATCH) (Some st) ?buf"
      using True f by (subst MemcachedGetChunk_loop.simps) (simp add: Let_def n_def)
    also have "\<dots> = (Some SoOK, map (\<lambda>j. if offset + MEMCACHED_FETCH_BATCH \<le> j \<and> j < len
        then field_at (items m) (k + of_nat j) else ?buf ! j) [0..<length ?buf])"
      using less.prems True b n by (intro less.hyps) (auto simp: MEMCACHED_FETCH_BATCH_def)
    finally show ?thesis
      using b n less.prems by (auto intro!: nth_equalityI simp: n_def)
  qed
qed
lemma smc_getchunk_spec:
  assumes "memcached_reliable api items" "dsm_range fld (unat len)" "unat len = length buf" "0 < unat len"
  shows "MemcachedGetChunk api m (MAKE64 key fld) len buf =
    (Some SoOK, dsm_read (smc_mem items m) key fld (unat len))"
proof -
  have "field_at (items m) (MAKE64 key fld + of_nat j) = smc_mem items m key (fld + of_nat j)"
    if "j < unat len" for j
  proof -
    have lt: "unat fld + j < 4294967295" using assms(2) that by (simp add: dsm_range_def)
    then have "fld + of_nat j \<noteq> 0xFFFFFFFF"
      by (intro unat_less_header) (simp add: unat_add_of_nat)
    then show ?thesis using lt by (simp add: MAKE64_add smc_mem_def)
  qed
  then show ?thesis
    using MemcachedGetChunk_loop_spec [OF assms(1), of "unat len" buf 0 None m "MAKE64 key fld"] assms(3,4)
      unat_u32_less [of len]
    by (auto simp: MemcachedGetChunk_def dsm_read_def)
qed

lemma smc_get_spec:
  assumes "memcached_reliable api items" "dsm_range fld 1"
  shows "smc_get api m key fld = Ret (smc_mem items m key fld)"
proof (cases "items m (MAKE64 key fld)")
  case None
  then obtain v where "memcached_get api m (MAKE64 key fld) = (v, MEMCACHED_NOTFOUND)"
    using reliable_get_None [OF assms(1)] by blast
  with None show ?thesis by (simp add: smc_get_def smc_mem_def field_at_def)
next
  case (Some v)
  have "fld \<noteq> 0xFFFFFFFF" using assms(2) by (intro unat_less_header) (simp add: dsm_range_def)
  with reliable_get_Some [OF assms(1) Some] Some show ?thesis
    by (simp add: smc_get_def smc_mem_def field_at_def)
qed

lemma smc_getinfo_spec:
  assumes "memcached_reliable api items"
  shows "smc_getinfo api m key = (if smc_info items m key = None then SoFail else SoOK, smc_info items m key)"
proof (cases "items m (MAKE64 key 0xFFFFFFFF)")
  case None
  then obtain v where "memcached_get api m (MAKE64 key 0xFFFFFFFF) = (v, MEMCACHED_NOTFOUND)"
    using reliable_get_None [OF assms(1)] by blast
  with None show ?thesis by (simp add: smc_getinfo_def smc_info_def)
next
  case (Some v)
  with reliable_get_Some [OF assms Some] show ?thesis by (simp add: smc_getinfo_def smc_info_def)
qed

lemma smc_putchunk_spec:
  assumes "memcached_reliable api items" "dsm_range fld (unat len)" "unat len \<le> length buf"
  shows "\<exists>m'. smc_putchunk32 api m key fld len buf = (m', SoOK) \<and>
    smc_mem items m' = dsm_write (smc_mem items m) key fld (take (unat len) buf) \<and>
    smc_info items m' = smc_info items m"
  using MemcachedPutChunk_loop_spec [OF assms(1), of 0 len buf fld key m SoOK] assms
  by (simp add: smc_putchunk32_def dsm_range_def)

lemma smc_put32_spec:
  assumes "memcached_reliable api items" "dsm_range fld 1"
  shows "\<exists>m'. smc_put32 api m key fld v = (m', SoOK) \<and>
    smc_mem items m' = dsm_write (smc_mem items m) key fld [v] \<and> smc_info items m' = smc_info items m"
proof -
  have fld: "unat fld < 4294967295" using assms(2) by (simp add: dsm_range_def)
  obtain m' where m': "memcached_set api m (MAKE64 key fld) (u32_bytes v) = (m', MEMCACHED_SUCCESS)"
      "items m' = (items m)(MAKE64 key fld \<mapsto> u32_bytes v)"
    by (rule reliable_set [OF assms(1)])
  then show ?thesis
    using smc_mem_update [OF m'(2) fld] smc_info_update [OF m'(2) unat_less_header [OF fld]]
    by (simp add: smc_put32_def memcached_put_def)
qed

lemma header_words: "words_of_bytes (bytes_of_words [flag, sz]) = [flag, sz]"
  by (rule words_of_bytes_of_words)

lemma smc_newobj_spec:
  assumes "memcached_reliable api items" "smc_info items m key = None"
  shows "\<exists>m'. smc_newobj api m key flag sz = (m', SoOK) \<and> smc_mem items m' = smc_mem items m \<and>
    smc_info items m' = (smc_info items m)(key \<mapsto> (flag, sz))"
proof -
  have "items m (MAKE64 key 0xFFFFFFFF) = None" using assms(2) by (simp add: smc_info_def)
  then obtain m' where m': "memcached_add api m (MAKE64 key 0xFFFFFFFF) (bytes_of_words [flag, sz]) = (m', MEMCACHED_SUCCESS)"
      "items m' = (items m)(MAKE64 key 0xFFFFFFFF \<mapsto> bytes_of_words [flag, sz])"
    by (rule reliable_add_free [OF assms(1)])
  then show ?thesis
    using header_words by (auto simp: smc_newobj_def smc_mem_def smc_info_def field_at_def fun_eq_iff
      simp del: bytes_of_words_simps)
qed

lemma smc_items_cong:
  "items m' = items m \<Longrightarrow> smc_mem items m' = smc_mem items m"
  "items m' = items m \<Longrightarrow> smc_info items m' = smc_info items m"
  by (auto simp: smc_mem_def smc_info_def intro!: ext)

lemma smc_newobj_taken_spec:
  assumes "memcached_reliable api items" "smc_info items m key \<noteq> None"
  shows "\<exists>m'. smc_newobj api m key flag sz = (m', SoFail) \<and> smc_mem items m' = smc_mem items m \<and>
    smc_info items m' = smc_info items m"
proof -
  have "items m (MAKE64 key 0xFFFFFFFF) \<noteq> None" using assms(2) by (simp add: smc_info_def)
  then obtain m' rc where m': "memcached_add api m (MAKE64 key 0xFFFFFFFF) (bytes_of_words [flag, sz]) = (m', rc)"
      "rc \<noteq> MEMCACHED_SUCCESS" "items m' = items m"
    by (rule reliable_add_taken [OF assms(1)])
  then show ?thesis using smc_items_cong [of items m' m] by (simp add: smc_newobj_def)
qed

lemma smc_del_spec:
  assumes rel: "memcached_reliable api items" and "smc_info items m key = Some (flag, sz)"
    and "unat sz \<le> 2 ^ 32 - 32"
  shows "\<exists>m'. smc_del api m key = Ret (m', SoOK) \<and> smc_info items m' = (smc_info items m)(key := None) \<and>
    smc_mem items m' = (\<lambda>k f. if k = key \<and> unat f < unat sz then 0 else smc_mem items m k f)"
proof -
  let ?m = "fst (memcached_delete api (delete_fields api m key (unat sz)) (MAKE64 key 0xFFFFFFFF))"
  have it: "items ?m = (\<lambda>k. if (\<exists>f. k = MAKE64 key f \<and> unat f < unat sz) \<or> k = MAKE64 key 0xFFFFFFFF
      then None else items m k)"
    using reliable_delete_fields [OF rel, of "unat sz" m key] assms(3)
    by (auto simp: reliable_delete [OF rel] fun_eq_iff)
  have "smc_del api m key = Ret (?m, SoOK)"
    using smc_getinfo_spec [OF rel, of m key] assms(2) by (simp add: smc_del_def)
  moreover have "smc_info items ?m = (smc_info items m)(key := None)"
    using assms(3) by (auto simp: smc_info_def it fun_eq_iff)
  moreover have "smc_mem items ?m = (\<lambda>k f. if k = key \<and> unat f < unat sz then 0 else smc_mem items m k f)"
    by (auto simp: smc_mem_def field_at_def it fun_eq_iff)
  ultimately show ?thesis by blast
qed

lemmas SoStorageMemcached_simps =
  SoStorageMemcached_def smc_put64_def smc_putchunk64_def smc_getchunk64_def smc_getchunk32_def smc_getblock_def

interpretation smc: dsm_storage "SoStorageMemcached api" "\<lambda>m. memcached_reliable api items"
    "smc_mem items" "smc_info items"
  for api :: "'m memcached_api" and items
proof (unfold_locales, goal_cases)
  case (1 s fld len buf key)
  then show ?case using smc_putchunk_spec [of api items fld len buf s key] by (simp add: SoStorageMemcached_def)
next
  case (2 s fld len buf key)
  then show ?case by (simp add: SoStorageMemcached_simps smc_getchunk_spec)
next
  case (3 s fld key v)
  then show ?case by (simp add: SoStorageMemcached_def smc_put32_spec)
next
  case (4 s fld key)
  then show ?case by (simp add: SoStorageMemcached_def smc_get_spec)
next
  case (5 s fld buf key)
  then show ?case using smc_getchunk_spec [of api items fld 32 buf s key] by (simp add: SoStorageMemcached_simps)
next
  case (9 s key flag sz)
  then show ?case by (simp add: SoStorageMemcached_def smc_newobj_spec)
next
  case (10 s key flag sz)
  then show ?case by (simp add: SoStorageMemcached_def smc_newobj_taken_spec)
next
  case (11 s key)
  then show ?case by (simp add: SoStorageMemcached_def smc_getinfo_spec)
next
  case (12 s key flag sz)
  then show ?case using smc_del_spec [of api items s key flag sz] by (auto simp: SoStorageMemcached_def)
next
  case (13 s key)
  then show ?case by (simp add: SoStorageMemcached_def smc_del_def smc_getinfo_spec)
qed (simp_all add: SoStorageMemcached_simps)

end
