(* ===== verification/Dogee_ChunkMemcached.thy ===== *)
theory Dogee_ChunkMemcached
  imports Dogee_Memcached
begin

text \<open>
  The coarse-grained backend \<^verbatim>\<open>SoStorageChunkMemcached\<close> of \<^verbatim>\<open>Dogee/DogeeMemcachedStorage.cpp\<close>:
  one memcached item per block of 32 fields. A write that does not cover whole blocks reads the
  block, changes it and writes it back; a read fetches the blocks around the range in batches and
  copies the requested words. Everything not overridden is inherited from \<^verbatim>\<open>SoStorageMemcached\<close>.
  The backend is shown to meet the same storage contract.
\<close>

section \<open>SoStorageChunkMemcached\<close>

definition smk_del :: "'m memcached_api \<Rightarrow> 'm \<Rightarrow> ObjectKey \<Rightarrow> ('m \<times> SoStatus) cxx" where
  "smk_del api memc key =
     (case smc_getinfo api memc key of
        (st, None) \<Rightarrow> Indeterminate
      | (st, Some (flg, sz)) \<Rightarrow>
          let cnt = (if sz mod 32 = 0 then sz div 32 else sz div 32 + 1);
              memc1 = delete_fields api memc key (unat cnt)
          in Ret (fst (memcached_delete api memc1 (MAKE64 key 0xFFFFFFFF)), SoOK))"

definition fetchchunk2 :: "'m memcached_api \<Rightarrow> 'm \<Rightarrow> LongKey \<Rightarrow> u32 \<Rightarrow> SoStatus \<times> memcached_result list" where
  "fetchchunk2 api memc k len =
     (let true_len = len div 32 + (if len mod 32 \<noteq> 0 then 1 else 0);
          keys = map (\<lambda>i. k + of_nat i) [0..<unat true_len];
          (rc, results) = memcached_mget api memc keys
      in (if rc = MEMCACHED_SUCCESS then SoOK else SoFail, results))"

text \<open>The copy loop of \<^verbatim>\<open>getblock\<close>: \<^verbatim>\<open>buf[i] = pvalue[i]\<close> for every word of the block.\<close>

definition block_words :: "u8 list \<Rightarrow> u32 list" where
  "block_words pvalue = map (\<lambda>i. words_of_bytes pvalue ! i) [0..<DSM_CACHE_BLOCK_SIZE]"

fun block_results :: "u32 list \<Rightarrow> memcached_result list \<Rightarrow> u32 list" where
  "block_results buf [] = buf"
| "block_results buf ((rc, pkey, pvalue) # results) =
     block_results
       (if rc = MEMCACHED_SUCCESS then overwrite buf 0 (block_words pvalue) else buf) results"

definition smk_getblock ::
    "'m memcached_api \<Rightarrow> 'm \<Rightarrow> LongKey \<Rightarrow> u32 list \<Rightarrow> SoStatus option \<times> u32 list" where
  "smk_getblock api memc addr buf =
     (let k = (addr AND 0xffffffff00000000) OR ((addr AND 0xffffffff) div 32);
          buf1 = overwrite buf 0 (replicate DSM_CACHE_BLOCK_SIZE 0);
          (ret, results) = fetchchunk2 api memc k (of_nat DSM_CACHE_BLOCK_SIZE)
      in (Some ret, block_results buf1 results))"

text \<open>The local array \<^verbatim>\<open>buf\<close> is zeroed by \<^verbatim>\<open>getblock\<close> before anything reads it.\<close>

definition smk_get :: "'m memcached_api \<Rightarrow> 'm \<Rightarrow> ObjectKey \<Rightarrow> FieldKey \<Rightarrow> u32 cxx" where
  "smk_get api memc key fldid =
     (let k = MAKE64 key fldid;
          (st, buf) = smk_getblock api memc k (replicate DSM_CACHE_BLOCK_SIZE 0)
      in Ret (buf ! unat (k AND DSM_CACHE_LOW_MASK_64)))"

text \<open>
  The two loops of \<^verbatim>\<open>putchunk\<close> that fill the local block \<^verbatim>\<open>var\<close>: the first stops at \<^verbatim>\<open>k_start\<close> or
  \<^verbatim>\<open>k_tail\<close>, the second at \<^verbatim>\<open>k_tail\<close>.
\<close>

function fill_var :: "u32 \<Rightarrow> u32 \<Rightarrow> u32 list \<Rightarrow> u32 \<Rightarrow> u32 \<Rightarrow> u32 list \<Rightarrow> u32 \<times> u32 list" where
  "fill_var stop k_tail buf i idx var =
     (if i < stop \<and> i < k_tail then
        fill_var stop k_tail buf (i + 1) (idx + 1) (var[unat (i AND DSM_CACHE_LOW_MASK) := buf ! unat idx])
      else (idx, var))"
  by pat_completeness auto
termination
proof (relation "measure (\<lambda>(stop, k_tail, buf, i, idx, var). unat stop - unat i)")
  fix stop k_tail :: u32 and buf :: "u32 list" and i idx :: u32 and var :: "u32 list"
  assume "i < stop \<and> i < k_tail"
  then have "unat i < unat stop" by (simp add: word_less_nat_alt)
  moreover then have "unat (i + of_nat 1) = unat i + 1"
    using unat_u32_less [of stop] by (intro unat_add_of_nat) simp
  ultimately show "((stop, k_tail, buf, i + 1, idx + 1, var[unat (i AND DSM_CACHE_LOW_MASK) := buf ! unat idx]),
      (stop, k_tail, buf, i, idx, var)) \<in> measure (\<lambda>(stop, k_tail, buf, i, idx, var). unat stop - unat i)"
    by simp
qed simp

declare fill_var.simps [simp del]

text \<open>The loop over whole blocks; \<^verbatim>\<open>k_end\<close> is \<^verbatim>\<open>k_tail & DSM_CACHE_HIGH_MASK\<close>.\<close>

function put_blocks ::
    "'m memcached_api \<Rightarrow> ObjectKey \<Rightarrow> u32 \<Rightarrow> u32 list \<Rightarrow> u32 \<Rightarrow> u32 \<Rightarrow> 'm \<Rightarrow> SoStatus
     \<Rightarrow> u32 \<times> u32 \<times> 'm \<times> SoStatus" where
  "put_blocks api key k_tail buf i idx memc ret =
     (if i < k_tail AND DSM_CACHE_HIGH_MASK then
        case memcached_put api memc (MAKE64 key (i div 32))
               (bytes_of_words (take DSM_CACHE_BLOCK_SIZE (drop (unat idx) buf))) of (memc', rc) \<Rightarrow>
          put_blocks api key k_tail buf (i + 32) (idx + 32) memc'
            (if rc \<noteq> MEMCACHED_SUCCESS then SoFail else ret)
      else (i, idx, memc, ret))"
  by pat_completeness auto
termination
proof (relation "measure (\<lambda>(api, key, k_tail, buf, i, idx, memc, ret).
    unat (k_tail AND DSM_CACHE_HIGH_MASK) - unat i)")
  fix api :: "'m memcached_api" and key k_tail :: u32 and buf :: "u32 list" and i idx :: u32
    and memc :: 'm and ret :: SoStatus and x memc' rc
  assume "i < k_tail AND DSM_CACHE_HIGH_MASK"
  then have "unat i < unat k_tail div 32 * 32" by (simp add: word_less_nat_alt unat_and_high)
  moreover then have "unat (i + of_nat 32) = unat i + 32"
    using unat_u32_less [of k_tail] div_le_mono [of "unat k_tail" 4294967295 32]
    by (intro unat_add_of_nat) simp
  ultimately show "((api, key, k_tail, buf, i + 32, idx + 32, memc', if rc \<noteq> MEMCACHED_SUCCESS then SoFail else ret),
      (api, key, k_tail, buf, i, idx, memc, ret)) \<in> measure (\<lambda>(api, key, k_tail, buf, i, idx, memc, ret).
        unat (k_tail AND DSM_CACHE_HIGH_MASK) - unat i)"
    by (simp add: unat_and_high)
qed simp

declare put_blocks.simps [simp del]

text \<open>
  The step both ends of \<^verbatim>\<open>putchunk\<close> take: read the block of field \<^verbatim>\<open>blk\<close>, fill in the words of the
  buffer, write the block back.
\<close>

definition put_partial ::
    "'m memcached_api \<Rightarrow> ObjectKey \<Rightarrow> u32 \<Rightarrow> u32 \<Rightarrow> u32 \<Rightarrow> u32 list \<Rightarrow> u32 \<Rightarrow> u32 \<Rightarrow> 'm \<Rightarrow> SoStatus
     \<Rightarrow> u32 \<times> 'm \<times> SoStatus" where
  "put_partial api key blk stop k_tail buf i idx memc ret =
     (let var = snd (smk_getblock api memc (MAKE64 key blk) (replicate DSM_CACHE_BLOCK_SIZE 0));
          (idx', var') = fill_var stop k_tail buf i idx var;
          (memc', rc) = memcached_put api memc (MAKE64 key (blk div 32)) (bytes_of_words var')
      in (idx', memc', if rc \<noteq> MEMCACHED_SUCCESS then SoFail else ret))"

definition smk_putchunk32 ::
    "'m memcached_api \<Rightarrow> 'm \<Rightarrow> ObjectKey \<Rightarrow> FieldKey \<Rightarrow> u32 \<Rightarrow> u32 list \<Rightarrow> 'm \<times> SoStatus" where
  "smk_putchunk32 api memc key fldid len buf =
     (let k = fldid;
          k_tail = k + len;
          k_start = (if k AND DSM_CACHE_LOW_MASK \<noteq> 0
                     then (k AND DSM_CACHE_HIGH_MASK) + of_nat DSM_CACHE_BLOCK_SIZE else k);
          k_end = k_tail AND DSM_CACHE_HIGH_MASK;
          (idx1, memc1, ret1) =
            (if k < k_start then put_partial api key k k_start k_tail buf k 0 memc SoOK
             else (0, memc, SoOK));
          (i, idx2, memc2, ret2) = put_blocks api key k_tail buf k_start idx1 memc1 ret1
      in if idx2 < len \<and> k_end \<noteq> k_tail
         then snd (put_partial api key k_end k_tail k_tail buf i idx2 memc2 ret2)
         else (memc2, ret2))"

definition smk_putchunk64 ::
    "'m memcached_api \<Rightarrow> 'm \<Rightarrow> ObjectKey \<Rightarrow> FieldKey \<Rightarrow> u32 \<Rightarrow> u64 list \<Rightarrow> 'm \<times> SoStatus" where
  "smk_putchunk64 api memc key fldid len buf =
     smk_putchunk32 api memc key fldid (len * 2) (words_of_u64s buf)"

definition smk_put32 ::
    "'m memcached_api \<Rightarrow> 'm \<Rightarrow> ObjectKey \<Rightarrow> FieldKey \<Rightarrow> u32 \<Rightarrow> 'm \<times> SoStatus" where
  "smk_put32 api memc key fldid v = smk_putchunk32 api memc key fldid 1 [v]"

definition smk_put64 ::
    "'m memcached_api \<Rightarrow> 'm \<Rightarrow> ObjectKey \<Rightarrow> FieldKey \<Rightarrow> u64 \<Rightarrow> 'm \<times> SoStatus" where
  "smk_put64 api memc key fldid v = smk_putchunk32 api memc key fldid 2 (u64_words v)"

text \<open>The inner loop of \<^verbatim>\<open>do_getchunk\<close>: copy one fetched block into the output buffer.\<close>

function copy_block :: "u32 list \<Rightarrow> u32 list \<Rightarrow> nat \<Rightarrow> nat \<Rightarrow> nat \<Rightarrow> u32 list" where
  "copy_block buf pvalue i j len =
     (if i < DSM_CACHE_BLOCK_SIZE \<and> j < len
      then copy_block (buf[j := pvalue ! i]) pvalue (i + 1) (j + 1) len else buf)"
  by pat_completeness auto
termination
  by (relation "measure (\<lambda>(buf, pvalue, i, j, len). len - j)") auto

declare copy_block.simps [simp del]

fun chunk_results :: "LongKey \<Rightarrow> u32 \<Rightarrow> u32 \<Rightarrow> u32 list \<Rightarrow> memcached_result list \<Rightarrow> u32 list" where
  "chunk_results k offset len buf [] = buf"
| "chunk_results k offset len buf ((rc, pkey, pvalue) # results) =
     chunk_results k offset len
       (if rc = MEMCACHED_SUCCESS then
          let idx = (ucast (pkey - k) :: u32);
              i = (if idx = 0 then offset else 0);
              j = idx * of_nat DSM_CACHE_BLOCK_SIZE + i - offset
          in copy_block buf (words_of_bytes pvalue) (unat i) (unat j) (unat len)
        else buf)
       results"

definition do_getchunk ::
    "'m memcached_api \<Rightarrow> 'm \<Rightarrow> ObjectKey \<Rightarrow> FieldKey \<Rightarrow> u32 \<Rightarrow> u32 list \<Rightarrow> SoStatus \<times> u32 list" where
  "do_getchunk api memc key fldid len buf =
     (let k = MAKE64 key (fldid div 32);
          buf1 = overwrite buf 0 (replicate (unat len) 0);
          offset = fldid mod 32;
          (ret, results) = fetchchunk2 api memc k (len + offset)
      in (ret, chunk_results k offset len buf1 results))"

definition CHUNK_MEMCACHED_FETCH_BATCH :: nat where
  "CHUNK_MEMCACHED_FETCH_BATCH = 15000"

text \<open>
  The batches of \<^verbatim>\<open>splited_getchunk\<close>; the left result is its early \<^verbatim>\<open>return SoFail\<close>. Where the
  counter \<^verbatim>\<open>l\<close> wraps around, the next batch would be written behind the end of the caller's
  buffer, which C++ leaves undefined: the loop is cut off there.
\<close>

function getchunk_batches ::
    "'m memcached_api \<Rightarrow> 'm \<Rightarrow> ObjectKey \<Rightarrow> u32 \<Rightarrow> u32 \<Rightarrow> u32 \<Rightarrow> u32 list \<Rightarrow> u32 list + (u32 \<times> u32 list)" where
  "getchunk_batches api memc key fldid limit l buf =
     (if l < limit then
        case do_getchunk api memc key l (of_nat CHUNK_MEMCACHED_FETCH_BATCH)
               (take CHUNK_MEMCACHED_FETCH_BATCH (drop (unat (l - fldid)) buf)) of (st, part) \<Rightarrow>
          let buf' = overwrite buf (unat (l - fldid)) part;
              l' = l + of_nat CHUNK_MEMCACHED_FETCH_BATCH
          in if st \<noteq> SoOK then Inl buf'
             else if l' \<le> l then Inr (l', buf')
             else getchunk_batches api memc key fldid limit l' buf'
      else Inr (l, buf))"
  by pat_completeness auto
termination
  by (relation "measure (\<lambda>(api, memc, key, fldid, limit, l, buf). unat limit - unat l)")
    (auto simp: word_less_nat_alt word_le_nat_alt)

declare getchunk_batches.simps [simp del]

definition splited_getchunk ::
    "'m memcached_api \<Rightarrow> 'm \<Rightarrow> ObjectKey \<Rightarrow> FieldKey \<Rightarrow> u32 \<Rightarrow> u32 list \<Rightarrow> SoStatus \<times> u32 list" where
  "splited_getchunk api memc key fldid len buf =
     (case (if of_nat CHUNK_MEMCACHED_FETCH_BATCH \<le> len
            then getchunk_batches api memc key fldid
                   (fldid + len - of_nat CHUNK_MEMCACHED_FETCH_BATCH) fldid buf
            else Inr (fldid, buf)) of
        Inl buf' \<Rightarrow> (SoFail, buf')
      | Inr (l, buf') \<Rightarrow>
          let remain = fldid + len - l
          in if remain \<noteq> 0 then
               case do_getchunk api memc key l remain
                      (take (unat remain) (drop (unat (l - fldid)) buf')) of (st, part) \<Rightarrow>
                 (st, overwrite buf' (unat (l - fldid)) part)
             else (SoOK, buf'))"

definition smk_getchunk32 ::
    "'m memcached_api \<Rightarrow> 'm \<Rightarrow> ObjectKey \<Rightarrow> FieldKey \<Rightarrow> u32 \<Rightarrow> u32 list \<Rightarrow> SoStatus option \<times> u32 list" where
  "smk_getchunk32 api memc key fldid len buf = map_prod Some id (splited_getchunk api memc key fldid len buf)"

definition smk_getchunk64 ::
    "'m memcached_api \<Rightarrow> 'm \<Rightarrow> ObjectKey \<Rightarrow> FieldKey \<Rightarrow> u32 \<Rightarrow> u64 list \<Rightarrow> SoStatus option \<times> u64 list" where
  "smk_getchunk64 api memc key fldid len buf =
     map_prod Some u64s_of_words (splited_getchunk api memc key fldid (len * 2) (words_of_u64s buf))"

definition SoStorageChunkMemcached :: "'m memcached_api \<Rightarrow> 'm SoStorage" where
  "SoStorageChunkMemcached api = (SoStorageMemcached api)\<lparr>
     so_del := smk_del api, so_put64 := smk_put64 api, so_put32 := smk_put32 api, so_get := smk_get api,
     so_getchunk64 := smk_getchunk64 api, so_getchunk32 := smk_getchunk32 api,
     so_putchunk64 := smk_putchunk64 api, so_putchunk32 := smk_putchunk32 api,
     so_getblock := smk_getblock api \<rparr>"

section \<open>Blocks of the abstract memory\<close>

lemma div_32_less [key_simps]: "unat (w div 32 :: u32) = unat w div 32"
  by (simp add: unat_div)

lemma div_32_bound: "unat (w div 32 :: u32) < 134217728"
  using unat_u32_less [of w] by (simp add: unat_div)

lemma block_key:
  "(MAKE64 key fld AND 0xffffffff00000000) OR ((MAKE64 key fld AND 0xffffffff) div 32) = MAKE64 key (fld div 32)"
proof -
  have m: "(0xffffffff :: u64) = mask 32" "(0xffffffff00000000 :: u64) = NOT (mask 32)"
    by (simp_all add: mask_eq_exp_minus_1)
  have d: "w div 32 = drop_bit 5 w" for w :: "'a::len word"
    by (simp add: drop_bit_eq_div)
  show ?thesis
    unfolding m d MAKE64_def by (rule bit_word_eqI) (auto simp: bit_simps dest: bit_imp_le_length)
qed

definition smk_mem :: "('m \<Rightarrow> u64 \<Rightarrow> u8 list option) \<Rightarrow> 'm \<Rightarrow> dsm" where
  "smk_mem items m key fld =
     (case items m (MAKE64 key (fld div 32)) of None \<Rightarrow> 0 | Some v \<Rightarrow> words_of_bytes v ! (unat fld mod 32))"

definition smk_blocks :: "(u64 \<Rightarrow> u8 list option) \<Rightarrow> bool" where
  "smk_blocks it \<longleftrightarrow> (\<forall>key blk v. unat blk < 134217728 \<longrightarrow> it (MAKE64 key blk) = Some v \<longrightarrow>
     length (words_of_bytes v) = 32)"

definition smk_ok :: "'m memcached_api \<Rightarrow> ('m \<Rightarrow> u64 \<Rightarrow> u8 list option) \<Rightarrow> 'm \<Rightarrow> bool" where
  "smk_ok api items m \<longleftrightarrow> memcached_reliable api items \<and> smk_blocks (items m)"

lemma smk_blocksD:
  "smk_blocks it \<Longrightarrow> unat blk < 134217728 \<Longrightarrow> it (MAKE64 key blk) = Some v \<Longrightarrow> length (words_of_bytes v) = 32"
  by (auto simp: smk_blocks_def)

lemma smk_blocks_update:
  "smk_blocks it \<Longrightarrow> length ws = 32 \<Longrightarrow> smk_blocks (it(k \<mapsto> bytes_of_words ws))"
  by (auto simp: smk_blocks_def)

lemma in_block_iff:
  fixes f base :: u32
  assumes "unat base mod 32 = 0"
  shows "f div 32 = base div 32 \<longleftrightarrow> unat base \<le> unat f \<and> unat f < unat base + 32"
  using block_div [OF assms] by (simp add: word_unat_eq_iff unat_div)

lemma block_word:
  fixes base :: u32
  assumes "unat base mod 32 = 0" "i < 32"
  shows "(base + of_nat i) div 32 = base div 32" "unat (base + of_nat i) mod 32 = i"
proof -
  have "unat base + i < 4294967296"
    using assms unat_u32_less [of base] by (rule block_room)
  then have u: "unat (base + of_nat i) = unat base + i" by (simp add: unat_add_of_nat)
  show "unat (base + of_nat i) mod 32 = i" using u assms by (simp add: block_mod)
  show "(base + of_nat i) div 32 = base div 32"
    using in_block_iff [of base "base + of_nat i"] u assms by simp
qed

lemma smk_mem_block_update:
  assumes "items m' = (items m)(MAKE64 key (base div 32) \<mapsto> bytes_of_words ws)"
    "length ws = 32" "unat base mod 32 = 0"
  shows "smk_mem items m' = dsm_write (smk_mem items m) key base ws"
proof (intro ext)
  fix k f
  have "unat f mod 32 = unat f - unat base" if "f div 32 = base div 32"
  proof -
    have "unat base \<le> unat f" "unat f - unat base < 32"
      using that in_block_iff [OF assms(3), of f] by auto
    then show ?thesis using block_mod(1) [OF assms(3), of "unat f - unat base"] by simp
  qed
  then show "smk_mem items m' k f = dsm_write (smk_mem items m) key base ws k f"
    using assms in_block_iff [of base f] by (auto simp: smk_mem_def dsm_write_def)
qed

lemma dsm_write_in_block:
  assumes "p + length ws \<le> 32" "unat base mod 32 = 0"
  shows "dsm_write mem key base (overwrite (dsm_read mem key base 32) p ws)
    = dsm_write mem key (base + of_nat p) ws"
proof (cases "ws = []")
  case True
  have "dsm_write mem key base (dsm_read mem key base 32) k f = mem k f" for k f
  proof -
    have "base + of_nat (unat f - unat base) = f" if "unat base \<le> unat f"
      using that by (simp add: of_nat_diff)
    then show ?thesis by (auto simp: dsm_write_def dsm_read_def)
  qed
  with True show ?thesis by (auto simp: fun_eq_iff)
next
  case False
  then have p: "p < 32" using assms by (cases ws) auto
  then have u: "unat (base + of_nat p) = unat base + p"
    using block_room [OF assms(2) _ unat_u32_less] by (intro unat_add_of_nat) simp
  have "base + of_nat (unat f - unat base) = f" if "unat base \<le> unat f" for f
    using that by (simp add: of_nat_diff)
  then show ?thesis
    using assms p by (auto simp: dsm_write_def fun_eq_iff nth_overwrite u) (auto simp: dsm_read_def)
qed

lemma fetchchunk2_reliable:
  assumes "memcached_reliable api items"
  obtains rs where "fetchchunk2 api m k len = (SoOK, rs)"
    "set rs = {(MEMCACHED_SUCCESS, k', v) | k' v.
       (\<exists>i < (unat len + 31) div 32. k' = k + of_nat i) \<and> items m k' = Some v}"
proof -
  define n where "n = len div 32 + (if len mod 32 \<noteq> 0 then 1 else 0)"
  have z: "len mod 32 = 0 \<longleftrightarrow> unat len mod 32 = 0"
    by (simp add: word_unat_eq_iff unat_mod)
  have "unat (len div 32 + of_nat 1) = unat len div 32 + 1"
    using div_32_bound [of len] by (subst unat_add_of_nat) (simp_all add: unat_div)
  with z have n: "unat n = (unat len + 31) div 32"
    by (auto simp: n_def unat_div ceil_div_32)
  obtain rs where "memcached_mget api m (map (\<lambda>i. k + of_nat i) [0..<unat n]) = (MEMCACHED_SUCCESS, rs)"
    "set rs = {(MEMCACHED_SUCCESS, k', v) | k' v. k' \<in> set (map (\<lambda>i. k + of_nat i) [0..<unat n]) \<and> items m k' = Some v}"
    by (rule reliable_mget [OF assms])
  then show ?thesis
    using n by (intro that [of rs]) (auto simp: fetchchunk2_def Let_def image_iff Bex_def simp flip: n_def)
qed

lemma length_block_words [simp]: "length (block_words v) = 32"
  by (simp add: block_words_def)

lemma nth_block_words [simp]: "i < 32 \<Longrightarrow> block_words v ! i = words_of_bytes v ! i"
  by (simp add: block_words_def)

lemma block_results_same:
  assumes "set rs \<subseteq> {(MEMCACHED_SUCCESS, k, v)}" "length buf = 32" "rs \<noteq> []"
  shows "block_results buf rs = block_words v"
proof -
  have "block_results (block_words v) rs = block_words v"
    using assms(1) by (induction rs) (auto simp: overwrite_all)
  then show ?thesis
    using assms by (cases rs) (auto simp: overwrite_all)
qed

lemma smk_getblock_spec:
  assumes "smk_ok api items m" "length buf = 32"
  shows "smk_getblock api m (MAKE64 key fld) buf =
    (Some SoOK, dsm_read (smk_mem items m) key (fld AND DSM_CACHE_HIGH_MASK) 32)"
proof -
  let ?k = "MAKE64 key (fld div 32)" and ?base = "fld AND DSM_CACHE_HIGH_MASK"
  obtain rs where rs: "fetchchunk2 api m ?k 32 = (SoOK, rs)"
    "set rs = {(MEMCACHED_SUCCESS, k', v) | k' v. (\<exists>i < (unat (32 :: u32) + 31) div 32. k' = ?k + of_nat i) \<and> items m k' = Some v}"
    using assms(1) fetchchunk2_reliable [of api items m ?k 32] by (auto simp: smk_ok_def)
  then have set: "set rs = (case items m ?k of None \<Rightarrow> {} | Some v \<Rightarrow> {(MEMCACHED_SUCCESS, ?k, v)})"
    by (auto split: option.splits)
  have base: "unat ?base mod 32 = 0" "?base div 32 = fld div 32"
    by (simp_all add: key_simps word_unat_eq_iff)
  have read: "dsm_read (smk_mem items m) key ?base 32 =
      (case items m ?k of None \<Rightarrow> replicate 32 0 | Some v \<Rightarrow> block_words v)"
    by (rule nth_equalityI)
      (simp_all add: dsm_read_def smk_mem_def block_word [OF base(1)] base split: option.splits)
  have res: "block_results (replicate 32 0) rs =
      (case items m ?k of None \<Rightarrow> replicate 32 0 | Some v \<Rightarrow> block_words v)"
  proof (cases "items m ?k")
    case None
    with set show ?thesis by simp
  next
    case (Some v)
    with set have "set rs = {(MEMCACHED_SUCCESS, ?k, v)}" by simp
    with Some show ?thesis using block_results_same [of rs ?k v "replicate 32 0"] by fastforce
  qed
  show ?thesis
    using rs(1) assms(2) by (simp add: smk_getblock_def block_key overwrite_all read res)
qed

lemma high_aligned [simp]: "unat (w AND DSM_CACHE_HIGH_MASK) mod 32 = 0"
    "(w AND DSM_CACHE_HIGH_MASK) div 32 = w div 32"
  by (simp_all add: key_simps word_unat_eq_iff)

lemma high_plus_low: "(w AND DSM_CACHE_HIGH_MASK) + of_nat (unat w mod 32) = w"
proof -
  have "unat ((w AND DSM_CACHE_HIGH_MASK) + of_nat (unat w mod 32)) = unat w"
    using unat_u32_less [of w] by (subst unat_add_of_nat) (simp_all add: key_simps)
  then show ?thesis by (simp only: word_unat_eq_iff)
qed

lemma smk_put_block:
  assumes "smk_ok api items m" "length ws = 32"
  obtains m' where "memcached_put api m (MAKE64 key (fld div 32)) (bytes_of_words ws) = (m', MEMCACHED_SUCCESS)"
    "smk_ok api items m'" "smc_info items m' = smc_info items m"
    "smk_mem items m' = dsm_write (smk_mem items m) key (fld AND DSM_CACHE_HIGH_MASK) ws"
proof -
  obtain m' where m': "memcached_set api m (MAKE64 key (fld div 32)) (bytes_of_words ws) = (m', MEMCACHED_SUCCESS)"
      "items m' = (items m)(MAKE64 key (fld div 32) \<mapsto> bytes_of_words ws)"
    using assms(1) by (auto simp: smk_ok_def elim: reliable_set)
  have "unat (fld div 32) < 4294967295" using div_32_bound [of fld] by simp
  then have ne: "fld div 32 \<noteq> 0xFFFFFFFF" by (rule unat_less_header)
  show ?thesis
  proof (rule that)
    show "smk_ok api items m'" using assms m'(2) by (simp add: smk_ok_def smk_blocks_update)
    show "smc_info items m' = smc_info items m" by (rule smc_info_update [OF m'(2) ne])
    show "smk_mem items m' = dsm_write (smk_mem items m) key (fld AND DSM_CACHE_HIGH_MASK) ws"
      using assms m'(2) by (intro smk_mem_block_update) simp_all
  qed (simp add: memcached_put_def m'(1))
qed

text \<open>Read a block, change it, write it back: the step both ends of \<^verbatim>\<open>putchunk\<close> share.\<close>

lemma read_modify_write:
  assumes "smk_ok api items m" "unat fld mod 32 + length ws \<le> 32"
  obtains m' where
    "memcached_put api m (MAKE64 key (fld div 32)) (bytes_of_words (overwrite
       (snd (smk_getblock api m (MAKE64 key fld) (replicate 32 0))) (unat fld mod 32) ws)) = (m', MEMCACHED_SUCCESS)"
    "smk_ok api items m'" "smc_info items m' = smc_info items m"
    "smk_mem items m' = dsm_write (smk_mem items m) key fld ws"
proof -
  let ?base = "fld AND DSM_CACHE_HIGH_MASK"
  let ?var = "overwrite (dsm_read (smk_mem items m) key ?base 32) (unat fld mod 32) ws"
  have "length ?var = 32" using assms(2) by simp
  then obtain m' where "memcached_put api m (MAKE64 key (fld div 32)) (bytes_of_words ?var) = (m', MEMCACHED_SUCCESS)"
      "smk_ok api items m'" "smc_info items m' = smc_info items m"
      "smk_mem items m' = dsm_write (smk_mem items m) key ?base ?var"
    using smk_put_block [OF assms(1)] by metis
  then show ?thesis
    using that assms dsm_write_in_block [of "unat fld mod 32" ws ?base "smk_mem items m" key]
    by (simp add: smk_getblock_spec high_plus_low)
qed

lemma fill_var_spec:
  assumes "unat i \<le> unat e" "unat e = min (unat stop) (unat k_tail)" "unat e \<le> unat i div 32 * 32 + 32"
    and "length var = 32" "unat idx + (unat e - unat i) \<le> length buf" "unat idx + (unat e - unat i) < 4294967296"
  shows "fill_var stop k_tail buf i idx var =
    (idx + of_nat (unat e - unat i),
     if i = e then var else overwrite var (unat i mod 32) (take (unat e - unat i) (drop (unat idx) buf)))"
  using assms
proof (induction "unat e - unat i" arbitrary: i idx var)
  case 0
  then have "unat i = unat e" by linarith
  then have "i = e" by (simp add: word_unat_eq_iff)
  moreover then have "\<not> (i < stop \<and> i < k_tail)" using 0 by (auto simp: word_less_nat_alt)
  ultimately show ?case by (subst fill_var.simps) auto
next
  case (Suc n)
  then have lt: "unat i < unat e" "i < stop \<and> i < k_tail" by (auto simp: word_less_nat_alt)
  have i1: "unat (i + 1) = unat i + 1"
    using unat_add_of_nat [of i 1] lt unat_u32_less [of e] by simp
  have idx1: "unat (idx + 1) = unat idx + 1"
    using unat_add_of_nat [of idx 1] lt(1) Suc.prems(6) by simp
  have blk: "unat (i + 1) \<noteq> unat e \<Longrightarrow> unat (i + 1) div 32 = unat i div 32"
    using i1 lt(1) Suc.prems(3) by (intro div_nat_eqI) simp_all
  let ?var = "var[unat i mod 32 := buf ! unat idx]"
  have "fill_var stop k_tail buf i idx var = fill_var stop k_tail buf (i + 1) (idx + 1) ?var"
    using lt by (subst fill_var.simps) (simp add: key_simps)
  also have "\<dots> = (idx + 1 + of_nat (unat e - unat (i + 1)), if i + 1 = e then ?var
      else overwrite ?var (unat (i + 1) mod 32) (take (unat e - unat (i + 1)) (drop (unat (idx + 1)) buf)))"
  proof (rule Suc.hyps(1))
    show "unat e \<le> unat (i + 1) div 32 * 32 + 32"
      using Suc.prems(3) i1 div_le_mono [of "unat i" "unat (i + 1)" 32] by linarith
    show "unat (idx + 1) + (unat e - unat (i + 1)) \<le> length buf"
      using Suc.prems(5) i1 idx1 lt(1) by linarith
    show "unat (idx + 1) + (unat e - unat (i + 1)) < 4294967296"
      using Suc.prems(6) i1 idx1 lt(1) by linarith
    show "n = unat e - unat (i + 1)" using Suc.hyps(2) i1 by linarith
    show "unat (i + 1) \<le> unat e" using i1 lt(1) by linarith
    show "length ?var = 32" using Suc.prems(4) by simp
  qed (fact Suc.prems)+
  also have "idx + 1 + of_nat (unat e - unat (i + 1)) = idx + of_nat (unat e - unat i)"
    using i1 lt by (simp add: of_nat_diff)
  also have "(if i + 1 = e then ?var
      else overwrite ?var (unat (i + 1) mod 32) (take (unat e - unat (i + 1)) (drop (unat (idx + 1)) buf)))
    = overwrite var (unat i mod 32) (take (unat e - unat i) (drop (unat idx) buf))"
  proof -
    have "take (unat e - unat i) (drop (unat idx) buf) =
        buf ! unat idx # take (unat e - unat (i + 1)) (drop (unat (idx + 1)) buf)"
      using Cons_nth_drop_Suc [of "unat idx" buf] Suc.prems(5) lt(1) i1 idx1
      by (simp add: take_Cons' flip: Cons_nth_drop_Suc [of "unat idx" buf])
    moreover have "i + 1 \<noteq> e \<Longrightarrow> unat (i + 1) mod 32 = Suc (unat i mod 32)"
      using blk i1 by (simp add: word_unat_eq_iff modulo_nat_def Suc_diff_le)
    moreover have "i + 1 = e \<Longrightarrow> unat e - unat (i + 1) = 0" by simp
    ultimately show ?thesis using Suc.prems(4) by (auto simp: overwrite_Cons)
  qed
  finally show ?case using lt by (auto simp: word_unat_eq_iff)
qed

lemma put_blocks_spec:
  assumes "smk_ok api items m" "unat i mod 32 = 0" "unat i \<le> unat k_end" "k_end = k_tail AND DSM_CACHE_HIGH_MASK"
    and "dsm_range i (unat k_end - unat i)" "unat idx + (unat k_end - unat i) \<le> length buf"
      "unat idx + (unat k_end - unat i) < 4294967296"
  shows "\<exists>m'. put_blocks api key k_tail buf i idx m ret = (k_end, idx + (k_end - i), m', ret) \<and>
    smk_ok api items m' \<and> smc_info items m' = smc_info items m \<and>
    smk_mem items m' = dsm_write (smk_mem items m) key i (take (unat k_end - unat i) (drop (unat idx) buf))"
  using assms
proof (induction "unat k_end - unat i" arbitrary: i idx m rule: less_induct)
  case less
  show ?case
  proof (cases "i < k_end")
    case False
    then have "i = k_end" using less.prems(3) by (simp add: word_less_nat_alt word_unat_eq_iff)
    with less.prems show ?thesis by (subst put_blocks.simps) (simp add: word_less_nat_alt)
  next
    case True
    then have lt: "unat i < unat k_end" by (simp add: word_less_nat_alt)
    have kmod: "unat k_end mod 32 = 0" using less.prems(4) by simp
    have le: "unat i + 32 \<le> unat k_end" by (rule block_le [OF less.prems(2) kmod lt])
    have i32: "unat (i + 32) = unat i + 32"
      using unat_add_of_nat [of i 32] le unat_u32_less [of k_end] by simp
    have idx32: "unat (idx + 32) = unat idx + 32"
      using unat_add_of_nat [of idx 32] le less.prems by simp
    let ?ws = "take 32 (drop (unat idx) buf)"
    have len: "length ?ws = 32" using less.prems(6) le by simp
    have al: "i AND DSM_CACHE_HIGH_MASK = i"
      using less.prems(2) high_plus_low [of i] by simp
    obtain m1 where m1: "memcached_put api m (MAKE64 key (i div 32)) (bytes_of_words ?ws) = (m1, MEMCACHED_SUCCESS)"
        "smk_ok api items m1" "smc_info items m1 = smc_info items m"
        "smk_mem items m1 = dsm_write (smk_mem items m) key i ?ws"
      using smk_put_block [OF less.prems(1) len, of key i] al by metis
    obtain m2 where m2: "put_blocks api key k_tail buf (i + 32) (idx + 32) m1 ret =
          (k_end, idx + 32 + (k_end - (i + 32)), m2, ret)"
        "smk_ok api items m2" "smc_info items m2 = smc_info items m1"
        "smk_mem items m2 = dsm_write (smk_mem items m1) key (i + 32)
           (take (unat k_end - unat (i + 32)) (drop (unat (idx + 32)) buf))"
    proof -
      have "unat k_end - unat (i + 32) < unat k_end - unat i" using i32 le by linarith
      moreover have "unat (i + 32) mod 32 = 0" using i32 less.prems(2) by simp
      moreover have "unat (i + 32) \<le> unat k_end" using i32 le by simp
      moreover have "dsm_range (i + 32) (unat k_end - unat (i + 32))"
        using less.prems(5) i32 le by (simp add: dsm_range_def)
      moreover have "unat (idx + 32) + (unat k_end - unat (i + 32)) \<le> length buf"
        using less.prems(6) i32 idx32 le by linarith
      moreover have "unat (idx + 32) + (unat k_end - unat (i + 32)) < 4294967296"
        using less.prems(7) i32 idx32 le by linarith
      ultimately have "\<exists>m'. put_blocks api key k_tail buf (i + 32) (idx + 32) m1 ret =
          (k_end, idx + 32 + (k_end - (i + 32)), m', ret) \<and> smk_ok api items m' \<and>
          smc_info items m' = smc_info items m1 \<and> smk_mem items m' = dsm_write (smk_mem items m1) key (i + 32)
           (take (unat k_end - unat (i + 32)) (drop (unat (idx + 32)) buf))"
        using m1(2) less.prems(4) by (intro less.hyps) assumption+
      then show ?thesis using that by blast
    qed
    have "take (unat k_end - unat i) (drop (unat idx) buf) =
        ?ws @ take (unat k_end - unat (i + 32)) (drop (unat (idx + 32)) buf)"
      using take_add [of 32 "unat k_end - unat (i + 32)" "drop (unat idx) buf"] i32 idx32 le
      by (simp add: add.commute)
    then have "smk_mem items m2 = dsm_write (smk_mem items m) key i (take (unat k_end - unat i) (drop (unat idx) buf))"
      using m2(4) m1(4) dsm_write_append [of i ?ws "take (unat k_end - unat (i + 32)) (drop (unat (idx + 32)) buf)"]
        less.prems(5,6) len i32 idx32 le by simp
    moreover have "put_blocks api key k_tail buf i idx m ret = (k_end, idx + (k_end - i), m2, ret)"
      using True less.prems(4) m1(1) m2(1) by (subst put_blocks.simps) simp
    ultimately show ?thesis using m2 m1(3) by simp
  qed
qed

lemma length_copy_block [simp]: "length (copy_block buf pv i j len) = length buf"
proof (induction buf pv i j len rule: copy_block.induct)
  case (1 buf pv i j len)
  then show ?case by (subst copy_block.simps) auto
qed

lemma copy_block_nth:
  assumes "t < length buf"
  shows "copy_block buf pv i j len ! t =
    (if j \<le> t \<and> t < len \<and> t - j + i < 32 then pv ! (t - j + i) else buf ! t)"
  using assms
proof (induction buf pv i j len rule: copy_block.induct)
  case (1 buf pv i j len)
  show ?case
  proof (cases "i < 32 \<and> j < len")
    case False
    then show ?thesis by (subst copy_block.simps) auto
  next
    case True
    then have "copy_block buf pv i j len = copy_block (buf[j := pv ! i]) pv (i + 1) (j + 1) len"
      by (subst copy_block.simps) simp
    moreover have "j < t \<Longrightarrow> t - (j + 1) + (i + 1) = t - j + i" by simp
    ultimately show ?thesis
      using "1.IH" "1.prems" True by (cases "t = j") (auto simp: nth_list_update)
  qed
qed

lemma put_partial_spec:
  assumes ok: "smk_ok api items m"
    and e: "unat i \<le> unat e" "unat e = min (unat stop) (unat k_tail)" "unat e \<le> unat i div 32 * 32 + 32"
    and idx: "unat idx + (unat e - unat i) \<le> length buf" "unat idx + (unat e - unat i) < 4294967296"
  obtains m' where "put_partial api key i stop k_tail buf i idx m ret = (idx + (e - i), m', ret)"
    "smk_ok api items m'" "smc_info items m' = smc_info items m"
    "smk_mem items m' = dsm_write (smk_mem items m) key i (take (unat e - unat i) (drop (unat idx) buf))"
proof -
  let ?var = "snd (smk_getblock api m (MAKE64 key i) (replicate 32 0))"
  let ?ws = "take (unat e - unat i) (drop (unat idx) buf)"
  have len: "length ?ws = unat e - unat i" using idx(1) by simp
  have var: "length ?var = 32" using ok by (simp add: smk_getblock_spec)
  have fits: "unat i mod 32 + length ?ws \<le> 32"
    using len e(1,3) mod_mult_div_eq [of "unat i" 32] by linarith
  have "of_nat (unat e - unat i) = e - i" using e(1) by (simp add: of_nat_diff)
  moreover have "overwrite ?var (unat i mod 32) ?ws = ?var" if "i = e" using that by simp
  ultimately have fill: "fill_var stop k_tail buf i idx ?var = (idx + (e - i), overwrite ?var (unat i mod 32) ?ws)"
    using fill_var_spec [OF e var idx] by (simp split: if_splits)
  obtain m' where m': "memcached_put api m (MAKE64 key (i div 32)) (bytes_of_words (overwrite ?var (unat i mod 32) ?ws))
        = (m', MEMCACHED_SUCCESS)" "smk_ok api items m'" "smc_info items m' = smc_info items m"
      "smk_mem items m' = dsm_write (smk_mem items m) key i ?ws"
    by (rule read_modify_write [OF ok fits])
  then show ?thesis using that fill by (simp add: put_partial_def)
qed

lemma unat_k_start:
  assumes "unat fld \<le> 4294967264"
  shows "unat (if fld AND DSM_CACHE_LOW_MASK \<noteq> 0
      then (fld AND DSM_CACHE_HIGH_MASK) + of_nat DSM_CACHE_BLOCK_SIZE else fld) = (unat fld + 31) div 32 * 32"
proof (rule block_split [of "unat fld"])
  fix q r assume fld: "unat fld = 32 * q + r" "r < 32" "unat fld div 32 = q" "unat fld mod 32 = r"
  have al: "fld AND DSM_CACHE_LOW_MASK = 0 \<longleftrightarrow> r = 0"
    using fld(4) by (simp add: word_unat_eq_iff key_simps)
  show ?thesis
  proof (cases "r = 0")
    case True
    then show ?thesis using fld al by (simp add: ceil_div_32)
  next
    case False
    then have "unat ((fld AND DSM_CACHE_HIGH_MASK) + of_nat 32) = unat (fld AND DSM_CACHE_HIGH_MASK) + 32"
      using assms fld by (intro unat_add_of_nat) (simp add: key_simps)
    then show ?thesis using False fld al by (simp add: ceil_div_32 key_simps)
  qed
qed

lemma dsm_write_take:
  assumes "unat fld \<le> unat i" "unat i \<le> unat j" "unat j - unat fld \<le> length buf" "unat j \<le> 2 ^ 32 - 32"
  shows "dsm_write (dsm_write mem key fld (take (unat i - unat fld) buf)) key i
      (take (unat j - unat i) (drop (unat (i - fld)) buf)) = dsm_write mem key fld (take (unat j - unat fld) buf)"
proof -
  let ?a = "unat i - unat fld"
  have i: "fld + of_nat ?a = i" using assms(1) by (simp add: of_nat_diff)
  have eq: "take (unat j - unat fld) buf = take ?a buf @ take (unat j - unat i) (drop ?a buf)"
    using take_add [of ?a "unat j - unat i" buf] assms(1,2) by simp
  have "dsm_range fld (length (take (unat j - unat fld) buf))" "length (take ?a buf) = ?a"
    using assms by (simp_all add: dsm_range_def)
  then show ?thesis
    using dsm_write_append [of fld "take ?a buf" "take (unat j - unat i) (drop ?a buf)" mem key] i eq
    by (simp add: unat_sub_le [OF assms(1)])
qed

lemma smk_put_rest:
  assumes ok: "smk_ok api items m" and kend: "k_end = k_tail AND DSM_CACHE_HIGH_MASK"
    and rng: "unat fld \<le> unat k_start" "k_start \<le> k_end" "unat k_start mod 32 = 0"
      "unat k_tail \<le> 2 ^ 32 - 32" "unat k_tail - unat fld \<le> length buf"
    and mem: "smk_mem items m = dsm_write mem key fld (take (unat k_start - unat fld) buf)"
  shows "\<exists>m'. (case put_blocks api key k_tail buf k_start (k_start - fld) m SoOK of (i, idx2, memc2, ret2) \<Rightarrow>
      if idx2 < k_tail - fld \<and> k_end \<noteq> k_tail
      then snd (put_partial api key k_end k_tail k_tail buf i idx2 memc2 ret2) else (memc2, ret2)) = (m', SoOK) \<and>
    smk_ok api items m' \<and> smc_info items m' = smc_info items m \<and>
    smk_mem items m' = dsm_write mem key fld (take (unat k_tail - unat fld) buf)"
proof -
  have le: "unat k_start \<le> unat k_end" using rng(2) by (simp add: word_le_nat_alt)
  have kt: "unat k_end \<le> unat k_tail" "unat k_tail \<le> unat k_end div 32 * 32 + 32"
    using mod_mult_div_eq [of "unat k_tail" 32] mod_less_divisor [of 32 "unat k_tail"]
    by (simp_all add: kend key_simps)
  note less = unat_u32_less [of k_tail]
  have sub: "unat (k_start - fld) = unat k_start - unat fld" "unat (k_end - fld) = unat k_end - unat fld"
      "unat (k_tail - fld) = unat k_tail - unat fld"
    using rng(1) le kt(1) by (simp_all add: unat_sub_le)
  have prem: "dsm_range k_start (unat k_end - unat k_start)"
      "unat (k_start - fld) + (unat k_end - unat k_start) \<le> length buf"
      "unat (k_start - fld) + (unat k_end - unat k_start) < 4294967296"
    using rng le kt less sub by (simp_all add: dsm_range_def)
  obtain m2 where m2: "put_blocks api key k_tail buf k_start (k_start - fld) m SoOK =
        (k_end, k_start - fld + (k_end - k_start), m2, SoOK)"
      "smk_ok api items m2" "smc_info items m2 = smc_info items m"
      "smk_mem items m2 = dsm_write (smk_mem items m) key k_start
         (take (unat k_end - unat k_start) (drop (unat (k_start - fld)) buf))"
    using put_blocks_spec [OF ok rng(3) le kend prem] by blast
  have mem2: "smk_mem items m2 = dsm_write mem key fld (take (unat k_end - unat fld) buf)"
    using rng le kt unfolding m2(4) mem by (intro dsm_write_take) simp_all
  show ?thesis
  proof (cases "k_end = k_tail")
    case True
    then show ?thesis using m2 mem2 by simp
  next
    case False
    then have lt: "k_end - fld < k_tail - fld"
      using kt(1) sub rng(1) le by (simp add: word_less_nat_alt word_unat_eq_iff)
    obtain m3 where m3: "put_partial api key k_end k_tail k_tail buf k_end (k_end - fld) m2 SoOK =
          (k_end - fld + (k_tail - k_end), m3, SoOK)"
        "smk_ok api items m3" "smc_info items m3 = smc_info items m2"
        "smk_mem items m3 = dsm_write (smk_mem items m2) key k_end
           (take (unat k_tail - unat k_end) (drop (unat (k_end - fld)) buf))"
      by (rule put_partial_spec [OF m2(2), of k_end k_tail k_tail k_tail "k_end - fld" buf key SoOK])
        (use kt sub rng le less in auto)
    have "smk_mem items m3 = dsm_write mem key fld (take (unat k_tail - unat fld) buf)"
      using rng le kt unfolding m3(4) mem2 by (intro dsm_write_take) simp_all
    then show ?thesis using m2 m3 lt False by simp
  qed
qed

lemma smk_putchunk_spec:
  assumes ok: "smk_ok api items m" and rng: "dsm_range fld (unat len)" "unat len \<le> length buf"
  shows "\<exists>m'. smk_putchunk32 api m key fld len buf = (m', SoOK) \<and> smk_ok api items m' \<and>
    smk_mem items m' = dsm_write (smk_mem items m) key fld (take (unat len) buf) \<and>
    smc_info items m' = smc_info items m"
proof -
  define k_tail where "k_tail = fld + len"
  define k_start where "k_start = (if fld AND DSM_CACHE_LOW_MASK \<noteq> 0
      then (fld AND DSM_CACHE_HIGH_MASK) + of_nat DSM_CACHE_BLOCK_SIZE else fld)"
  define k_end where "k_end = k_tail AND DSM_CACHE_HIGH_MASK"
  define e where "e = min k_start k_tail"
  have tail: "unat k_tail = unat fld + unat len"
    using dsm_range_unat [OF rng(1), of "unat len"] by (simp add: k_tail_def)
  have start: "unat k_start = (unat fld + 31) div 32 * 32"
    unfolding k_start_def using rng(1) by (intro unat_k_start) (simp add: dsm_range_def)
  have kend: "unat k_end = unat k_tail div 32 * 32" by (simp add: k_end_def key_simps)
  have e: "unat e = min (unat k_start) (unat k_tail)"
    by (simp add: e_def min_def word_le_nat_alt)
  have fs: "unat fld \<le> unat k_start" "unat k_start \<le> unat fld div 32 * 32 + 32"
    using start by (rule_tac block_split [of "unat fld"], simp add: ceil_div_32)+
  have len32: "unat len < 4294967296" by (rule unat_u32_less)
  obtain m1 where m1: "(if fld < k_start then put_partial api key fld k_start k_tail buf fld 0 m SoOK
        else (0, m, SoOK)) = (e - fld, m1, SoOK)"
      "smk_ok api items m1" "smc_info items m1 = smc_info items m"
      "smk_mem items m1 = dsm_write (smk_mem items m) key fld (take (unat e - unat fld) buf)"
  proof (cases "fld < k_start")
    case True
    show ?thesis
      by (rule put_partial_spec [OF ok, of fld e k_start k_tail 0 buf key SoOK])
        (use True that e fs tail rng len32 in auto)
  next
    case False
    then have "e = fld" using fs(1) e tail
      by (simp add: word_unat_eq_iff word_less_nat_alt)
    then show ?thesis using that [of m] False ok by simp
  qed
  have unf: "smk_putchunk32 api m key fld len buf =
      (case put_blocks api key k_tail buf k_start (e - fld) m1 SoOK of (i, idx2, memc2, ret2) \<Rightarrow>
        if idx2 < len \<and> k_end \<noteq> k_tail
        then snd (put_partial api key k_end k_tail k_tail buf i idx2 memc2 ret2) else (memc2, ret2))"
    unfolding smk_putchunk32_def Let_def k_tail_def [symmetric] k_start_def [symmetric] k_end_def [symmetric] m1(1)
    by simp
  show ?thesis
  proof (cases "k_start \<le> k_end")
    case False
    then have "unat k_tail div 32 < (unat fld + 31) div 32"
      using start kend by (simp add: word_le_nat_alt)
    then have lt: "unat k_tail < unat k_start" using start
      by (metis div_less_iff_less_mult not_less zero_less_numeral)
    then have et: "e = k_tail" by (simp add: e_def word_less_nat_alt)
    have "put_blocks api key k_tail buf k_start (e - fld) m1 SoOK = (k_start, e - fld, m1, SoOK)"
      using False by (subst put_blocks.simps) (auto simp: k_end_def)
    moreover have "k_tail - fld = len" by (simp add: k_tail_def)
    ultimately show ?thesis using m1 tail by (simp add: unf et)
  next
    case True
    then have et: "e = k_start"
      using kend e tail by (simp add: e_def min_def word_le_nat_alt) (metis div_times_less_eq_dividend le_trans)
    have len: "k_tail - fld = len" by (simp add: k_tail_def)
    obtain m2 where "(case put_blocks api key k_tail buf k_start (k_start - fld) m1 SoOK of (i, idx2, memc2, ret2) \<Rightarrow>
        if idx2 < k_tail - fld \<and> k_end \<noteq> k_tail
        then snd (put_partial api key k_end k_tail k_tail buf i idx2 memc2 ret2) else (memc2, ret2)) = (m2, SoOK)"
      "smk_ok api items m2" "smc_info items m2 = smc_info items m1"
      "smk_mem items m2 = dsm_write (smk_mem items m) key fld (take (unat k_tail - unat fld) buf)"
      using smk_put_rest [OF m1(2) k_end_def fs(1) True, of buf "smk_mem items m" key] m1(4) start tail rng
      by (auto simp: et dsm_range_def)
    then show ?thesis using m1(3) tail by (simp add: unf et len)
  qed
qed

lemma smk_ok_reliable: "smk_ok api items m \<Longrightarrow> memcached_reliable api items"
  by (simp add: smk_ok_def)

text \<open>Where the words of the block with index \<open>b\<close> land in the output buffer.\<close>

lemma copy_target:
  assumes "off < (32::nat)" "i0 = (if b = 0 then off else 0)" "j = 32 * b + i0 - off"
  shows "j \<le> t \<and> t - j + i0 < 32 \<longleftrightarrow> (t + off) div 32 = b"
    "(t + off) div 32 = b \<Longrightarrow> t - j + i0 = (t + off) mod 32"
proof -
  have j: "j + off = 32 * b + i0" "i0 \<le> off" using assms by auto
  show "j \<le> t \<and> t - j + i0 < 32 \<longleftrightarrow> (t + off) div 32 = b"
    using j assms by (rule_tac block_split [of "t + off"]) auto
  show "(t + off) div 32 = b \<Longrightarrow> t - j + i0 = (t + off) mod 32"
    using j assms by (rule_tac block_split [of "t + off"]) auto
qed

lemma length_chunk_results [simp]: "length (chunk_results k offset len buf rs) = length buf"
  by (induction k offset len buf rs rule: chunk_results.induct) (simp_all add: Let_def)

lemma ucast_of_nat_32: "(ucast (of_nat b :: u64) :: u32) = of_nat b"
  by (simp add: word_unat_eq_iff unsigned_ucast_eq unsigned_of_nat)

lemma chunk_result_step:
  assumes "b < 134217728" "unat offset < 32" "t < unat len" "unat len \<le> length buf"
  shows "chunk_results k offset len buf [(MEMCACHED_SUCCESS, k + of_nat b, v)] ! t =
    (if (t + unat offset) div 32 = b then words_of_bytes v ! ((t + unat offset) mod 32) else buf ! t)"
proof -
  define i0 where "i0 = (if b = 0 then unat offset else 0)"
  define j where "j = 32 * b + i0 - unat offset"
  have b0: "(of_nat b :: u32) = 0 \<longleftrightarrow> b = 0"
    using assms(1) of_nat_inject_small [where 'a=32, of b 0] by simp
  then have i0: "unat (if (of_nat b :: u32) = 0 then offset else 0) = i0" by (simp add: i0_def)
  have "of_nat b * of_nat DSM_CACHE_BLOCK_SIZE + (if (of_nat b :: u32) = 0 then offset else 0) - offset = of_nat j"
    using b0 assms(1,2) by (auto simp: j_def i0_def of_nat_diff)
  moreover have "j < 4294967296" using assms(1,2) by (auto simp: j_def i0_def)
  ultimately have j: "unat (of_nat b * of_nat DSM_CACHE_BLOCK_SIZE
      + (if (of_nat b :: u32) = 0 then offset else 0) - offset) = j"
    by (simp add: unat_of_nat_small)
  show ?thesis
    using copy_block_nth [of t buf "words_of_bytes v" i0 j "unat len"] copy_target [OF assms(2) i0_def j_def, of t] assms
    unfolding chunk_results.simps Let_def add_diff_cancel_left' ucast_of_nat_32 i0 j by auto
qed

lemma chunk_results_Cons:
  "chunk_results k offset len buf (r # rs) = chunk_results k offset len (chunk_results k offset len buf [r]) rs"
  by (cases r) simp

lemma chunk_results_nth:
  assumes "\<forall>r\<in>set rs. \<exists>b v. b < 134217728 \<and> r = (MEMCACHED_SUCCESS, k + of_nat b, v) \<and> it (k + of_nat b) = Some v"
    and "unat offset < 32" "t < unat len" "unat len \<le> length buf" "unat len + 32 \<le> 4294967296"
  shows "chunk_results k offset len buf rs ! t =
    (if \<exists>v. (MEMCACHED_SUCCESS, k + of_nat ((t + unat offset) div 32), v) \<in> set rs
     then words_of_bytes (the (it (k + of_nat ((t + unat offset) div 32)))) ! ((t + unat offset) mod 32)
     else buf ! t)"
  using assms
proof (induction rs arbitrary: buf)
  case Nil
  then show ?case by simp
next
  case (Cons r rs)
  then obtain b v where r: "r = (MEMCACHED_SUCCESS, k + of_nat b, v)" "b < 134217728" "it (k + of_nat b) = Some v"
    by auto
  have "t + unat offset < 4294967296" using Cons.prems by simp
  then have "(of_nat b :: u64) = of_nat ((t + unat offset) div 32) \<longleftrightarrow> b = (t + unat offset) div 32"
    using r(2) by (intro of_nat_inject_small) simp_all
  moreover define buf1 where "buf1 = chunk_results k offset len buf [r]"
  moreover have "chunk_results k offset len buf1 rs ! t =
    (if \<exists>v. (MEMCACHED_SUCCESS, k + of_nat ((t + unat offset) div 32), v) \<in> set rs
     then words_of_bytes (the (it (k + of_nat ((t + unat offset) div 32)))) ! ((t + unat offset) mod 32)
     else buf1 ! t)"
    using Cons.prems by (intro Cons.IH) (auto simp: buf1_def)
  moreover have "buf1 ! t = (if (t + unat offset) div 32 = b then words_of_bytes v ! ((t + unat offset) mod 32)
      else buf ! t)"
    unfolding buf1_def r(1) by (rule chunk_result_step [OF r(2) Cons.prems(2-4)])
  ultimately show ?case
    unfolding chunk_results_Cons [of k offset len buf r rs] buf1_def [symmetric] using r(1,3) by auto
qed

lemma block_offset:
  fixes fld :: u32
  assumes "unat fld + t < 4294967296"
  shows "(fld + of_nat t) div 32 = fld div 32 + of_nat ((t + unat fld mod 32) div 32)"
    "unat (fld + of_nat t) mod 32 = (t + unat fld mod 32) mod 32"
proof -
  have u: "unat (fld + of_nat t) = unat fld + t" using assms by (simp add: unat_add_of_nat)
  have d: "(unat fld + t) div 32 = unat fld div 32 + (t + unat fld mod 32) div 32"
    by (rule block_split [of "unat fld"]) (simp add: add.assoc add.commute [of t])
  show "unat (fld + of_nat t) mod 32 = (t + unat fld mod 32) mod 32"
    unfolding u by (simp add: mod_add_right_eq add.commute)
  have "(unat fld + t) div 32 < 4294967296" using assms by simp
  then show "(fld + of_nat t) div 32 = fld div 32 + of_nat ((t + unat fld mod 32) div 32)"
    using d u by (simp add: word_unat_eq_iff unat_div unat_add_of_nat)
qed

lemma do_getchunk_spec:
  assumes ok: "smk_ok api items m" and rng: "dsm_range fld (unat len)" "length buf = unat len"
  shows "do_getchunk api m key fld len buf = (SoOK, dsm_read (smk_mem items m) key fld (unat len))"
proof -
  let ?k = "MAKE64 key (fld div 32)" and ?off = "fld mod 32"
  note rel = smk_ok_reliable [OF ok]
  have off: "unat ?off = unat fld mod 32" by (simp add: unat_mod)
  have "unat fld + unat len \<le> 4294967264" using rng(1) by (simp add: dsm_range_def)
  then have len: "unat fld mod 32 + unat len \<le> 4294967264"
    using mod_less_eq_dividend [of "unat fld" 32] by linarith
  then have "unat (len + of_nat (unat ?off)) = unat len + unat ?off"
    by (intro unat_add_of_nat) (simp add: off)
  then have sum: "unat (len + ?off) = unat len + unat fld mod 32" by (simp flip: off)
  obtain rs where rs: "fetchchunk2 api m ?k (len + ?off) = (SoOK, rs)"
    "set rs = {(MEMCACHED_SUCCESS, k', v) | k' v.
       (\<exists>i < (unat (len + ?off) + 31) div 32. k' = ?k + of_nat i) \<and> items m k' = Some v}"
    by (rule fetchchunk2_reliable [OF rel])
  have "chunk_results ?k ?off len (replicate (unat len) 0) rs ! t = smk_mem items m key (fld + of_nat t)"
    if t: "t < unat len" for t
  proof -
    let ?b = "(t + unat fld mod 32) div 32" and ?n = "(unat (len + ?off) + 31) div 32"
    have n: "?n \<le> 134217727" using len sum by simp
    have "(t + unat fld mod 32 + 32) div 32 \<le> ?n" using t sum by (intro div_le_mono) simp
    then have b: "?b < ?n" by simp
    have "unat (fld div 32) + ?b < 4294967296" using b n div_32_bound [of fld] by linarith
    then have key: "?k + of_nat ?b = MAKE64 key ((fld + of_nat t) div 32)"
      using block_offset(1) [of fld t] t \<open>unat fld + unat len \<le> 4294967264\<close> by (simp add: MAKE64_add)
    have "chunk_results ?k ?off len (replicate (unat len) 0) rs ! t =
      (if \<exists>v. (MEMCACHED_SUCCESS, ?k + of_nat ?b, v) \<in> set rs
       then words_of_bytes (the (items m (?k + of_nat ?b))) ! ((t + unat fld mod 32) mod 32)
       else replicate (unat len) 0 ! t)"
      unfolding off [symmetric]
    proof (rule chunk_results_nth)
      show "\<forall>r\<in>set rs. \<exists>b v. b < 134217728 \<and> r = (MEMCACHED_SUCCESS, ?k + of_nat b, v) \<and> items m (?k + of_nat b) = Some v"
      proof
        fix r assume "r \<in> set rs"
        then obtain b v where "b < ?n" "r = (MEMCACHED_SUCCESS, ?k + of_nat b, v)" "items m (?k + of_nat b) = Some v"
          using rs(2) by auto
        then show "\<exists>b v. b < 134217728 \<and> r = (MEMCACHED_SUCCESS, ?k + of_nat b, v) \<and> items m (?k + of_nat b) = Some v"
          using n by (intro exI [of _ b] exI [of _ v]) simp
      qed
    qed (use len t off in simp_all)
    moreover have "(\<exists>v. (MEMCACHED_SUCCESS, ?k + of_nat ?b, v) \<in> set rs) \<longleftrightarrow> items m (?k + of_nat ?b) \<noteq> None"
      using rs(2) b by auto
    ultimately show ?thesis
      using t block_offset(2) [of fld t] \<open>unat fld + unat len \<le> 4294967264\<close>
      by (auto simp: smk_mem_def simp flip: key split: option.splits)
  qed
  then have "chunk_results ?k ?off len (replicate (unat len) 0) rs = dsm_read (smk_mem items m) key fld (unat len)"
    by (intro nth_equalityI) (simp_all add: dsm_read_def)
  then show ?thesis using rs(1) rng(2) by (simp add: do_getchunk_def overwrite_all)
qed

text \<open>
  The invariant of the batches: the buffer already holds the words before \<open>l\<close>.
\<close>

definition filled :: "dsm \<Rightarrow> ObjectKey \<Rightarrow> FieldKey \<Rightarrow> nat \<Rightarrow> u32 \<Rightarrow> u32 list \<Rightarrow> bool" where
  "filled mem key fld n l buf \<longleftrightarrow> unat fld \<le> unat l \<and> unat l \<le> unat fld + n \<and> length buf = n \<and>
     take (unat l - unat fld) buf = dsm_read mem key fld (unat l - unat fld)"

lemma filled_step:
  assumes "filled mem key fld n l buf" "unat l + d \<le> unat fld + n" "dsm_range fld n"
  shows "filled mem key fld n (l + of_nat d) (overwrite buf (unat (l - fld)) (dsm_read mem key l d))"
proof -
  have l: "unat fld \<le> unat l" "unat l \<le> unat fld + n" "length buf = n"
      "take (unat l - unat fld) buf = dsm_read mem key fld (unat l - unat fld)"
    using assms(1) by (simp_all add: filled_def)
  have u: "unat (l + of_nat d) = unat l + d"
    using assms(2,3) by (intro unat_add_of_nat) (simp add: dsm_range_def)
  have "dsm_range fld (unat l - unat fld + d)" "fld + of_nat (unat l - unat fld) = l"
    using assms(2,3) l(1) by (simp_all add: dsm_range_def of_nat_diff)
  then have "dsm_read mem key fld (unat l - unat fld + d) = dsm_read mem key fld (unat l - unat fld) @ dsm_read mem key l d"
    using dsm_read_append [of fld "unat l - unat fld" d mem key] by simp
  then show ?thesis
    using l assms(2) u by (simp add: filled_def unat_sub_le overwrite_def add.commute)
qed

lemma getchunk_batches_spec:
  assumes ok: "smk_ok api items m" and rng: "dsm_range fld n" "unat limit + 15000 = unat fld + n"
    and "filled (smk_mem items m) key fld n l buf"
  shows "\<exists>l' buf'. getchunk_batches api m key fld limit l buf = Inr (l', buf') \<and>
    filled (smk_mem items m) key fld n l' buf'"
  using assms(4)
proof (induction "unat limit - unat l" arbitrary: l buf rule: less_induct)
  case less
  show ?case
  proof (cases "l < limit")
    case False
    then show ?thesis using less.prems by (subst getchunk_batches.simps) auto
  next
    case True
    let ?d = CHUNK_MEMCACHED_FETCH_BATCH
    have d: "?d = 15000" by (simp add: CHUNK_MEMCACHED_FETCH_BATCH_def)
    have lt: "unat l < unat limit" using True by (simp add: word_less_nat_alt)
    have l: "unat fld \<le> unat l" "length buf = n" using less.prems by (simp_all add: filled_def)
    have le: "unat l + ?d \<le> unat fld + n" using lt rng(2) d by simp
    have u: "unat (l + of_nat ?d) = unat l + ?d"
      using le rng(1) by (intro unat_add_of_nat) (simp add: dsm_range_def)
    have dw: "unat (of_nat ?d :: u32) = ?d" by (simp add: d unat_of_nat_small)
    have "do_getchunk api m key l (of_nat ?d) (take ?d (drop (unat (l - fld)) buf)) =
        (SoOK, dsm_read (smk_mem items m) key l (unat (of_nat ?d :: u32)))"
      using ok rng(1) le l by (intro do_getchunk_spec) (auto simp: dw dsm_range_def unat_sub_le)
    moreover have "\<not> l + of_nat ?d \<le> l" using u d by (simp add: word_le_nat_alt)
    moreover have "unat limit - unat (l + of_nat ?d) < unat limit - unat l" using u lt d by simp
    ultimately show ?thesis
      using True less.hyps [OF _ filled_step [OF less.prems le rng(1)]]
      by (subst getchunk_batches.simps) (simp add: Let_def dw)
  qed
qed

lemma splited_getchunk_spec:
  assumes ok: "smk_ok api items m" and rng: "dsm_range fld (unat len)" "unat len = length buf"
  shows "splited_getchunk api m key fld len buf = (SoOK, dsm_read (smk_mem items m) key fld (unat len))"
proof -
  let ?mem = "smk_mem items m" and ?d = "CHUNK_MEMCACHED_FETCH_BATCH"
  have tail: "unat (fld + len) = unat fld + unat len"
    using dsm_range_unat [OF rng(1), of "unat len"] by simp
  have init: "filled ?mem key fld (unat len) fld buf" using rng(2) by (simp add: filled_def dsm_read_def)
  have dw: "unat (of_nat ?d :: u32) = 15000"
    by (simp add: CHUNK_MEMCACHED_FETCH_BATCH_def)
  obtain l buf' where batches: "(if of_nat ?d \<le> len then getchunk_batches api m key fld (fld + len - of_nat ?d) fld buf
      else Inr (fld, buf)) = Inr (l, buf')" and l: "filled ?mem key fld (unat len) l buf'"
  proof (cases "of_nat ?d \<le> len")
    case False
    then show ?thesis using that init by simp
  next
    case True
    then have "unat (fld + len - of_nat ?d) + 15000 = unat fld + unat len"
      using dw tail by (subst unat_sub_le) (auto simp: word_le_nat_alt)
    from getchunk_batches_spec [OF ok rng(1) this init] True that show ?thesis by auto
  qed
  have le: "unat fld \<le> unat l" "unat l \<le> unat fld + unat len" "length buf' = unat len"
    using l by (simp_all add: filled_def)
  have remain: "unat (fld + len - l) = unat fld + unat len - unat l" using le tail by (simp add: unat_sub_le)
  show ?thesis
  proof (cases "fld + len - l = 0")
    case True
    then have "unat l = unat fld + unat len" using tail by simp
    then show ?thesis using l batches True by (auto simp: splited_getchunk_def filled_def)
  next
    case False
    have "do_getchunk api m key l (fld + len - l) (take (unat (fld + len - l)) (drop (unat (l - fld)) buf')) =
        (SoOK, dsm_read ?mem key l (unat (fld + len - l)))"
      using ok rng(1) le by (intro do_getchunk_spec) (auto simp: remain dsm_range_def unat_sub_le)
    moreover have "filled ?mem key fld (unat len) (l + of_nat (unat (fld + len - l)))
        (overwrite buf' (unat (l - fld)) (dsm_read ?mem key l (unat (fld + len - l))))"
      using le remain by (intro filled_step [OF l _ rng(1)]) simp
    ultimately show ?thesis
      using batches False tail by (auto simp: splited_getchunk_def filled_def)
  qed
qed

lemma smk_get_spec:
  assumes "smk_ok api items m"
  shows "smk_get api m key fld = Ret (smk_mem items m key fld)"
proof -
  have "unat (MAKE64 key fld) = 32 * (134217728 * unat key) + unat fld" by (simp add: key_simps)
  then have "unat (MAKE64 key fld AND DSM_CACHE_LOW_MASK_64) = unat fld mod 32"
    unfolding unat_and_low_64 by (simp only: mod_mult_self4)
  then show ?thesis
    using assms high_plus_low [of fld] by (simp add: smk_get_def smk_getblock_spec dsm_read_def)
qed

lemma smk_del_spec:
  assumes ok: "smk_ok api items m" and info: "smc_info items m key = Some (flag, sz)"
  shows "\<exists>m'. smk_del api m key = Ret (m', SoOK) \<and> smk_ok api items m' \<and>
    smc_info items m' = (smc_info items m)(key := None) \<and>
    smk_mem items m' = (\<lambda>k f. if k = key \<and> unat f < 32 * ((unat sz + 31) div 32) then 0 else smk_mem items m k f)"
proof -
  define cnt where "cnt = (if sz mod 32 = 0 then sz div 32 else sz div 32 + 1)"
  let ?m = "fst (memcached_delete api (delete_fields api m key (unat cnt)) (MAKE64 key 0xFFFFFFFF))"
  note rel = smk_ok_reliable [OF ok]
  have "unat (sz div 32 + of_nat 1) = unat (sz div 32) + 1"
    using div_32_bound [of sz] by (intro unat_add_of_nat) simp
  then have cnt: "unat cnt = (unat sz + 31) div 32" "unat cnt \<le> 134217728"
    using div_32_bound [of sz] by (auto simp: cnt_def ceil_div_32 word_unat_eq_iff unat_mod unat_div)
  have it: "items ?m = (\<lambda>k. if (\<exists>f. k = MAKE64 key f \<and> unat f < unat cnt) \<or> k = MAKE64 key 0xFFFFFFFF
      then None else items m k)"
    using reliable_delete_fields [OF rel, of "unat cnt" m key] cnt(2)
    by (auto simp: reliable_delete [OF rel] fun_eq_iff)
  have del: "smk_del api m key = Ret (?m, SoOK)"
    using smc_getinfo_spec [OF rel, of m key] info by (simp add: smk_del_def Let_def flip: cnt_def)
  have "smk_ok api items ?m" using ok by (auto simp: smk_ok_def smk_blocks_def it)
  moreover have "smc_info items ?m = (smc_info items m)(key := None)"
    using cnt(2) by (auto simp: smc_info_def it fun_eq_iff)
  moreover have "smk_mem items ?m = (\<lambda>k f. if k = key \<and> unat f < 32 * unat cnt then 0 else smk_mem items m k f)"
  proof -
    have "unat (f div 32) < unat cnt \<longleftrightarrow> unat f < 32 * unat cnt" for f :: u32
      by (simp add: unat_div div_less_iff_less_mult mult.commute)
    moreover have "f div 32 \<noteq> 0xFFFFFFFF" for f :: u32
      using div_32_bound [of f] by (intro unat_less_header) simp
    ultimately show ?thesis by (auto simp: smk_mem_def it fun_eq_iff)
  qed
  ultimately show ?thesis using del cnt(1) by auto
qed

lemma smk_newobj_spec:
  assumes ok: "smk_ok api items m"
  shows "smc_info items m key = None \<Longrightarrow> \<exists>m'. smc_newobj api m key flag sz = (m', SoOK) \<and> smk_ok api items m' \<and>
      smk_mem items m' = smk_mem items m \<and> smc_info items m' = (smc_info items m)(key \<mapsto> (flag, sz))"
    "smc_info items m key \<noteq> None \<Longrightarrow> \<exists>m'. smc_newobj api m key flag sz = (m', SoFail) \<and> smk_ok api items m' \<and>
      smk_mem items m' = smk_mem items m \<and> smc_info items m' = smc_info items m"
proof -
  note rel = smk_ok_reliable [OF ok]
  let ?h = "MAKE64 key 0xFFFFFFFF" and ?v = "bytes_of_words [flag, sz]"
  have ne: "f div 32 \<noteq> 0xFFFFFFFF" for f :: u32
    using div_32_bound [of f] by (intro unat_less_header) simp
  show "\<exists>m'. smc_newobj api m key flag sz = (m', SoOK) \<and> smk_ok api items m' \<and>
      smk_mem items m' = smk_mem items m \<and> smc_info items m' = (smc_info items m)(key \<mapsto> (flag, sz))"
    if "smc_info items m key = None"
  proof -
    have "items m ?h = None" using that by (simp add: smc_info_def)
    then obtain m' where m': "memcached_add api m ?h ?v = (m', MEMCACHED_SUCCESS)" "items m' = (items m)(?h \<mapsto> ?v)"
      by (rule reliable_add_free [OF rel])
    have "smk_ok api items m'" using ok m'(2) by (auto simp: smk_ok_def smk_blocks_def)
    moreover have "smk_mem items m' = smk_mem items m" using m'(2) ne by (auto simp: smk_mem_def fun_eq_iff)
    moreover have "smc_info items m' = (smc_info items m)(key \<mapsto> (flag, sz))"
      using m'(2) header_words by (auto simp: smc_info_def fun_eq_iff simp del: bytes_of_words_simps)
    ultimately show ?thesis using m'(1) by (simp add: smc_newobj_def del: bytes_of_words_simps)
  qed
  show "\<exists>m'. smc_newobj api m key flag sz = (m', SoFail) \<and> smk_ok api items m' \<and>
      smk_mem items m' = smk_mem items m \<and> smc_info items m' = smc_info items m"
    if "smc_info items m key \<noteq> None"
  proof -
    have "items m ?h \<noteq> None" using that by (simp add: smc_info_def)
    then obtain m' rc where m': "memcached_add api m ?h ?v = (m', rc)" "rc \<noteq> MEMCACHED_SUCCESS" "items m' = items m"
      by (rule reliable_add_taken [OF rel])
    then show ?thesis
      using ok smc_items_cong(2) [of items m' m] by (simp add: smc_newobj_def smk_ok_def smk_mem_def [abs_def])
  qed
qed

lemmas SoStorageChunkMemcached_simps =
  SoStorageChunkMemcached_def SoStorageMemcached_def smk_put64_def smk_putchunk64_def smk_getchunk64_def smk_getchunk32_def

interpretation smk: dsm_storage "SoStorageChunkMemcached api" "smk_ok api items" "smk_mem items" "smc_info items"
  for api :: "'m memcached_api" and items
proof (unfold_locales, goal_cases)
  case (1 s fld len buf key)
  then show ?case using smk_putchunk_spec [of api items s fld len buf key] by (auto simp: SoStorageChunkMemcached_simps)
next
  case (2 s fld len buf key)
  then show ?case by (simp add: SoStorageChunkMemcached_simps splited_getchunk_spec)
next
  case (3 s fld key v)
  then show ?case using smk_putchunk_spec [of api items s fld 1 "[v]" key]
    by (auto simp: SoStorageChunkMemcached_simps smk_put32_def)
next
  case (4 s fld key)
  then show ?case by (simp add: SoStorageChunkMemcached_simps smk_get_spec)
next
  case (5 s fld buf key)
  then have "fld AND DSM_CACHE_HIGH_MASK = fld" using high_plus_low [of fld] by simp
  with 5 show ?case by (simp add: SoStorageChunkMemcached_simps smk_getblock_spec)
next
  case (9 s key flag sz)
  then show ?case using smk_newobj_spec(1) [of api items s key flag sz] by (auto simp: SoStorageChunkMemcached_simps)
next
  case (10 s key flag sz)
  then show ?case using smk_newobj_spec(2) [of api items s key flag sz] by (auto simp: SoStorageChunkMemcached_simps)
next
  case (11 s key)
  then show ?case using smc_getinfo_spec [OF smk_ok_reliable, of api items s s key] by (simp add: SoStorageChunkMemcached_simps)
next
  case (12 s key flag sz)
  have "unat sz \<le> 32 * ((unat sz + 31) div 32)" by (rule block_split [of "unat sz"]) (simp add: ceil_div_32)
  then show ?case using smk_del_spec [OF 12(1,2)] by (auto simp: SoStorageChunkMemcached_simps)
next
  case (13 s key)
  then show ?case using smc_getinfo_spec [OF smk_ok_reliable, of api items s s key]
    by (simp add: SoStorageChunkMemcached_simps smk_del_def)
qed (simp_all add: SoStorageChunkMemcached_simps map_prod_def case_prod_unfold)

end
