(* ===== verification/Dogee_StorageFacts.thy ===== *)
theory Dogee_StorageFacts
  imports Dogee_ChunkMemcached
begin

text \<open>
  Properties of the two memcached backends: both refine the abstract shared memory on every
  sequence of calls, so a client cannot tell them apart; round trips of 64-bit chunks and of the
  decimal counters; the frame of a write inside a block; and how failures of the server are
  reported. The server \<open>server_api\<close> shows that the behaviour assumed of memcached is possible.
\<close>

section \<open>Decimal counters\<close>

lemma digits_value_append:
  "list_all isdigit xs \<Longrightarrow> digits_value acc (xs @ ys) = digits_value (digits_value acc xs) ys"
  by (induction xs arbitrary: acc) simp_all

lemma isdigit_of_nat: "d < 10 \<Longrightarrow> isdigit (of_nat (48 + d))" "d < 10 \<Longrightarrow> unat (of_nat (48 + d) :: u8) = 48 + d"
  by (simp_all add: isdigit_def unat_of_nat_small del: of_nat_add)

declare sprintf_lu.simps [simp del]

lemma sprintf_lu_digits: "list_all isdigit (sprintf_lu n)"
proof (induction n rule: sprintf_lu.induct)
  case (1 n)
  then show ?case
    by (subst sprintf_lu.simps) (simp add: isdigit_of_nat del: of_nat_add)
qed

lemma digits_value_sprintf: "digits_value 0 (sprintf_lu n) = n"
proof (induction n rule: sprintf_lu.induct)
  case (1 n)
  show ?case
  proof (cases "n < 10")
    case True
    then show ?thesis by (subst sprintf_lu.simps) (simp add: isdigit_of_nat del: of_nat_add)
  next
    case False
    then have "digits_value 0 (sprintf_lu n) = digits_value (digits_value 0 (sprintf_lu (n div 10))) [of_nat (48 + n mod 10)]"
      using sprintf_lu_digits [of "n div 10"] by (subst sprintf_lu.simps) (simp add: digits_value_append del: of_nat_add)
    also have "\<dots> = 10 * (n div 10) + n mod 10"
      using 1 False by (simp add: isdigit_of_nat del: of_nat_add)
    finally show ?thesis by simp
  qed
qed

lemma atoll_sprintf: "atoll (sprintf_lu n) = int n"
proof (cases "sprintf_lu n")
  case Nil
  then show ?thesis using sprintf_lu.simps [of n] by simp
next
  case (Cons c cs)
  then have "isdigit c" using sprintf_lu_digits [of n] by simp
  then have "\<not> isspace c" "unat c \<noteq> 45" "unat c \<noteq> 43" by (auto simp: isdigit_def isspace_def)
  then show ?thesis using digits_value_sprintf [of n] Cons by (simp add: atoll_def)
qed

section \<open>A server\<close>

text \<open>
  A memcached server that always answers, as a finite map: the instance that shows the assumed
  behaviour is possible, and the one the concrete runs use.
\<close>

type_synonym server = "u64 \<Rightarrow> u8 list option"

definition server_api :: "server memcached_api" where
  "server_api = \<lparr>
     memcached_set = (\<lambda>m k v. (m(k \<mapsto> v), MEMCACHED_SUCCESS)),
     memcached_add = (\<lambda>m k v. if m k = None then (m(k \<mapsto> v), MEMCACHED_SUCCESS) else (m, MEMCACHED_NOTSTORED)),
     memcached_get = (\<lambda>m k. case m k of None \<Rightarrow> ([], MEMCACHED_NOTFOUND) | Some v \<Rightarrow> (v, MEMCACHED_SUCCESS)),
     memcached_delete = (\<lambda>m k. (m(k := None), if m k = None then MEMCACHED_NOTFOUND else MEMCACHED_SUCCESS)),
     memcached_increment = (\<lambda>m k d. case m k of None \<Rightarrow> (m, 0, MEMCACHED_NOTFOUND)
       | Some v \<Rightarrow> let n = of_int (atoll v) + d in (m(k \<mapsto> sprintf_lu (unat n)), n, MEMCACHED_SUCCESS)),
     memcached_mget = (\<lambda>m ks. (MEMCACHED_SUCCESS,
       concat (map (\<lambda>k. case m k of None \<Rightarrow> [] | Some v \<Rightarrow> [(MEMCACHED_SUCCESS, k, v)]) ks))) \<rparr>"

lemma server_reliable: "memcached_reliable server_api id"
proof -
  have "memcached_mget_spec server_api id"
    by (auto simp: memcached_mget_spec_def server_api_def split: option.splits)
  moreover have "memcached_increment_spec server_api id"
    by (simp add: memcached_increment_spec_def server_api_def atoll_sprintf Let_def)
  ultimately show ?thesis
    by (auto simp: memcached_reliable_def memcached_set_spec_def memcached_add_spec_def memcached_get_spec_def
        memcached_delete_spec_def server_api_def split: option.splits)
qed

lemma server_empty:
  "smk_ok server_api id Map.empty"
  "smk_mem id Map.empty = (\<lambda>_ _. 0)" "smc_mem id Map.empty = (\<lambda>_ _. 0)" "smc_info id Map.empty = Map.empty"
  by (simp_all add: smk_ok_def server_reliable smk_blocks_def smk_mem_def smc_mem_def field_at_def smc_info_def fun_eq_iff)

section \<open>Counters and write loops\<close>

lemma counter_item:
  assumes "memcached_reliable api items"
  obtains memc' where "smc_setcounter api memc key fldid n = (memc', SoOK)"
    "items memc' = (items memc)(MAKE64 key fldid \<mapsto> sprintf_lu (unat n))"
proof -
  obtain memc' where "memcached_set api memc (MAKE64 key fldid) (sprintf_lu (unat n)) = (memc', MEMCACHED_SUCCESS)"
      "items memc' = (items memc)(MAKE64 key fldid \<mapsto> sprintf_lu (unat n))"
    by (rule reliable_set [OF assms])
  then show ?thesis by (intro that) (simp_all add: smc_setcounter_def)
qed

lemma getcounter_item:
  assumes "memcached_reliable api items" "items memc (MAKE64 key fldid) = Some (sprintf_lu (unat n))"
  shows "smc_getcounter api memc key fldid = Ret n"
  using reliable_get_Some [OF assms] by (simp add: smc_getcounter_def atoll_sprintf)

lemma counter_set_increment:
  assumes "memcached_reliable api items"
  obtains memc' memc'' where "smc_setcounter api memc key fldid n = (memc', SoOK)"
    "smc_getcounter api memc' key fldid = Ret n"
    "memcached_increment api memc' (MAKE64 key fldid) d = (memc'', n + d, MEMCACHED_SUCCESS)"
    "smc_getcounter api memc'' key fldid = Ret (n + d)"
proof -
  obtain memc' where set: "smc_setcounter api memc key fldid n = (memc', SoOK)"
      "items memc' = (items memc)(MAKE64 key fldid \<mapsto> sprintf_lu (unat n))"
    by (rule counter_item [OF assms])
  then have it: "items memc' (MAKE64 key fldid) = Some (sprintf_lu (unat n))" by simp
  then obtain memc'' where "memcached_increment api memc' (MAKE64 key fldid) d = (memc'', n + d, MEMCACHED_SUCCESS)"
      "items memc'' = (items memc')(MAKE64 key fldid \<mapsto> sprintf_lu (unat (n + d)))"
    using assms unfolding memcached_reliable_def memcached_increment_spec_def by blast
  then show ?thesis using that [of memc' memc''] set(1) it getcounter_item [OF assms] by simp
qed

text \<open>The error path of a write loop: what every single \<^verbatim>\<open>memcached_put\<close> answered.\<close>

fun put_statuses :: "'m memcached_api \<Rightarrow> ObjectKey \<Rightarrow> FieldKey \<Rightarrow> u32 list \<Rightarrow> 'm \<Rightarrow> memcached_return list" where
  "put_statuses api key k [] memc = []"
| "put_statuses api key k (w # ws) memc =
     (case memcached_set api memc (MAKE64 key k) (u32_bytes w) of (memc', rc) \<Rightarrow>
        rc # put_statuses api key (k + 1) ws memc')"

lemma putchunk_loop_status:
  assumes "unat i + length ws = unat len" "take (length ws) (drop (unat i) buf) = ws"
  shows "snd (MemcachedPutChunk_loop api key len buf i k memc ret) =
    (if \<forall>rc \<in> set (put_statuses api key k ws memc). rc = MEMCACHED_SUCCESS then ret else SoFail)"
  using assms
proof (induction ws arbitrary: i k memc ret)
  case Nil
  then have "\<not> i < len" by (simp add: word_less_nat_alt)
  then show ?case by (subst MemcachedPutChunk_loop.simps) simp
next
  case (Cons w ws)
  then have lt: "i < len" by (simp add: word_less_nat_alt)
  have i1: "unat (i + 1) = unat i + 1"
    using unat_add_of_nat [of i 1] Cons.prems(1) unat_u32_less [of len] by simp
  have ne: "unat i < length buf" using Cons.prems(2) by (cases "unat i < length buf") auto
  then have buf: "buf ! unat i = w" "take (length ws) (drop (unat (i + 1)) buf) = ws"
    using Cons.prems(2) i1 by (simp_all flip: Cons_nth_drop_Suc)
  obtain memc' rc where set: "memcached_set api memc (MAKE64 key k) (u32_bytes w) = (memc', rc)" by fastforce
  have "snd (MemcachedPutChunk_loop api key len buf i k memc ret) =
      snd (MemcachedPutChunk_loop api key len buf (i + 1) (k + 1) memc' (if rc \<noteq> MEMCACHED_SUCCESS then SoFail else ret))"
    using lt buf set by (subst MemcachedPutChunk_loop.simps) (simp add: memcached_put_def)
  also have "\<dots> = (if \<forall>rc \<in> set (put_statuses api key (k + 1) ws memc'). rc = MEMCACHED_SUCCESS
      then (if rc \<noteq> MEMCACHED_SUCCESS then SoFail else ret) else SoFail)"
    using Cons.prems(1) i1 buf(2) by (intro Cons.IH) simp_all
  finally show ?case using set by simp
qed

section \<open>A run\<close>

definition demo_calls :: "so_op list" where
  "demo_calls = [NewObj 7 0 40, PutChunk 7 30 [1, 2, 3, 4], Get 7 31, GetChunk 7 28 6, NewObj 7 0 40, GetInfo 7, Del 7, Get 7 31]"

lemma demo_calls_ok: "spec_run_ok ((\<lambda>_ _. 0), Map.empty) demo_calls"
  by (auto simp: demo_calls_def dsm_range_def dsm_write_def word_less_nat_alt)

section \<open>Properties\<close>

text \<open>
  C5. On a reliable server, every sequence of storage calls on the block-wise backend returns exactly
  what the abstract shared memory returns, and ends in a state that represents the abstract result.
\<close>

theorem chunk_backend_refines_dsm:
  assumes "smk_ok api items memc" "spec_run_ok (smk_mem items memc, smc_info items memc) calls"
  shows "\<exists>memc'. so_run (SoStorageChunkMemcached api) memc calls =
      (memc', snd (spec_run (smk_mem items memc, smc_info items memc) calls)) \<and> smk_ok api items memc' \<and>
    (smk_mem items memc', smc_info items memc') = fst (spec_run (smk_mem items memc, smc_info items memc) calls)"
  by (rule smk.so_run_refines [OF assms])

theorem chunk_backend_refines_dsm_witness:
  "\<exists>memc'. so_run (SoStorageChunkMemcached server_api) Map.empty demo_calls =
      (memc', snd (spec_run ((\<lambda>_ _. 0), Map.empty) demo_calls)) \<and> smk_ok server_api id memc' \<and>
    (smk_mem id memc', smc_info id memc') = fst (spec_run ((\<lambda>_ _. 0), Map.empty) demo_calls)"
  using chunk_backend_refines_dsm [of server_api id Map.empty demo_calls] demo_calls_ok
  by (simp add: server_empty)



text \<open>
  An array of 64-bit values written by one \<^verbatim>\<open>putchunk\<close> at any field, also across blocks and
  batches, is read back unchanged.
\<close>

theorem smk_chunk64_round_trip:
  assumes "smk_ok api items memc" "dsm_range fld (2 * length buf)" "0 < length buf" "length buf' = length buf"
  shows "\<exists>memc'. smk_putchunk64 api memc key fld (of_nat (length buf)) buf = (memc', SoOK) \<and>
    smk_getchunk64 api memc' key fld (of_nat (length buf)) buf' = (Some SoOK, buf)"
  using smk.chunk64_round_trip [OF assms, of key]
  by (auto simp: SoStorageChunkMemcached_def)

theorem smk_chunk64_round_trip_witness:
  "\<exists>memc'. smk_putchunk64 server_api Map.empty 7 31 2 [5, 0x123456789ab] = (memc', SoOK) \<and>
    smk_getchunk64 server_api memc' 7 31 2 [0, 0] = (Some SoOK, [5, 0x123456789ab])"
  using smk_chunk64_round_trip [OF server_empty(1), of 31 "[5, 0x123456789ab]" "[0, 0]" 7]
  by (simp add: dsm_range_def)

text \<open>
  A write that covers only a part of a block leaves every other word as it was, the words of
  the same block included.
\<close>

theorem partial_block_frame:
  assumes "smk_ok api items memc" "dsm_range fld (length buf)" "dsm_range fld' n" "0 < n" "length buf' = n"
    and "key \<noteq> key' \<or> unat fld' + n \<le> unat fld \<or> unat fld + length buf \<le> unat fld'"
  shows "smk_getchunk32 api (fst (smk_putchunk32 api memc key fld (of_nat (length buf)) buf)) key' fld' (of_nat n) buf'
    = smk_getchunk32 api memc key' fld' (of_nat n) buf'"
  using smk.chunk_frame [OF assms] by (simp add: SoStorageChunkMemcached_def)

theorem partial_block_frame_witness:
  "smk_getchunk32 server_api (fst (smk_putchunk32 server_api Map.empty 7 3 2 [1, 2])) 7 5 4 [0, 0, 0, 0]
    = smk_getchunk32 server_api Map.empty 7 5 4 [0, 0, 0, 0]"
  using partial_block_frame [OF server_empty(1), of 3 "[1, 2]" 5 4 "[0, 0, 0, 0]" 7 7]
  by (simp add: dsm_range_def)

text \<open>
  A counter is read back as it was set, and \<^verbatim>\<open>inc\<close> returns and stores the sum (modulo \<open>2 ^ 64\<close>).
\<close>

theorem counter_round_trip:
  assumes "memcached_reliable api items"
  shows "\<exists>memc' memc''. smc_setcounter api memc key fldid n = (memc', SoOK) \<and>
    smc_getcounter api memc' key fldid = Ret n \<and>
    smc_inc api memc' key fldid d = Ret (memc'', n + d) \<and> smc_getcounter api memc'' key fldid = Ret (n + d)"
  by (rule counter_set_increment [OF assms, of memc key fldid n d]) (simp add: smc_inc_def)

theorem counter_round_trip_witness:
  "\<exists>memc' memc''. smc_setcounter server_api Map.empty 7 1 41 = (memc', SoOK) \<and>
    smc_getcounter server_api memc' 7 1 = Ret 41 \<and>
    smc_inc server_api memc' 7 1 1 = Ret (memc'', 42) \<and> smc_getcounter server_api memc'' 7 1 = Ret 42"
  using counter_round_trip [OF server_reliable, of Map.empty 7 1 41 1] by simp

text \<open>
  \<^verbatim>\<open>dec\<close> calls \<^verbatim>\<open>memcached_increment\<close>: it adds its argument instead of subtracting it.
\<close>

theorem dec_increments:
  assumes "memcached_reliable api items"
  shows "\<exists>memc' memc''. smc_setcounter api memc key fldid n = (memc', SoOK) \<and>
    smc_dec api memc' key fldid d = Ret (memc'', n + d) \<and> smc_getcounter api memc'' key fldid = Ret (n + d)"
  by (rule counter_set_increment [OF assms, of memc key fldid n d]) (simp add: smc_dec_def)

theorem dec_increments_witness:
  "\<exists>memc' memc''. smc_setcounter server_api Map.empty 7 1 41 = (memc', SoOK) \<and>
    smc_dec server_api memc' 7 1 1 = Ret (memc'', 42) \<and> smc_getcounter server_api memc'' 7 1 = Ret 42"
  using dec_increments [OF server_reliable, of Map.empty 7 1 41 1] by simp

text \<open>
  \<^verbatim>\<open>putchunk\<close> returns \<open>SoOK\<close> exactly when the server accepted every single word; a failure of any
  of them is reported although the loop goes on.
\<close>

theorem putchunk_reports_failures:
  assumes "length buf < 2 ^ 32"
  shows "snd (smc_putchunk32 api memc key fldid (of_nat (length buf)) buf) =
    (if \<forall>rc \<in> set (put_statuses api key fldid buf memc). rc = MEMCACHED_SUCCESS then SoOK else SoFail)"
proof -
  have "unat (of_nat (length buf) :: u32) = length buf" using assms by (simp add: unat_of_nat_small)
  then show ?thesis
    using putchunk_loop_status [of 0 buf "of_nat (length buf)" buf api key fldid memc SoOK]
    by (simp add: smc_putchunk32_def)
qed

theorem putchunk_reports_failures_witness:
  "snd (smc_putchunk32 (server_api\<lparr>memcached_set := \<lambda>m k v. if k = MAKE64 7 1 then (m, MEMCACHED_ERROR 1)
      else (m(k \<mapsto> v), MEMCACHED_SUCCESS)\<rparr>) Map.empty 7 0 3 [4, 5, 6]) = SoFail"
  using putchunk_reports_failures [of "[4, 5, 6]" "server_api\<lparr>memcached_set := \<lambda>m k v.
      if k = MAKE64 7 1 then (m, MEMCACHED_ERROR 1) else (m(k \<mapsto> v), MEMCACHED_SUCCESS)\<rparr>" Map.empty 7 0]
  by simp

end
