(* ===== verification/Dogee_CacheFacts.thy ===== *)
theory Dogee_CacheFacts
  imports Dogee_CacheRuns Dogee_StorageFacts
begin

text \<open>
  The directory cache over the memcached backends: runs of covered calls refine the abstract shared
  memory and keep every copy coherent; a chunk is cut at block boundaries; the block that is evicted is
  a least recently used one. The last section shows what happens outside of these conditions.
\<close>

unbundle bit_operations_syntax

section \<open>The cache over memcached\<close>

interpretation smk_cache: directory_cache "SoStorageChunkMemcached api" "smk_ok api items" "smk_mem items" "smc_info items"
    "Suc (c mod 64)"
  for api :: "'m memcached_api" and items c
  by unfold_locales (simp_all add: Suc_le_eq)

interpretation smc_cache: directory_cache "SoStorageMemcached api" "\<lambda>m. memcached_reliable api items" "smc_mem items" "smc_info items"
    "Suc (c mod 64)"
  for api :: "'m memcached_api" and items c
  by unfold_locales (simp_all add: Suc_le_eq)

lemma caches_Suc: "0 < caches \<Longrightarrow> caches \<le> 64 \<Longrightarrow> \<exists>c. caches = Suc (c mod 64)"
  by (rule exI [of _ "caches - 1"]) simp


lemma smk_cache_init:
  assumes "smk_ok api items s"
  shows "coherent (smk_ok api items) (smk_mem items) (Suc (c mod 64)) (CacheSys_init s)"
    "cs_backend (CacheSys_init s) = s"
  using smk_cache.init_coherent [OF assms] by (simp_all add: CacheSys_init_def)

section \<open>Evaluation\<close>

text \<open>For evaluation: the head of the initial free queue is written out, the rest is not unfolded.\<close>

definition rest_queue :: "nat list" where
  "rest_queue = [4..<DSM_CACHE_SIZE]"

declare rest_queue_def [code del]

lemma CacheNode_init_code [code]:
  "CacheNode_init = \<lparr> block_cache = (\<lambda>_. CacheBlock_init), block_queue = 0 # 1 # 2 # 3 # rest_queue,
     hash = (\<lambda>_. None), directory = (\<lambda>_. None), cache_clock = 0 \<rparr>"
proof -
  have "[0..<1024] = [0..<4] @ [4..<4 + 1020 :: nat]" by (subst upt_add_eq_append [symmetric]) simp_all
  then have "[0..<1024] = 0 # 1 # 2 # 3 # [4..<1024 :: nat]" by (simp add: upt_rec [of _ 4] del: upt_rec_numeral)
  then show ?thesis by (simp only: CacheNode_init_def DSM_CACHE_SIZE_def rest_queue_def)
qed

lemma home_code [code]: "home caches addr = nat (uint (drop_bit 5 addr) mod int caches)"
  by (simp add: home_def DSM_CACHE_BITS_def nat_mod_distrib)

lemma dsm_range_code [code]: "dsm_range fld n \<longleftrightarrow> uint fld + int n \<le> 4294967264"
proof -
  have "2 ^ 32 - 32 = (4294967264 :: nat)" by simp
  then show ?thesis unfolding dsm_range_def uint_nat by linarith
qed

lemma pieces_ok_code [code]:
  "pieces_ok caches sys n ps \<longleftrightarrow>
     list_all (\<lambda>(k, len). quiet caches sys n (k AND DSM_CACHE_HIGH_MASK_64)) ps \<and>
     uint (cache_clock (cs_node sys n)) + int (length ps) \<le> 0xffffffff"
  unfolding pieces_ok_def uint_nat by linarith

lemma chunk_pieces_code [code]:
  "chunk_pieces k len =
     (let k_tail = k + ucast len;
          k_start = (if k AND DSM_CACHE_LOW_MASK_64 \<noteq> 0
                     then (k AND DSM_CACHE_HIGH_MASK_64) + of_nat DSM_CACHE_BLOCK_SIZE else k);
          k_end = k_tail AND DSM_CACHE_HIGH_MASK_64;
          copylen = (if k_start < k_tail then unat (ucast (k_start - k) :: u32) else unat len);
          blocks = nat ((uint k_end - uint k_start) div 32);
          idx = copylen + DSM_CACHE_BLOCK_SIZE * blocks
      in (if 0 < copylen then [(k, copylen)] else []) @
         map (\<lambda>b. (k_start + of_nat (DSM_CACHE_BLOCK_SIZE * b), DSM_CACHE_BLOCK_SIZE)) [0..<blocks] @
         (if idx < unat len then [(k_end, unat len - idx)] else []))"
proof -
  have "nat ((uint a - uint b) div 32) = (unat a - unat b) div 32" for a b :: u64
  proof (cases "unat b \<le> unat a")
    case True
    then have "uint a - uint b = int (unat a - unat b)" by (simp only: uint_nat of_nat_diff)
    then show ?thesis by (simp add: nat_div_distrib)
  next
    case False
    then have "uint a - uint b < 0" unfolding uint_nat by linarith
    then have "(uint a - uint b) div 32 < 0" by simp
    then show ?thesis using False by (simp only: nat_eq_iff) simp
  qed
  then show ?thesis by (simp only: chunk_pieces_def DSM_CACHE_BLOCK_SIZE_eq)
qed

section \<open>Coherence\<close>

text \<open>
  C2. Any sequence of word and chunk calls of the nodes and deliveries of control messages, all of
  them covered, returns, every call answers what the abstract shared memory answers, and the backend
  represents the abstract result.
\<close>

theorem cache_refines_dsm:
  assumes "smk_ok api items s" "0 < caches" "caches \<le> 64"
    and "dc_run_ok (SoStorageChunkMemcached api) Win32 caches (CacheSys_init s) cs"
  shows "\<exists>sys'. dc_run (SoStorageChunkMemcached api) Win32 caches (CacheSys_init s) cs =
      Some (sys', snd (dc_spec_run (smk_mem items s) cs)) \<and>
    smk_mem items (cs_backend sys') = fst (dc_spec_run (smk_mem items s) cs)"
proof -
  obtain c where c: "caches = Suc (c mod 64)" using caches_Suc [OF assms(2,3)] by blast
  show ?thesis
    using smk_cache.dc_run_refines [OF smk_cache_init(1) [OF assms(1)], of c cs] assms(4)
    unfolding c by (auto simp: smk_cache_init(2) [OF assms(1)])
qed

theorem cache_refines_dsm_witness:
  "\<exists>sys'. dc_run (SoStorageChunkMemcached server_api) Win32 2 (CacheSys_init Map.empty)
      [CPut 0 1 2 7, CGet 1 1 2, CPut 0 1 2 8, CDeliver 0 1] = Some (sys', [[], [7], [], []])"
proof -
  have run: "dc_run_ok (SoStorageChunkMemcached server_api) Win32 2 (CacheSys_init Map.empty)
      [CPut 0 1 2 7, CGet 1 1 2, CPut 0 1 2 8, CDeliver 0 1]"
    by code_simp
  show ?thesis
    using cache_refines_dsm [OF server_empty(1) _ _ run] by (auto simp: server_empty dsm_write_def)
qed

text \<open>
  C3. Coherence is an invariant: from a state in which every cached block equals its words in the
  abstract memory up to renewals on their way, every covered call returns, and so does every
  delivery, and the new state is coherent again.
\<close>

theorem cache_stays_coherent:
  assumes "0 < caches" "caches \<le> 64" "coherent (smk_ok api items) (smk_mem items) caches sys" "dc_ok caches sys c"
  shows "\<exists>sys' r. dc_exec (SoStorageChunkMemcached api) Win32 caches sys c = Some (sys', r) \<and>
    coherent (smk_ok api items) (smk_mem items) caches sys'"
proof -
  obtain d where d: "caches = Suc (d mod 64)" using caches_Suc [OF assms(1,2)] by blast
  show ?thesis using smk_cache.dc_exec_refines [of api items d sys c] assms(3,4) unfolding d by blast
qed

theorem cache_stays_coherent_witness:
  "\<exists>sys' r. dc_exec (SoStorageChunkMemcached server_api) Win32 2 (CacheSys_init Map.empty) (CPut 1 1 2 7) = Some (sys', r) \<and>
    coherent (smk_ok server_api id) (smk_mem id) 2 sys'"
proof (rule cache_stays_coherent)
  show "coherent (smk_ok server_api id) (smk_mem id) 2 (CacheSys_init Map.empty)"
    using smk_cache_init(1) [OF server_empty(1), of 1] by (simp add: numeral_2_eq_2)
  show "dc_ok 2 (CacheSys_init (Map.empty :: server)) (CPut 1 1 2 7)" by code_simp
qed simp_all

text \<open>
  The pieces \<^verbatim>\<open>putchunk\<close> and \<^verbatim>\<open>getchunk\<close> work on follow each other without gap or overlap from
  the first field of the range to the last, and no piece crosses the end of a block.
\<close>

theorem chunk_pieces_partition:
  assumes "dsm_range f (unat len)"
  shows "pieces_cover ob (unat f) (chunk_pieces (MAKE64 ob f) len) (unat f + unat len)"
  by (rule chunk_pieces_cover [OF assms])

theorem chunk_pieces_partition_witness: "pieces_cover 1 30 (chunk_pieces (MAKE64 1 30) 70) 100"
  using chunk_pieces_partition [of 30 70 1] by (simp add: dsm_range_def)

text \<open>
  The victim of an eviction is a valid block, and no valid block was used less recently.
\<close>

theorem lru_victim_minimal:
  assumes "find_victim bs 0xffffffff None is = Some i"
  shows "i \<in> set is \<and> cb_key (bs i) \<noteq> DSM_CACHE_BAD_KEY \<and>
    (\<forall>j \<in> set is. cb_key (bs j) \<noteq> DSM_CACHE_BAD_KEY \<longrightarrow> cb_lru (bs i) \<le> cb_lru (bs j))"
  using find_victim_spec [OF assms] by auto

theorem lru_victim_minimal_witness:
  "let bs = (\<lambda>i. \<lparr> cb_cache = [], cb_lru = [9, 4, 6, 4] ! i, cb_key = 32, cb_readers = 0 \<rparr>)
   in find_victim bs 0xffffffff None [0, 1, 2, 3] = Some 1 \<and> cb_lru (bs 1) \<le> cb_lru (bs 2)"
proof -
  let ?bs = "\<lambda>i. \<lparr> cb_cache = [], cb_lru = [9, 4, 6, 4 :: nat] ! i, cb_key = 32, cb_readers = 0 \<rparr>"
  have "find_victim ?bs 0xffffffff None [0, 1, 2, 3] = Some 1" by (simp add: BAD_KEY_eq)
  then show ?thesis using lru_victim_minimal [of ?bs "[0, 1, 2, 3]" 1] by (simp add: BAD_KEY_eq)
qed

section \<open>Outside of the conditions\<close>

text \<open>
  A write of several words that misses at the home node of the block stores the first word only: the local
  branch of \<^verbatim>\<open>WriteMiss\<close> passes the length 1.
\<close>

theorem local_miss_drops_words:
  assumes "smk_ok api items s" "0 < caches" "caches \<le> 64" "home caches (MAKE64 ob f) = n"
    and "dsm_range f 1" "unat f mod 32 + length v \<le> 32"
  shows "\<exists>sys'. doput (SoStorageChunkMemcached api) Win32 caches (CacheSys_init s) n (MAKE64 ob f) v = Some (sys', SoOK) \<and>
    smk_mem items (cs_backend sys') = dsm_write (smk_mem items s) ob f (take 1 v)"
proof -
  let ?k = "MAKE64 ob f AND DSM_CACHE_HIGH_MASK_64"
  obtain c where c: "caches = Suc (c mod 64)" using caches_Suc [OF assms(2,3)] by blast
  have n: "n < Suc (c mod 64)" using home_less [OF assms(2)] assms(4) c by blast
  have init: "quiet (Suc (c mod 64)) (CacheSys_init s) n ?k" "unat (cache_clock (cs_node (CacheSys_init s) n)) < 0xffffffff"
    "stored_words (Suc (c mod 64)) (CacheSys_init s) n ?k v = take 1 v"
    using assms(4) c by (simp_all add: quiet_def CacheSys_init_def CacheNode_init_def stored_words_def)
  show ?thesis
    by (rule smk_cache.doput_spec [OF smk_cache_init(1) [OF assms(1), of c] n assms(5,6) refl init(1,2)])
      (auto simp: c init(3) smk_cache_init(2) [OF assms(1)])
qed

theorem local_miss_drops_words_witness:
  "\<exists>sys'. doput (SoStorageChunkMemcached server_api) Win32 2 (CacheSys_init Map.empty) 0 (MAKE64 1 0) [7, 8] = Some (sys', SoOK) \<and>
    smk_mem id (cs_backend sys') 1 1 = 0"
proof -
  have "home 2 (MAKE64 1 0) = 0" by code_simp
  then show ?thesis
    using local_miss_drops_words [OF server_empty(1), of 2 1 0 0 "[7, 8]"] by (auto simp: dsm_range_def dsm_write_def server_empty)
qed

text \<open>
  The status \<^verbatim>\<open>putchunk\<close> returns is never written: no call of \<^verbatim>\<open>putblockdata\<close> that returns
  reports a failure.
\<close>

theorem putchunk_status_unwritten:
  assumes "dc_putchunk S plat caches sys n ob f len v = Some (sys', st)"
  shows "st = None"
proof -
  have ok: "st' = SoOK" if "doput S plat caches sys n addr v = Some (sys', st')" for sys addr v sys' st'
    using that by (auto simp: doput_def put_hit_def Let_def split: option.splits prod.splits bool.splits if_splits)
  have "put_pieces S plat caches n ps v ret sys = Some (sys', st) \<Longrightarrow> st = ret" for ps v ret sys
    by (induction ps arbitrary: v ret sys) (auto dest!: ok split: option.splits if_splits)
  then show ?thesis using assms by (simp add: dc_putchunk_def)
qed

theorem putchunk_status_unwritten_witness:
  "\<exists>sys' st. dc_putchunk (SoStorageMemcached server_api) Win32 2 (CacheSys_init Map.empty) 1 1 2 1 [7] = Some (sys', st) \<and> st = None"
proof -
  have "dc_putchunk (SoStorageMemcached server_api) Win32 2 (CacheSys_init Map.empty) 1 1 2 1 [7] \<noteq> None" by code_simp
  then show ?thesis using putchunk_status_unwritten [of "SoStorageMemcached server_api" Win32 2 "CacheSys_init Map.empty" 1 1 2 1 "[7]"]
    by auto
qed

text \<open>
  With the inverted test of the Linux lock primitive a renewal is discarded: node 1 reads the
  old word after node 0 has written 7 and the renewal has been delivered.
\<close>

theorem posix_stale_read:
  "map_option snd (dc_run (SoStorageMemcached server_api) Posix 2 (CacheSys_init Map.empty)
     [CGet 1 1 2, CPut 0 1 2 7, CDeliver 0 1, CGet 1 1 2]) = Some [[0], [], [], [0]]"
  by code_simp


end
