(* ===== verification/Dogee_Sync.thy ===== *)
theory Dogee_Sync
  imports Dogee_Prelude "HOL-Library.Multiset"
begin

text \<open>
  Synchronisation through the master node, \<^verbatim>\<open>Dogee/DogeeRemote.cpp\<close>: the \<^verbatim>\<open>SyncManager\<close> (barriers,
  semaphores and events keyed by the shared object's id), the command packets, the command loops of
  master and slave, the thread events a blocked thread waits on, and the client calls. A cluster
  is a state with one FIFO channel per direction between the master (node 0) and every slave; its
  runs are sequences of labelled steps. \<^verbatim>\<open>DogeeEnv::cache->get\<close> is the parameter \<open>cache\<close>.
\<close>

section \<open>SyncManager\<close>

record SyncThreadNode =
  machine :: nat
  thread_id :: u32

datatype SyncKind = Barrier | Semaphore | Event

text \<open>The union of \<^verbatim>\<open>waitlist\<close> and \<^verbatim>\<open>waitqueue\<close> is one list, oldest entry first.\<close>

record SyncNode =
  sn_kind :: SyncKind
  sn_val :: int
  sn_data :: int
  sn_waitlist :: "SyncThreadNode list"

record SyncManager =
  sync_data :: "ObjectKey \<Rightarrow> SyncNode option"
  clocks :: "int list"

type_synonym shared = "ObjectKey \<Rightarrow> FieldKey \<Rightarrow> u32"

definition SyncManager_init :: "nat \<Rightarrow> int \<Rightarrow> SyncManager" where
  "SyncManager_init num_nodes now = \<lparr> sync_data = (\<lambda>_. None), clocks = replicate num_nodes now \<rparr>"

definition Alive :: "SyncManager \<Rightarrow> nat \<Rightarrow> int \<Rightarrow> SyncManager" where
  "Alive m src now = m\<lparr> clocks := (clocks m)[src := now] \<rparr>"

text \<open>
  Every message handler returns the manager and the threads it passes to
  \<^verbatim>\<open>RcWakeRemoteThread\<close>, in the order of the calls.
\<close>

definition put_node :: "SyncManager \<Rightarrow> ObjectKey \<Rightarrow> SyncNode \<Rightarrow> SyncManager" where
  "put_node m b_id node = m\<lparr> sync_data := (sync_data m)(b_id \<mapsto> node) \<rparr>"

definition BarrierMsg ::
    "shared \<Rightarrow> SyncManager \<Rightarrow> nat \<Rightarrow> ObjectKey \<Rightarrow> u32 \<Rightarrow> SyncManager \<times> SyncThreadNode list" where
  "BarrierMsg cache m src b_id tid =
     (let node = (case sync_data m b_id of
            None \<Rightarrow> \<lparr> sn_kind = Barrier, sn_val = 0, sn_data = sint (cache b_id 0), sn_waitlist = [] \<rparr>
          | Some node \<Rightarrow> node);
          node = node\<lparr> sn_val := sn_val node + 1 \<rparr>;
          th = \<lparr> machine = src, thread_id = tid \<rparr>
      in if sn_data node \<le> sn_val node
         then (put_node m b_id (node\<lparr> sn_val := 0, sn_waitlist := [] \<rparr>), th # sn_waitlist node)
         else (put_node m b_id (node\<lparr> sn_waitlist := sn_waitlist node @ [th] \<rparr>), []))"

definition SemaphoreMsg ::
    "shared \<Rightarrow> SyncManager \<Rightarrow> nat \<Rightarrow> ObjectKey \<Rightarrow> u32 \<Rightarrow> SyncManager \<times> SyncThreadNode list" where
  "SemaphoreMsg cache m src b_id tid =
     (let node = (case sync_data m b_id of
            None \<Rightarrow> \<lparr> sn_kind = Semaphore, sn_val = sint (cache b_id 0), sn_data = sint (cache b_id 0),
                      sn_waitlist = [] \<rparr>
          | Some node \<Rightarrow> node);
          node = node\<lparr> sn_val := sn_val node - 1 \<rparr>;
          th = \<lparr> machine = src, thread_id = tid \<rparr>
      in if 0 \<le> sn_val node then (put_node m b_id node, [th])
         else (put_node m b_id (node\<lparr> sn_waitlist := sn_waitlist node @ [th] \<rparr>), []))"

text \<open>
  For a semaphore the manager has not seen, \<^verbatim>\<open>*(int*)val\<close> reads the memory at the address given by
  the semaphore's count.
\<close>

definition SemaphoreLeaveMsg ::
    "shared \<Rightarrow> SyncManager \<Rightarrow> nat \<Rightarrow> ObjectKey \<Rightarrow> u32 \<Rightarrow> (SyncManager \<times> SyncThreadNode list) cxx" where
  "SemaphoreLeaveMsg cache m src b_id tid =
     (case sync_data m b_id of
        None \<Rightarrow> Trap
      | Some node \<Rightarrow>
          let node = node\<lparr> sn_val := sn_val node + 1 \<rparr>
          in if 0 \<le> sn_val node then
               (case sn_waitlist node of
                  [] \<Rightarrow> Ret (put_node m b_id node, [])
                | th # ths \<Rightarrow> Ret (put_node m b_id (node\<lparr> sn_waitlist := ths \<rparr>), [th]))
             else Ret (put_node m b_id node, []))"

definition CreateEventNode :: "shared \<Rightarrow> SyncManager \<Rightarrow> ObjectKey \<Rightarrow> SyncNode" where
  "CreateEventNode cache m b_id =
     (case sync_data m b_id of
        None \<Rightarrow> \<lparr> sn_kind = Event, sn_val = sint (cache b_id 2), sn_data = sint (cache b_id 0), sn_waitlist = [] \<rparr>
      | Some node \<Rightarrow> node)"

definition EventWaitMsg ::
    "shared \<Rightarrow> SyncManager \<Rightarrow> nat \<Rightarrow> ObjectKey \<Rightarrow> u32 \<Rightarrow> SyncManager \<times> SyncThreadNode list" where
  "EventWaitMsg cache m src b_id tid =
     (let node = CreateEventNode cache m b_id;
          th = \<lparr> machine = src, thread_id = tid \<rparr>
      in if sn_val node \<noteq> 0
         then (put_node m b_id (if sn_data node \<noteq> 0 then node\<lparr> sn_val := 0 \<rparr> else node), [th])
         else (put_node m b_id (node\<lparr> sn_waitlist := sn_waitlist node @ [th] \<rparr>), []))"

definition SetEventMsg ::
    "shared \<Rightarrow> SyncManager \<Rightarrow> nat \<Rightarrow> ObjectKey \<Rightarrow> SyncManager \<times> SyncThreadNode list" where
  "SetEventMsg cache m src b_id =
     (let node = (CreateEventNode cache m b_id)\<lparr> sn_val := 1 \<rparr>
      in if sn_data node \<noteq> 0 then
           (case sn_waitlist node of
              [] \<Rightarrow> (put_node m b_id (node\<lparr> sn_val := 1 \<rparr>), [])
            | th # ths \<Rightarrow> (put_node m b_id (node\<lparr> sn_val := 0, sn_waitlist := ths \<rparr>), [th]))
         else (put_node m b_id (node\<lparr> sn_waitlist := [] \<rparr>), sn_waitlist node))"

definition ResetEventMsg :: "shared \<Rightarrow> SyncManager \<Rightarrow> nat \<Rightarrow> ObjectKey \<Rightarrow> SyncManager" where
  "ResetEventMsg cache m src b_id = put_node m b_id ((CreateEventNode cache m b_id)\<lparr> sn_val := 0 \<rparr>)"

section \<open>Packets and the cluster\<close>

text \<open>\<open>RcUnknown\<close> is every number that is not a command.\<close>

datatype RcCommand =
    RcCmdClose | RcCmdCreateThread | RcCmdSuspendThread | RcCmdStopThread | RcCmdTriggerGC | RcCmdDoGC
  | RcCmdDoneGC | RcCmdWakeSync | RcCmdEnterBarrier | RcCmdEnterSemaphore | RcCmdLeaveSemaphore
  | RcCmdWaitForEvent | RcCmdSetEvent | RcCmdResetEvent | RcCmdAlive | RcCmdRestart | RcUnknown nat

record RcCommandPack =
  cmd :: RcCommand
  param :: u32
  param2 :: u32
  param3 :: u32
  param4 :: u32

text \<open>Fields a sender leaves unset are never read by the receiver; they are 0 here.\<close>

definition rc_pack :: "RcCommand \<Rightarrow> u32 \<Rightarrow> u32 \<Rightarrow> RcCommandPack" where
  "rc_pack c p p2 = \<lparr> cmd = c, param = p, param2 = p2, param3 = 0, param4 = 0 \<rparr>"

text \<open>On the way to a slave a \<^verbatim>\<open>RcCmdCreateThread\<close> may be followed by the bytes of a function object.\<close>

datatype Packet = Pack RcCommandPack | Payload "u8 list"

text \<open>
  \<open>thread_events\<close> is the \<^verbatim>\<open>ThreadEventMap\<close> of every node, \<open>blocked\<close> the threads inside
  \<^verbatim>\<open>Event::WaitForEvent\<close>. \<open>started\<close> are the calls of \<^verbatim>\<open>ThThreadEntry\<close> and
  \<^verbatim>\<open>ThThreadEntryObject\<close> (index, parameter, object and function object), newest first.
\<close>

record Cluster =
  syncmanager :: SyncManager
  to_master :: "nat \<Rightarrow> RcCommandPack list"
  to_node :: "nat \<Rightarrow> Packet list"
  thread_events :: "nat \<Rightarrow> u32 \<Rightarrow> bool option"
  blocked :: "nat \<Rightarrow> u32 \<Rightarrow> bool"
  started :: "nat \<Rightarrow> (u32 \<times> u32 \<times> ObjectKey \<times> u8 list option) list"
  restarting :: "nat \<Rightarrow> bool"
  slave_done :: "nat \<Rightarrow> bool"

definition set_event :: "Cluster \<Rightarrow> nat \<Rightarrow> u32 \<Rightarrow> bool option \<Rightarrow> Cluster" where
  "set_event c n tid e = c\<lparr> thread_events := (thread_events c)(n := (thread_events c n)(tid := e)) \<rparr>"

text \<open>\<^verbatim>\<open>ThreadEventMap[id]\<close> is a null pointer for a thread that was never prepared.\<close>

definition RcSetRemoteEvent :: "Cluster \<Rightarrow> nat \<Rightarrow> u32 \<Rightarrow> Cluster cxx" where
  "RcSetRemoteEvent c n tid = (case thread_events c n tid of None \<Rightarrow> Trap | Some _ \<Rightarrow> Ret (set_event c n tid (Some True)))"

definition RcResetRemoteEvent :: "Cluster \<Rightarrow> nat \<Rightarrow> u32 \<Rightarrow> Cluster cxx" where
  "RcResetRemoteEvent c n tid = (case thread_events c n tid of None \<Rightarrow> Trap | Some _ \<Rightarrow> Ret (set_event c n tid (Some False)))"

definition RcPrepareNewThread :: "Cluster \<Rightarrow> nat \<Rightarrow> u32 \<Rightarrow> Cluster" where
  "RcPrepareNewThread c n tid = set_event c n tid (Some False)"

definition RcDeleteThread :: "Cluster \<Rightarrow> nat \<Rightarrow> u32 \<Rightarrow> Cluster" where
  "RcDeleteThread c n tid = set_event c n tid None"

definition send_node :: "Cluster \<Rightarrow> nat \<Rightarrow> Packet list \<Rightarrow> Cluster" where
  "send_node c n ps = c\<lparr> to_node := (to_node c)(n := to_node c n @ ps) \<rparr>"

definition send_master :: "Cluster \<Rightarrow> nat \<Rightarrow> RcCommandPack \<Rightarrow> Cluster" where
  "send_master c n p = c\<lparr> to_master := (to_master c)(n := to_master c n @ [p]) \<rparr>"

definition RcWakeRemoteThread :: "Cluster \<Rightarrow> SyncThreadNode \<Rightarrow> Cluster cxx" where
  "RcWakeRemoteThread c th =
     (if machine th = 0 then RcSetRemoteEvent c 0 (thread_id th)
      else Ret (send_node c (machine th) [Pack (rc_pack RcCmdWakeSync (thread_id th) 0)]))"

fun wake_all :: "Cluster \<Rightarrow> SyncThreadNode list \<Rightarrow> Cluster cxx" where
  "wake_all c [] = Ret c"
| "wake_all c (th # ths) = cxx_bind (RcWakeRemoteThread c th) (\<lambda>c'. wake_all c' ths)"

definition deliver :: "Cluster \<Rightarrow> SyncManager \<times> SyncThreadNode list \<Rightarrow> Cluster cxx" where
  "deliver c r = (case r of (m, ths) \<Rightarrow> wake_all (c\<lparr> syncmanager := m \<rparr>) ths)"

text \<open>The \<^verbatim>\<open>switch\<close> of \<^verbatim>\<open>RcMasterListen\<close> for a command received from slave \<open>i\<close>.\<close>

definition RcMasterListen :: "shared \<Rightarrow> int \<Rightarrow> Cluster \<Rightarrow> nat \<Rightarrow> RcCommandPack \<Rightarrow> Cluster cxx" where
  "RcMasterListen cache now c i p =
     (case cmd p of
        RcCmdEnterBarrier \<Rightarrow> deliver c (BarrierMsg cache (syncmanager c) i (param p) (param2 p))
      | RcCmdEnterSemaphore \<Rightarrow> deliver c (SemaphoreMsg cache (syncmanager c) i (param p) (param2 p))
      | RcCmdLeaveSemaphore \<Rightarrow>
          cxx_bind (SemaphoreLeaveMsg cache (syncmanager c) i (param p) (param2 p)) (deliver c)
      | RcCmdWaitForEvent \<Rightarrow> deliver c (EventWaitMsg cache (syncmanager c) i (param p) (param2 p))
      | RcCmdSetEvent \<Rightarrow> deliver c (SetEventMsg cache (syncmanager c) i (param p))
      | RcCmdResetEvent \<Rightarrow> Ret (c\<lparr> syncmanager := ResetEventMsg cache (syncmanager c) i (param p) \<rparr>)
      | RcCmdAlive \<Rightarrow> Ret (c\<lparr> syncmanager := Alive (syncmanager c) i now \<rparr>)
      | _ \<Rightarrow> Ret c)"

definition start_thread :: "Cluster \<Rightarrow> nat \<Rightarrow> RcCommandPack \<Rightarrow> u8 list option \<Rightarrow> Cluster" where
  "start_thread c n p data =
     c\<lparr> started := (started c)(n := (param p, param2 p, param3 p, data) # started c n) \<rparr>"

text \<open>
  One round of the loop of \<^verbatim>\<open>RcSlaveMainLoop\<close> on slave \<open>n\<close>, \<open>None\<close> when it has to wait for
  bytes. A function object of more than 2048 bytes is refused and stays in the stream, so the next
  round does not find a command at its head: a stream that starts with a payload ends the loop
  (the bytes are no command of the size the loop reads).
\<close>

definition RcSlaveMainLoop :: "Cluster \<Rightarrow> nat \<Rightarrow> Cluster cxx option" where
  "RcSlaveMainLoop c n =
     (if slave_done c n then None else
      case to_node c n of
        [] \<Rightarrow> None
      | Payload bs # ps \<Rightarrow> Some (Ret (c\<lparr> slave_done := (slave_done c)(n := True) \<rparr>))
      | Pack p # ps \<Rightarrow>
          let c1 = c\<lparr> to_node := (to_node c)(n := ps) \<rparr>
          in case cmd p of
               RcCmdClose \<Rightarrow> Some (Ret (c1\<lparr> slave_done := (slave_done c)(n := True) \<rparr>))
             | RcCmdCreateThread \<Rightarrow>
                 if param4 p \<noteq> 0 then
                   if 2048 <s param4 p then Some (Ret c1)
                   else (case ps of
                           Payload bs # ps' \<Rightarrow>
                             if of_nat (length bs) = param4 p
                             then Some (Ret (start_thread (c1\<lparr> to_node := (to_node c)(n := ps') \<rparr>) n p (Some bs)))
                             else Some (Ret c1)
                         | _ \<Rightarrow> None)
                 else Some (Ret (start_thread c1 n p None))
             | RcCmdWakeSync \<Rightarrow> Some (RcSetRemoteEvent c1 n (param p))
             | RcCmdAlive \<Rightarrow> Some (Ret (send_master c1 n p))
             | RcCmdRestart \<Rightarrow> Some (Ret (c1\<lparr> restarting := (restarting c)(n := True) \<rparr>))
             | _ \<Rightarrow> Some (Ret c1))"

section \<open>Client calls\<close>

text \<open>
  The first part of a blocking call: the thread's event is reset, then the request reaches the
  manager (a direct call on the master, a packet from a slave) and the thread waits.
\<close>

definition sync_request ::
    "Cluster \<Rightarrow> nat \<Rightarrow> u32 \<Rightarrow> RcCommandPack \<Rightarrow> (Cluster \<Rightarrow> Cluster cxx) \<Rightarrow> Cluster cxx" where
  "sync_request c n tid p local = (if n = 0 then local c else Ret (send_master c n p))"

definition block_thread :: "Cluster \<Rightarrow> nat \<Rightarrow> u32 \<Rightarrow> Cluster" where
  "block_thread c n tid = c\<lparr> blocked := (blocked c)(n := (blocked c n)(tid := True)) \<rparr>"

definition RcEnterBarrier :: "shared \<Rightarrow> Cluster \<Rightarrow> nat \<Rightarrow> u32 \<Rightarrow> ObjectKey \<Rightarrow> Cluster cxx" where
  "RcEnterBarrier cache c n tid okey =
     cxx_bind (RcResetRemoteEvent c n tid) (\<lambda>c.
     cxx_bind (sync_request c n tid (rc_pack RcCmdEnterBarrier okey tid)
       (\<lambda>c. deliver c (BarrierMsg cache (syncmanager c) 0 okey tid))) (\<lambda>c.
     Ret (block_thread c n tid)))"

definition RcWaitForEvent :: "shared \<Rightarrow> Cluster \<Rightarrow> nat \<Rightarrow> u32 \<Rightarrow> ObjectKey \<Rightarrow> Cluster cxx" where
  "RcWaitForEvent cache c n tid okey =
     cxx_bind (RcResetRemoteEvent c n tid) (\<lambda>c.
     cxx_bind (sync_request c n tid (rc_pack RcCmdWaitForEvent okey tid)
       (\<lambda>c. deliver c (EventWaitMsg cache (syncmanager c) 0 okey tid))) (\<lambda>c.
     Ret (block_thread c n tid)))"

definition RcEnterSemaphore :: "shared \<Rightarrow> Cluster \<Rightarrow> nat \<Rightarrow> u32 \<Rightarrow> ObjectKey \<Rightarrow> Cluster cxx" where
  "RcEnterSemaphore cache c n tid okey =
     cxx_bind (RcResetRemoteEvent c n tid) (\<lambda>c.
     cxx_bind (sync_request c n tid (rc_pack RcCmdEnterSemaphore okey tid)
       (\<lambda>c. deliver c (SemaphoreMsg cache (syncmanager c) 0 okey tid))) (\<lambda>c.
     Ret (block_thread c n tid)))"

definition RcSetEvent :: "shared \<Rightarrow> Cluster \<Rightarrow> nat \<Rightarrow> u32 \<Rightarrow> ObjectKey \<Rightarrow> Cluster cxx" where
  "RcSetEvent cache c n tid okey =
     sync_request c n tid (rc_pack RcCmdSetEvent okey 0)
       (\<lambda>c. deliver c (SetEventMsg cache (syncmanager c) 0 okey))"

definition RcResetEvent :: "shared \<Rightarrow> Cluster \<Rightarrow> nat \<Rightarrow> u32 \<Rightarrow> ObjectKey \<Rightarrow> Cluster cxx" where
  "RcResetEvent cache c n tid okey =
     sync_request c n tid (rc_pack RcCmdResetEvent okey 0)
       (\<lambda>c. Ret (c\<lparr> syncmanager := ResetEventMsg cache (syncmanager c) 0 okey \<rparr>))"

definition RcLeaveSemaphore :: "shared \<Rightarrow> Cluster \<Rightarrow> nat \<Rightarrow> u32 \<Rightarrow> ObjectKey \<Rightarrow> Cluster cxx" where
  "RcLeaveSemaphore cache c n tid okey =
     sync_request c n tid (rc_pack RcCmdLeaveSemaphore okey tid)
       (\<lambda>c. cxx_bind (SemaphoreLeaveMsg cache (syncmanager c) 0 okey tid) (deliver c))"

text \<open>\<^verbatim>\<open>RcCreateThread\<close> without and with a function object; the object is at most 2048 bytes long.\<close>

definition RcCreateThread :: "Cluster \<Rightarrow> nat \<Rightarrow> u32 \<Rightarrow> u32 \<Rightarrow> ObjectKey \<Rightarrow> Cluster" where
  "RcCreateThread c n idx p okey =
     send_node c n [Pack \<lparr> cmd = RcCmdCreateThread, param = idx, param2 = p, param3 = okey, param4 = 0 \<rparr>]"

definition RcCreateThreadObject :: "Cluster \<Rightarrow> nat \<Rightarrow> u32 \<Rightarrow> u32 \<Rightarrow> ObjectKey \<Rightarrow> u8 list \<Rightarrow> Cluster cxx" where
  "RcCreateThreadObject c n idx p okey data =
     (if length data \<le> 2048 then
        Ret (send_node c n [Pack \<lparr> cmd = RcCmdCreateThread, param = idx, param2 = p, param3 = okey,
               param4 = of_nat (length data) \<rparr>, Payload data])
      else Trap)"

section \<open>Runs\<close>

datatype sync_call =
    EnterBarrier ObjectKey | EnterSemaphore ObjectKey | LeaveSemaphore ObjectKey
  | WaitForEvent ObjectKey | SetEvent ObjectKey | ResetEvent ObjectKey

datatype label = Call nat u32 sync_call | MasterStep nat | SlaveStep nat | Return nat u32

fun sync_call_exec :: "shared \<Rightarrow> Cluster \<Rightarrow> nat \<Rightarrow> u32 \<Rightarrow> sync_call \<Rightarrow> Cluster cxx" where
  "sync_call_exec cache c n tid (EnterBarrier k) = RcEnterBarrier cache c n tid k"
| "sync_call_exec cache c n tid (EnterSemaphore k) = RcEnterSemaphore cache c n tid k"
| "sync_call_exec cache c n tid (LeaveSemaphore k) = RcLeaveSemaphore cache c n tid k"
| "sync_call_exec cache c n tid (WaitForEvent k) = RcWaitForEvent cache c n tid k"
| "sync_call_exec cache c n tid (SetEvent k) = RcSetEvent cache c n tid k"
| "sync_call_exec cache c n tid (ResetEvent k) = RcResetEvent cache c n tid k"

text \<open>
  One step, \<open>None\<close> where it is not enabled: a running thread makes a call, the master handles the
  next packet of a slave, a slave handles its next packet, or a blocked thread finds its event
  set and returns (a wait without timeout, which leaves the event set).
\<close>

fun cluster_exec :: "shared \<Rightarrow> Cluster \<Rightarrow> label \<Rightarrow> Cluster cxx option" where
  "cluster_exec cache c (Call n tid call) =
     (if blocked c n tid then None else Some (sync_call_exec cache c n tid call))"
| "cluster_exec cache c (MasterStep i) =
     (case to_master c i of
        [] \<Rightarrow> None
      | p # ps \<Rightarrow> Some (RcMasterListen cache 0 (c\<lparr> to_master := (to_master c)(i := ps) \<rparr>) i p))"
| "cluster_exec cache c (SlaveStep n) = RcSlaveMainLoop c n"
| "cluster_exec cache c (Return n tid) =
     (if blocked c n tid \<and> thread_events c n tid = Some True
      then Some (Ret (c\<lparr> blocked := (blocked c)(n := (blocked c n)(tid := False)) \<rparr>)) else None)"

inductive cluster_trace :: "shared \<Rightarrow> Cluster \<Rightarrow> label list \<Rightarrow> Cluster \<Rightarrow> bool" for cache c0 where
  start: "cluster_trace cache c0 [] c0"
| step: "cluster_trace cache c0 tr c \<Longrightarrow> cluster_exec cache c l = Some (Ret c') \<Longrightarrow>
    cluster_trace cache c0 (tr @ [l]) c'"

inductive_cases trace_snocE: "cluster_trace cache c0 (tr @ [l]) c"

end
