(* ===== verification/Dogee_SyncObjects.thy ===== *)
theory Dogee_SyncObjects
  imports Dogee_Sync
begin

text \<open>
  Semaphores and events of the \<^verbatim>\<open>SyncManager\<close> under arbitrary sequences of messages: how many
  threads a semaphore lets through, which waiters it forgets, and that events keep their waiters in
  order and lose none.
\<close>

section \<open>Semaphores\<close>

datatype sem_op = Acquire nat u32 | Release nat u32

text \<open>A sequence of messages for one semaphore, with all threads woken on the way.\<close>

fun sem_run :: "shared \<Rightarrow> ObjectKey \<Rightarrow> SyncManager \<Rightarrow> sem_op list \<Rightarrow> (SyncManager \<times> SyncThreadNode list) cxx" where
  "sem_run cache b m [] = Ret (m, [])"
| "sem_run cache b m (Acquire src tid # ops) =
     (case SemaphoreMsg cache m src b tid of (m', ws) \<Rightarrow>
        cxx_bind (sem_run cache b m' ops) (\<lambda>(m'', ws'). Ret (m'', ws @ ws')))"
| "sem_run cache b m (Release src tid # ops) =
     cxx_bind (SemaphoreLeaveMsg cache m src b tid) (\<lambda>(m', ws).
        cxx_bind (sem_run cache b m' ops) (\<lambda>(m'', ws'). Ret (m'', ws @ ws')))"

fun is_release :: "sem_op \<Rightarrow> bool" where
  "is_release (Release _ _) = True"
| "is_release (Acquire _ _) = False"

definition sem_val :: "shared \<Rightarrow> SyncManager \<Rightarrow> ObjectKey \<Rightarrow> int" where
  "sem_val cache m b = (case sync_data m b of None \<Rightarrow> sint (cache b 0) | Some node \<Rightarrow> sn_val node)"

definition sem_queue :: "SyncManager \<Rightarrow> ObjectKey \<Rightarrow> SyncThreadNode list" where
  "sem_queue m b = (case sync_data m b of None \<Rightarrow> [] | Some node \<Rightarrow> sn_waitlist node)"

lemma put_node_simps [simp]:
  "sync_data (put_node m b node) b = Some node" "b' \<noteq> b \<Longrightarrow> sync_data (put_node m b node) b' = sync_data m b'"
  by (simp_all add: put_node_def)

lemma SemaphoreMsg_spec:
  "sem_val cache (fst (SemaphoreMsg cache m src b tid)) b = sem_val cache m b - 1"
  "snd (SemaphoreMsg cache m src b tid) = (if 1 \<le> sem_val cache m b then [\<lparr> machine = src, thread_id = tid \<rparr>] else [])"
  "sem_queue (fst (SemaphoreMsg cache m src b tid)) b =
     sem_queue m b @ (if 1 \<le> sem_val cache m b then [] else [\<lparr> machine = src, thread_id = tid \<rparr>])"
  "sync_data (fst (SemaphoreMsg cache m src b tid)) b \<noteq> None"
  by (auto simp: SemaphoreMsg_def sem_val_def sem_queue_def Let_def split: option.splits)

lemma SemaphoreLeaveMsg_spec:
  assumes "sync_data m b \<noteq> None"
  obtains m' ws where "SemaphoreLeaveMsg cache m src b tid = Ret (m', ws)" "sync_data m' b \<noteq> None"
    "sem_val cache m' b = sem_val cache m b + 1"
    "ws = (if 0 \<le> sem_val cache m b + 1 then take 1 (sem_queue m b) else [])"
    "sem_queue m' b = (if 0 \<le> sem_val cache m b + 1 then drop 1 (sem_queue m b) else sem_queue m b)"
proof -
  obtain node where node: "sync_data m b = Some node" using assms by auto
  show ?thesis
  proof (cases "0 \<le> sn_val node + 1")
    case True
    then show ?thesis using node
      by (cases "sn_waitlist node"; intro that)
        (simp_all add: SemaphoreLeaveMsg_def sem_val_def sem_queue_def, simp_all)
  next
    case False
    then show ?thesis using node
      by (intro that) (simp_all add: SemaphoreLeaveMsg_def sem_val_def sem_queue_def, simp_all)
  qed
qed

text \<open>
  With \<open>E\<close> acquisitions, \<open>L\<close> releases and \<open>G\<close> grants behind it, a semaphore of count \<open>I\<close>
  never grants more than it has permits.
\<close>

definition sem_account :: "shared \<Rightarrow> SyncManager \<Rightarrow> ObjectKey \<Rightarrow> int \<Rightarrow> int \<Rightarrow> int \<Rightarrow> int \<Rightarrow> bool" where
  "sem_account cache m b I E L G \<longleftrightarrow> sem_val cache m b = I - E + L \<and>
     G + int (length (sem_queue m b)) = E \<and> G \<le> max 0 I + L"

lemma sem_account_run:
  assumes "sem_run cache b m ops = Ret (m', ws)" "sem_account cache m b I E L G" "0 \<le> L"
  shows "sem_account cache m' b I (E + int (length (filter (\<lambda>p. \<not> is_release p) ops)))
    (L + int (length (filter is_release ops))) (G + int (length ws))"
  using assms
proof (induction ops arbitrary: m ws E L G)
  case Nil
  then show ?case by simp
next
  case (Cons op ops)
  show ?case
  proof (cases op)
    case (Acquire src tid)
    obtain m1 w1 where s: "SemaphoreMsg cache m src b tid = (m1, w1)" by fastforce
    obtain ws' where r: "sem_run cache b m1 ops = Ret (m', ws')" "ws = w1 @ ws'"
      using Cons.prems(1) Acquire s by (cases "sem_run cache b m1 ops") auto
    have "sem_account cache m1 b I (E + 1) L (G + int (length w1))"
      using SemaphoreMsg_spec [of cache m src b tid] s Cons.prems(2,3) by (auto simp: sem_account_def split: if_splits)
    from Cons.IH [OF r(1) this Cons.prems(3)] show ?thesis using r(2) Acquire by (simp add: add.assoc)
  next
    case (Release src tid)
    then have "sync_data m b \<noteq> None" using Cons.prems(1) by (auto simp: SemaphoreLeaveMsg_def split: option.splits)
    then obtain m1 w1 where s: "SemaphoreLeaveMsg cache m src b tid = Ret (m1, w1)"
        "sem_val cache m1 b = sem_val cache m b + 1"
        "w1 = (if 0 \<le> sem_val cache m b + 1 then take 1 (sem_queue m b) else [])"
        "sem_queue m1 b = (if 0 \<le> sem_val cache m b + 1 then drop 1 (sem_queue m b) else sem_queue m b)"
      by (rule SemaphoreLeaveMsg_spec)
    obtain ws' where r: "sem_run cache b m1 ops = Ret (m', ws')" "ws = w1 @ ws'"
      using Cons.prems(1) Release s(1) by (cases "sem_run cache b m1 ops") auto
    have "sem_account cache m1 b I E (L + 1) (G + int (length w1))"
      using s(2-4) Cons.prems(2) by (cases "sem_queue m b") (auto simp: sem_account_def)
    from Cons.IH [OF r(1) this] Cons.prems(3) show ?thesis using r(2) Release by (simp add: add.assoc)
  qed
qed

text \<open>Waiters beyond the first: only the release that lifts the value to 0 wakes anybody.\<close>

lemma sem_run_append:
  "sem_run cache b m (xs @ ys) = cxx_bind (sem_run cache b m xs) (\<lambda>(m', ws).
     cxx_bind (sem_run cache b m' ys) (\<lambda>(m'', ws'). Ret (m'', ws @ ws')))"
proof (induction xs arbitrary: m)
  case Nil
  then show ?case by (cases "sem_run cache b m ys") auto
next
  case (Cons x xs)
  have assoc: "cxx_bind (cxx_bind r f) g = cxx_bind r (\<lambda>x. cxx_bind (f x) g)" for r :: "'x cxx" and f :: "'x \<Rightarrow> 'y cxx" and g :: "'y \<Rightarrow> 'z cxx"
    by (cases r) auto
  show ?case by (cases x) (auto simp: Cons.IH assoc case_prod_unfold)
qed

lemma acquires_queue:
  assumes "sem_val cache m b \<le> 0"
  shows "\<exists>m'. sem_run cache b m (map (\<lambda>(src, tid). Acquire src tid) ts) = Ret (m', []) \<and>
    sem_val cache m' b = sem_val cache m b - int (length ts) \<and>
    sem_queue m' b = sem_queue m b @ map (\<lambda>(src, tid). \<lparr> machine = src, thread_id = tid \<rparr>) ts \<and>
    (ts \<noteq> [] \<longrightarrow> sync_data m' b \<noteq> None)"
  using assms
proof (induction ts arbitrary: m)
  case Nil
  then show ?case by simp
next
  case (Cons t ts)
  obtain src tid where t: "t = (src, tid)" by (cases t)
  obtain m1 w1 where s: "SemaphoreMsg cache m src b tid = (m1, w1)" by fastforce
  note spec = SemaphoreMsg_spec [of cache m src b tid, unfolded s fst_conv snd_conv]
  have v: "sem_val cache m1 b = sem_val cache m b - 1" "w1 = []" 
    "sem_queue m1 b = sem_queue m b @ [\<lparr> machine = src, thread_id = tid \<rparr>]"
    using spec Cons.prems by auto
  then obtain m' where m': "sem_run cache b m1 (map (\<lambda>(src, tid). Acquire src tid) ts) = Ret (m', [])"
      "sem_val cache m' b = sem_val cache m1 b - int (length ts)"
      "sem_queue m' b = sem_queue m1 b @ map (\<lambda>(src, tid). \<lparr> machine = src, thread_id = tid \<rparr>) ts"
      "ts \<noteq> [] \<longrightarrow> sync_data m' b \<noteq> None"
    using Cons.IH [of m1] Cons.prems by auto
  then show ?case using s t v spec(4) by (cases ts) auto
qed

lemma early_releases:
  assumes "sync_data m b \<noteq> None" "sem_val cache m b + int k < 0"
  shows "\<exists>m'. sem_run cache b m (replicate k (Release src tid)) = Ret (m', []) \<and> sync_data m' b \<noteq> None \<and>
    sem_val cache m' b = sem_val cache m b + int k \<and> sem_queue m' b = sem_queue m b"
  using assms
proof (induction k arbitrary: m)
  case 0
  then show ?case by simp
next
  case (Suc k)
  obtain m1 w1 where s: "SemaphoreLeaveMsg cache m src b tid = Ret (m1, w1)" "sync_data m1 b \<noteq> None"
      "sem_val cache m1 b = sem_val cache m b + 1"
      "w1 = (if 0 \<le> sem_val cache m b + 1 then take 1 (sem_queue m b) else [])"
      "sem_queue m1 b = (if 0 \<le> sem_val cache m b + 1 then drop 1 (sem_queue m b) else sem_queue m b)"
    by (rule SemaphoreLeaveMsg_spec [OF Suc.prems(1)])
  have neg: "\<not> 0 \<le> sem_val cache m b + 1" using Suc.prems(2) by simp
  have "sem_val cache m1 b + int k < 0" using Suc.prems(2) s(3) by simp
  then show ?case using Suc.IH [OF s(2)] s neg by auto
qed

section \<open>Events\<close>

datatype event_op = EvWait nat u32 | EvSet nat | EvReset nat

fun event_run :: "shared \<Rightarrow> ObjectKey \<Rightarrow> SyncManager \<Rightarrow> event_op list \<Rightarrow> SyncManager \<times> SyncThreadNode list" where
  "event_run cache b m [] = (m, [])"
| "event_run cache b m (EvWait src tid # ops) =
     (case EventWaitMsg cache m src b tid of (m', ws) \<Rightarrow>
        case event_run cache b m' ops of (m'', ws') \<Rightarrow> (m'', ws @ ws'))"
| "event_run cache b m (EvSet src # ops) =
     (case SetEventMsg cache m src b of (m', ws) \<Rightarrow>
        case event_run cache b m' ops of (m'', ws') \<Rightarrow> (m'', ws @ ws'))"
| "event_run cache b m (EvReset src # ops) = event_run cache b (ResetEventMsg cache m src b) ops"

fun waits :: "event_op list \<Rightarrow> SyncThreadNode list" where
  "waits [] = []"
| "waits (EvWait src tid # ops) = \<lparr> machine = src, thread_id = tid \<rparr> # waits ops"
| "waits (_ # ops) = waits ops"

definition event_ok :: "shared \<Rightarrow> SyncManager \<Rightarrow> ObjectKey \<Rightarrow> bool" where
  "event_ok cache m b \<longleftrightarrow> (sn_val (CreateEventNode cache m b) \<noteq> 0 \<longrightarrow> sn_waitlist (CreateEventNode cache m b) = [])"

lemma CreateEventNode_put [simp]: "CreateEventNode cache (put_node m b node) b = node"
  by (simp add: CreateEventNode_def)

lemma EventWaitMsg_ok:
  assumes "event_ok cache m b"
  shows "event_ok cache (fst (EventWaitMsg cache m src b tid)) b"
    "snd (EventWaitMsg cache m src b tid) @ sn_waitlist (CreateEventNode cache (fst (EventWaitMsg cache m src b tid)) b)
     = sn_waitlist (CreateEventNode cache m b) @ [\<lparr> machine = src, thread_id = tid \<rparr>]"
  using assms by (auto simp: event_ok_def EventWaitMsg_def Let_def)

lemma SetEventMsg_ok:
  "event_ok cache (fst (SetEventMsg cache m src b)) b"
  "snd (SetEventMsg cache m src b) @ sn_waitlist (CreateEventNode cache (fst (SetEventMsg cache m src b)) b)
   = sn_waitlist (CreateEventNode cache m b)"
  by (auto simp: event_ok_def SetEventMsg_def Let_def split: list.splits)

lemma ResetEventMsg_ok:
  "event_ok cache (ResetEventMsg cache m src b) b"
  "sn_waitlist (CreateEventNode cache (ResetEventMsg cache m src b) b) = sn_waitlist (CreateEventNode cache m b)"
  by (simp_all add: event_ok_def ResetEventMsg_def)

lemma event_run_fifo:
  assumes "event_ok cache m b" "event_run cache b m ops = (m', ws)"
  shows "event_ok cache m' b \<and>
    ws @ sn_waitlist (CreateEventNode cache m' b) = sn_waitlist (CreateEventNode cache m b) @ waits ops"
  using assms
proof (induction cache b m ops arbitrary: ws rule: event_run.induct)
  case (2 cache b m src tid ops)
  then show ?case
    using EventWaitMsg_ok [OF "2.prems"(1), of src tid] by (auto split: prod.splits)
next
  case (3 cache b m src ops)
  then show ?case using SetEventMsg_ok [of cache m src b] by (auto split: prod.splits)
next
  case (4 cache b m src ops)
  then show ?case using ResetEventMsg_ok [of cache m src b] by auto
qed auto

section \<open>Properties\<close>

text \<open>
  C23. A semaphore never lets more threads through than its count plus the number of releases,
  whatever the order of the messages.
\<close>

theorem semaphore_grants_bounded:
  assumes "sync_data m b = None" "sem_run cache b m ops = Ret (m', ws)"
  shows "int (length ws) \<le> max 0 (sint (cache b 0)) + int (length (filter is_release ops))"
proof -
  have "sem_account cache m b (sint (cache b 0)) 0 0 0"
    using assms(1) by (simp add: sem_account_def sem_val_def sem_queue_def)
  from sem_account_run [OF assms(2) this] show ?thesis by (simp add: sem_account_def)
qed

theorem semaphore_grants_bounded_witness:
  "\<exists>m' ws. sem_run (\<lambda>_ _. 1) 5 (SyncManager_init 2 0) [Acquire 1 1, Acquire 1 2, Release 1 1] = Ret (m', ws) \<and>
    int (length ws) \<le> 2"
proof -
  obtain m' ws where run: "sem_run (\<lambda>_ _. 1) 5 (SyncManager_init 2 0) [Acquire 1 1, Acquire 1 2, Release 1 1] = Ret (m', ws)"
    by (simp add: SemaphoreMsg_def SemaphoreLeaveMsg_def SyncManager_init_def put_node_def)
  moreover have "sync_data (SyncManager_init 2 0) 5 = None" by (simp add: SyncManager_init_def)
  from semaphore_grants_bounded [OF this run] have "int (length ws) \<le> 2" by simp
  ultimately show ?thesis by blast
qed

text \<open>
  C36. \<^verbatim>\<open>SemaphoreLeaveMsg\<close> wakes a waiter only once the value is back to 0: when \<open>n\<close> threads wait
  on a semaphore of count 0 and it is released \<open>n\<close> times, only the first waiter is ever woken and
  the others stay in the queue of a semaphore whose value is 0.
\<close>

theorem semaphore_lost_wakeups:
  assumes "sync_data m b = None" "cache b 0 = 0" "ts \<noteq> []"
  shows "\<exists>m'. sem_run cache b m (map (\<lambda>(src, tid). Acquire src tid) ts @ replicate (length ts) (Release src tid)) =
      Ret (m', [hd (map (\<lambda>(src, tid). \<lparr> machine = src, thread_id = tid \<rparr>) ts)]) \<and> sem_val cache m' b = 0 \<and>
    sem_queue m' b = tl (map (\<lambda>(src, tid). \<lparr> machine = src, thread_id = tid \<rparr>) ts)"
proof -
  let ?q = "map (\<lambda>(src, tid). \<lparr> machine = src, thread_id = tid \<rparr>) ts"
  have "sem_val cache m b = 0" "sem_queue m b = []" using assms by (simp_all add: sem_val_def sem_queue_def)
  then obtain m1 where m1: "sem_run cache b m (map (\<lambda>(src, tid). Acquire src tid) ts) = Ret (m1, [])"
      "sem_val cache m1 b = - int (length ts)" "sem_queue m1 b = ?q" "sync_data m1 b \<noteq> None"
    using acquires_queue [of cache m b ts] assms(3) by auto
  define k where "k = length ts - 1"
  have k: "length ts = Suc k" using assms(3) by (cases ts) (auto simp: k_def)
  obtain m2 where m2: "sem_run cache b m1 (replicate k (Release src tid)) = Ret (m2, [])" "sync_data m2 b \<noteq> None"
      "sem_val cache m2 b = -1" "sem_queue m2 b = ?q"
    using early_releases [OF m1(4), of cache k src tid] m1 k by auto
  obtain m3 where m3: "SemaphoreLeaveMsg cache m2 src b tid = Ret (m3, take 1 ?q)" "sem_val cache m3 b = 0"
      "sem_queue m3 b = drop 1 ?q"
    by (rule SemaphoreLeaveMsg_spec [OF m2(2), of cache src tid]) (use m2 that in auto)
  have "replicate (length ts) (Release src tid) = replicate k (Release src tid) @ [Release src tid]"
    by (simp add: k replicate_append_same)
  moreover have "?q \<noteq> []" using assms(3) by simp
  ultimately show ?thesis using m1(1) m2(1) m3 by (cases ?q) (auto simp: sem_run_append)
qed

theorem semaphore_lost_wakeups_witness:
  "\<exists>m'. sem_run (\<lambda>_ _. 0) 5 (SyncManager_init 2 0) ([Acquire 1 1, Acquire 1 2] @ replicate 2 (Release 1 3)) =
      Ret (m', [\<lparr> machine = 1, thread_id = 1 \<rparr>]) \<and> sem_queue m' 5 = [\<lparr> machine = 1, thread_id = 2 \<rparr>]"
  using semaphore_lost_wakeups [of "SyncManager_init 2 0" 5 "\<lambda>_ _. 0" "[(1, 1), (1, 2)]" 1 3]
  by (auto simp: SyncManager_init_def numeral_2_eq_2)

text \<open>
  C22. An event serves its waiters first come, first served, and loses none: after any sequence of
  waits, sets and resets, the threads that were woken followed by the threads still queued are
  exactly the threads that waited, in order, and nobody is queued while the event is signalled.
\<close>

theorem event_fifo:
  assumes "sync_data m b = None" "event_run cache b m ops = (m', ws)"
  shows "ws @ sn_waitlist (CreateEventNode cache m' b) = waits ops \<and>
    (sn_val (CreateEventNode cache m' b) \<noteq> 0 \<longrightarrow> sn_waitlist (CreateEventNode cache m' b) = [])"
proof -
  have "event_ok cache m b" "sn_waitlist (CreateEventNode cache m b) = []"
    using assms(1) by (simp_all add: event_ok_def CreateEventNode_def)
  then show ?thesis using event_run_fifo [OF _ assms(2)] by (auto simp: event_ok_def)
qed

theorem event_fifo_witness:
  "\<exists>m' ws. event_run (\<lambda>_ f. if f = 0 then 1 else 0) 5 (SyncManager_init 2 0) [EvWait 1 1, EvWait 1 2, EvSet 0] = (m', ws) \<and>
    ws @ sn_waitlist (CreateEventNode (\<lambda>_ f. if f = 0 then 1 else 0) m' 5) =
      [\<lparr> machine = 1, thread_id = 1 \<rparr>, \<lparr> machine = 1, thread_id = 2 \<rparr>]"
proof -
  obtain m' ws where run: "event_run (\<lambda>_ f. if f = 0 then 1 else 0) 5 (SyncManager_init 2 0) [EvWait 1 1, EvWait 1 2, EvSet 0] = (m', ws)"
    by fastforce
  have "sync_data (SyncManager_init 2 0) 5 = None" by (simp add: SyncManager_init_def)
  from event_fifo [OF this run] run show ?thesis by (intro exI [of _ m'] exI [of _ ws]) simp
qed

end
