(* ===== verification/Dogee_Barrier.thy ===== *)
theory Dogee_Barrier
  imports Dogee_Sync
begin

text \<open>
  The barrier of a whole cluster: threads on the master and on slaves call \<^verbatim>\<open>RcEnterBarrier\<close>, packets
  travel in order, the master counts and wakes, slaves set the thread events, threads return. An
  invariant assigns to every participant the phase it is in; it is kept by every step of every
  interleaving and gives the barrier property and the absence of deadlock.
\<close>

section \<open>Barriers\<close>

type_synonym thread = "nat \<times> u32"

definition th :: "thread \<Rightarrow> SyncThreadNode" where
  "th t = \<lparr> machine = fst t, thread_id = snd t \<rparr>"

lemma th_simps [simp]: "machine (th t) = fst t" "thread_id (th t) = snd t" "th t = th u \<longleftrightarrow> t = u"
  by (auto simp: th_def prod_eq_iff)

lemma th_eq: "\<lparr> machine = n, thread_id = tid \<rparr> = th (n, tid)"
  by (simp add: th_def)

definition wake_pack :: "u32 \<Rightarrow> Packet" where
  "wake_pack tid = Pack (rc_pack RcCmdWakeSync tid 0)"

definition enter_pack :: "ObjectKey \<Rightarrow> u32 \<Rightarrow> RcCommandPack" where
  "enter_pack b tid = rc_pack RcCmdEnterBarrier b tid"

lemma pack_inject [simp]: "wake_pack x = wake_pack y \<longleftrightarrow> x = y" "enter_pack b x = enter_pack b y \<longleftrightarrow> x = y"
  by (auto simp: wake_pack_def enter_pack_def rc_pack_def)

text \<open>What waking a list of threads does to the cluster, in one go.\<close>

definition woken :: "Cluster \<Rightarrow> SyncThreadNode list \<Rightarrow> Cluster" where
  "woken c ths = c\<lparr>
     to_node := (\<lambda>n. to_node c n @ (if n = 0 then [] else
       map (\<lambda>t. wake_pack (thread_id t)) (filter (\<lambda>t. machine t = n) ths))),
     thread_events := (\<lambda>n tid. if n = 0 \<and> th (0, tid) \<in> set ths then Some True else thread_events c n tid) \<rparr>"

lemma wake_all_woken:
  assumes "\<forall>t\<in>set ths. machine t = 0 \<longrightarrow> thread_events c 0 (thread_id t) \<noteq> None"
  shows "wake_all c ths = Ret (woken c ths)"
  using assms
proof (induction ths arbitrary: c)
  case Nil
  then show ?case by (simp add: woken_def cong: if_cong)
next
  case (Cons t ths)
  obtain c' where c': "RcWakeRemoteThread c t = Ret c'" "c' = woken c [t]"
  proof (cases "machine t = 0")
    case True
    then obtain e where "thread_events c 0 (thread_id t) = Some e" using Cons.prems by auto
    then show ?thesis using that True
      by (cases t) (auto simp: RcWakeRemoteThread_def RcSetRemoteEvent_def set_event_def woken_def th_def fun_eq_iff)
  next
    case False
    then show ?thesis using that
      by (cases t) (auto simp: RcWakeRemoteThread_def send_node_def woken_def th_def wake_pack_def fun_eq_iff)
  qed
  have "\<forall>u\<in>set ths. machine u = 0 \<longrightarrow> thread_events c' 0 (thread_id u) \<noteq> None"
    using Cons.prems c'(2) by (auto simp: woken_def)
  then have "wake_all c' ths = Ret (woken c' ths)" by (rule Cons.IH)
  moreover have "woken c' ths = woken c (t # ths)"
    using c'(2) by (auto simp: woken_def fun_eq_iff)
  ultimately show ?case using c'(1) by simp
qed

lemma count_list_append [simp]: "count_list (xs @ ys) x = count_list xs x + count_list ys x"
  by (induction xs) auto

lemma count_list_wakes:
  "count_list (map (\<lambda>t. wake_pack (thread_id t)) (filter (\<lambda>t. machine t = n) ths)) (wake_pack tid)
   = count_list ths (th (n, tid))"
  by (induction ths) (auto simp: th_def)

lemma count_list_distinct: "distinct xs \<Longrightarrow> count_list xs x = (if x \<in> set xs then 1 else 0)"
  by (induction xs) auto

text \<open>Where a participant of the barrier is.\<close>

datatype phase = Running | Arriving | Waiting | Woken | Signalled

definition barrier_node :: "shared \<Rightarrow> Cluster \<Rightarrow> ObjectKey \<Rightarrow> SyncNode" where
  "barrier_node cache c b = (case sync_data (syncmanager c) b of
      None \<Rightarrow> \<lparr> sn_kind = Barrier, sn_val = 0, sn_data = sint (cache b 0), sn_waitlist = [] \<rparr>
    | Some node \<Rightarrow> node)"

definition in_flight :: "Cluster \<Rightarrow> ObjectKey \<Rightarrow> thread \<Rightarrow> nat" where
  "in_flight c b t = count_list (to_master c (fst t)) (enter_pack b (snd t))"

definition wakes :: "Cluster \<Rightarrow> thread \<Rightarrow> nat" where
  "wakes c t = count_list (to_node c (fst t)) (wake_pack (snd t))"

definition event :: "Cluster \<Rightarrow> thread \<Rightarrow> bool option" where
  "event c t = thread_events c (fst t) (snd t)"

definition is_blocked :: "Cluster \<Rightarrow> thread \<Rightarrow> bool" where
  "is_blocked c t = blocked c (fst t) (snd t)"

definition in_queue :: "shared \<Rightarrow> Cluster \<Rightarrow> ObjectKey \<Rightarrow> thread \<Rightarrow> bool" where
  "in_queue cache c b t \<longleftrightarrow> th t \<in> set (sn_waitlist (barrier_node cache c b))"

fun phase_ok :: "shared \<Rightarrow> Cluster \<Rightarrow> ObjectKey \<Rightarrow> thread \<Rightarrow> phase \<Rightarrow> bool" where
  "phase_ok cache c b t Running = (\<not> is_blocked c t \<and> in_flight c b t = 0 \<and> \<not> in_queue cache c b t \<and>
     wakes c t = 0 \<and> event c t \<noteq> None)"
| "phase_ok cache c b t Arriving = (is_blocked c t \<and> in_flight c b t = 1 \<and> \<not> in_queue cache c b t \<and>
     wakes c t = 0 \<and> event c t = Some False)"
| "phase_ok cache c b t Waiting = (is_blocked c t \<and> in_flight c b t = 0 \<and> in_queue cache c b t \<and>
     wakes c t = 0 \<and> event c t = Some False)"
| "phase_ok cache c b t Woken = (is_blocked c t \<and> in_flight c b t = 0 \<and> \<not> in_queue cache c b t \<and>
     wakes c t = 1 \<and> event c t = Some False)"
| "phase_ok cache c b t Signalled = (is_blocked c t \<and> in_flight c b t = 0 \<and> \<not> in_queue cache c b t \<and>
     wakes c t = 0 \<and> event c t = Some True)"

text \<open>How often a thread in the given phase has entered and left, in generation \<open>g\<close>.\<close>

fun entered :: "nat \<Rightarrow> phase \<Rightarrow> nat" where
  "entered g Arriving = g + 1"
| "entered g Waiting = g + 1"
| "entered g _ = g"

fun left :: "nat \<Rightarrow> phase \<Rightarrow> nat" where
  "left g Woken = g - 1"
| "left g Signalled = g - 1"
| "left g _ = g"

definition barrier_inv ::
    "shared \<Rightarrow> thread set \<Rightarrow> thread set \<Rightarrow> ObjectKey \<Rightarrow> Cluster \<Rightarrow> nat \<Rightarrow> (thread \<Rightarrow> phase) \<Rightarrow> bool" where
  "barrier_inv cache P Q b c g ph \<longleftrightarrow>
     (\<forall>i. \<not> slave_done c i) \<and>
     (\<forall>i. \<forall>p\<in>set (to_master c i). \<exists>tid. (i, tid) \<in> P \<and> p = enter_pack b tid) \<and>
     (\<forall>i. \<forall>p\<in>set (to_node c i). \<exists>tid. (i, tid) \<in> P \<and> p = wake_pack tid) \<and>
     sn_data (barrier_node cache c b) = int (card P) \<and>
     sn_val (barrier_node cache c b) = int (length (sn_waitlist (barrier_node cache c b))) \<and>
     length (sn_waitlist (barrier_node cache c b)) < card P \<and>
     distinct (sn_waitlist (barrier_node cache c b)) \<and>
     set (sn_waitlist (barrier_node cache c b)) \<subseteq> th ` P \<and>
     (\<forall>t\<in>Q. phase_ok cache c b t (ph t) \<and> (ph t \<in> {Woken, Signalled} \<longrightarrow> 0 < g))"

lemma barrier_inv_phase: "barrier_inv cache P Q b c g ph \<Longrightarrow> t \<in> Q \<Longrightarrow> phase_ok cache c b t (ph t)"
  by (simp add: barrier_inv_def)

lemma barrier_inv_channels:
  assumes "barrier_inv cache P Q b c g ph"
  shows "p \<in> set (to_master c i) \<Longrightarrow> \<exists>tid. (i, tid) \<in> P \<and> p = enter_pack b tid"
    "q \<in> set (to_node c i) \<Longrightarrow> \<exists>tid. (i, tid) \<in> P \<and> q = wake_pack tid"
  using assms by (auto simp: barrier_inv_def)

lemma phase_ok_cong:
  assumes "is_blocked c' t = is_blocked c t" "in_flight c' b t = in_flight c b t"
    "in_queue cache c' b t = in_queue cache c b t" "wakes c' t = wakes c t" "event c' t = event c t"
  shows "phase_ok cache c' b t p = phase_ok cache c b t p"
  using assms by (cases p) simp_all

lemma phase_ok_event: "phase_ok cache c b t p \<Longrightarrow> event c t \<noteq> None"
  by (cases p) auto

lemma phase_ok_queue: "phase_ok cache c b t p \<Longrightarrow> in_queue cache c b t \<longleftrightarrow> p = Waiting"
  by (cases p) auto

lemma barrier_node_put [simp]: "barrier_node cache (c\<lparr> syncmanager := put_node m b node \<rparr>) b = node"
  by (simp add: barrier_node_def put_node_def)

lemma observers_syncmanager [simp]:
  "in_flight (c\<lparr> syncmanager := m \<rparr>) b t = in_flight c b t" "wakes (c\<lparr> syncmanager := m \<rparr>) t = wakes c t"
  "event (c\<lparr> syncmanager := m \<rparr>) t = event c t" "is_blocked (c\<lparr> syncmanager := m \<rparr>) t = is_blocked c t"
  by (simp_all add: in_flight_def wakes_def event_def is_blocked_def)

lemma observers_woken [simp]:
  "in_flight (woken c ths) b t = in_flight c b t" "is_blocked (woken c ths) t = is_blocked c t"
  "barrier_node cache (woken c ths) b = barrier_node cache c b"
  "slave_done (woken c ths) = slave_done c" "to_master (woken c ths) = to_master c"
  by (simp_all add: in_flight_def is_blocked_def barrier_node_def woken_def)

lemma wakes_woken: "wakes (woken c ths) t = wakes c t + (if fst t = 0 then 0 else count_list ths (th t))"
  using count_list_wakes [of "fst t" ths "snd t"] by (simp add: wakes_def woken_def)

lemma event_woken: "event (woken c ths) t = (if fst t = 0 \<and> th t \<in> set ths then Some True else event c t)"
  by (cases t) (auto simp: event_def woken_def)

definition arrived :: "shared \<Rightarrow> Cluster \<Rightarrow> ObjectKey \<Rightarrow> thread \<Rightarrow> bool" where
  "arrived cache c b t \<longleftrightarrow> is_blocked c t \<and> in_flight c b t = 0 \<and> \<not> in_queue cache c b t \<and>
     wakes c t = 0 \<and> event c t = Some False"

lemma BarrierMsg_node:
  "BarrierMsg cache (syncmanager c) (fst t) b (snd t) =
     (let node = barrier_node cache c b in
      if sn_data node \<le> sn_val node + 1
      then (put_node (syncmanager c) b (node\<lparr> sn_val := 0, sn_waitlist := [] \<rparr>), th t # sn_waitlist node)
      else (put_node (syncmanager c) b (node\<lparr> sn_val := sn_val node + 1, sn_waitlist := sn_waitlist node @ [th t] \<rparr>), []))"
  by (simp add: BarrierMsg_def barrier_node_def th_def Let_def)

lemma arrival_waits:
  assumes inv: "barrier_inv cache P (P - {t}) b c g ph" and t: "t \<in> P" "arrived cache c b t"
    and room: "length (sn_waitlist (barrier_node cache c b)) + 1 < card P"
  shows "\<exists>c'. deliver c (BarrierMsg cache (syncmanager c) (fst t) b (snd t)) = Ret c' \<and>
    barrier_inv cache P P b c' g (ph(t := Waiting))"
proof -
  let ?n = "barrier_node cache c b"
  let ?n' = "?n\<lparr> sn_val := sn_val ?n + 1, sn_waitlist := sn_waitlist ?n @ [th t] \<rparr>"
  let ?c = "c\<lparr> syncmanager := put_node (syncmanager c) b ?n' \<rparr>"
  have "deliver c (BarrierMsg cache (syncmanager c) (fst t) b (snd t)) = Ret ?c"
    using inv room by (simp add: BarrierMsg_node deliver_def barrier_inv_def Let_def)
  moreover have "phase_ok cache ?c b u ((ph(t := Waiting)) u)" if "u \<in> P" for u
  proof (cases "u = t")
    case True
    then show ?thesis using t(2) by (simp add: arrived_def in_queue_def)
  next
    case False
    then have "phase_ok cache ?c b u (ph u) = phase_ok cache c b u (ph u)"
      by (intro phase_ok_cong) (auto simp: in_queue_def)
    then show ?thesis using False barrier_inv_phase [OF inv, of u] that by simp
  qed
  then have "barrier_inv cache P P b ?c g (ph(t := Waiting))"
    using inv room t unfolding barrier_inv_def arrived_def in_queue_def by simp
  ultimately show ?thesis by blast
qed

lemma full_queue:
  assumes inv: "barrier_inv cache P (P - {t}) b c g ph" and t: "t \<in> P" "arrived cache c b t" and "finite P"
    and full: "\<not> length (sn_waitlist (barrier_node cache c b)) + 1 < card P" and u: "u \<in> P" "u \<noteq> t"
  shows "ph u = Waiting"
proof -
  let ?W = "sn_waitlist (barrier_node cache c b)"
  have "set ?W \<subseteq> th ` (P - {t})"
    using inv t(2) by (auto simp: barrier_inv_def arrived_def in_queue_def)
  moreover have "card (th ` (P - {t})) = card P - 1"
    using t(1) \<open>finite P\<close> by (subst card_image) (auto simp: inj_on_def)
  moreover have "card (set ?W) = card P - 1"
    using inv full by (auto simp: barrier_inv_def distinct_card)
  ultimately have "set ?W = th ` (P - {t})"
    using \<open>finite P\<close> by (intro card_subset_eq) auto
  then have "in_queue cache c b u" using u by (auto simp: in_queue_def)
  then show ?thesis using barrier_inv_phase [OF inv, of u] u phase_ok_queue by blast
qed

lemma arrival_releases:
  assumes inv: "barrier_inv cache P (P - {t}) b c g ph" and t: "t \<in> P" "arrived cache c b t" and "finite P"
    and full: "\<not> length (sn_waitlist (barrier_node cache c b)) + 1 < card P"
  shows "\<exists>c'. deliver c (BarrierMsg cache (syncmanager c) (fst t) b (snd t)) = Ret c' \<and>
    barrier_inv cache P P b c' (g + 1) (\<lambda>u. if fst u = 0 then Signalled else Woken)"
proof -
  let ?n = "barrier_node cache c b"
  let ?ths = "th t # sn_waitlist ?n"
  let ?c = "c\<lparr> syncmanager := put_node (syncmanager c) b (?n\<lparr> sn_val := 0, sn_waitlist := [] \<rparr>) \<rparr>"
  let ?c' = "woken ?c ?ths"
  have waiting: "phase_ok cache c b u Waiting" if "u \<in> P" "u \<noteq> t" for u
    using full_queue [OF assms that] barrier_inv_phase [OF inv, of u] that by simp
  have dist: "distinct ?ths" using inv t(2) by (auto simp: barrier_inv_def arrived_def in_queue_def)
  have mem: "th u \<in> set ?ths" if "u \<in> P" for u
    using waiting that by (cases "u = t") (auto simp: in_queue_def)
  have sub: "set ?ths \<subseteq> th ` P" using inv t(1) by (auto simp: barrier_inv_def)
  have "event c u \<noteq> None" if "u \<in> P" for u
    using waiting that t(2) by (cases "u = t") (auto simp: arrived_def)
  then have "wake_all ?c ?ths = Ret ?c'"
    using sub by (intro wake_all_woken) (force simp: event_def)
  moreover have "BarrierMsg cache (syncmanager c) (fst t) b (snd t) = (syncmanager ?c, ?ths)"
    using inv full by (simp add: BarrierMsg_node barrier_inv_def Let_def)
  ultimately have "deliver c (BarrierMsg cache (syncmanager c) (fst t) b (snd t)) = Ret ?c'"
    by (simp add: deliver_def)
  moreover have "phase_ok cache ?c' b u (if fst u = 0 then Signalled else Woken)" if "u \<in> P" for u
    using mem [OF that] waiting [OF that] t(2) count_list_distinct [OF dist, of "th u"]
    by (cases "u = t") (auto simp: arrived_def in_queue_def wakes_woken event_woken)
  moreover have "\<exists>tid. (i, tid) \<in> P \<and> p = wake_pack tid" if "p \<in> set (to_node ?c' i)" for i p
  proof -
    from that have "p \<in> set (to_node c i) \<or> (\<exists>x\<in>set ?ths. machine x = i \<and> p = wake_pack (thread_id x))"
      by (auto simp: woken_def split: if_splits)
    then show ?thesis using inv sub by (auto simp: barrier_inv_def subset_iff)
  qed
  ultimately show ?thesis using inv t(1) \<open>finite P\<close> by (auto simp: barrier_inv_def)
qed

lemma arrival:
  assumes "barrier_inv cache P (P - {t}) b c g ph" "t \<in> P" "arrived cache c b t" "finite P"
  obtains c' g' ph' where "deliver c (BarrierMsg cache (syncmanager c) (fst t) b (snd t)) = Ret c'"
    "barrier_inv cache P P b c' g' ph'"
    "\<forall>u\<in>P. entered g' (ph' u) = entered g ((ph(t := Arriving)) u) \<and> left g' (ph' u) = left g ((ph(t := Arriving)) u)"
proof (cases "length (sn_waitlist (barrier_node cache c b)) + 1 < card P")
  case True
  then show ?thesis using that arrival_waits [OF assms(1-3) True] by fastforce
next
  case False
  have "entered (g + 1) (if fst u = 0 then Signalled else Woken) = entered g ((ph(t := Arriving)) u) \<and>
      left (g + 1) (if fst u = 0 then Signalled else Woken) = left g ((ph(t := Arriving)) u)" if "u \<in> P" for u
    using full_queue [OF assms False that] by auto
  then show ?thesis using that arrival_releases [OF assms False] by blast
qed

lemma wake_all_block:
  "cxx_bind (wake_all c ths) (\<lambda>c. Ret (block_thread c n tid)) = wake_all (block_thread c n tid) ths"
proof (induction ths arbitrary: c)
  case (Cons t ths)
  have "RcWakeRemoteThread (block_thread c n tid) t = cxx_bind (RcWakeRemoteThread c t) (\<lambda>c. Ret (block_thread c n tid))"
    by (simp add: RcWakeRemoteThread_def RcSetRemoteEvent_def set_event_def send_node_def block_thread_def split: option.splits)
  then show ?case using Cons.IH by (cases "RcWakeRemoteThread c t") simp_all
qed simp

lemma deliver_block:
  "cxx_bind (deliver c r) (\<lambda>c. Ret (block_thread c n tid)) = deliver (block_thread c n tid) r"
proof -
  have "block_thread (c\<lparr> syncmanager := fst r \<rparr>) n tid = (block_thread c n tid)\<lparr> syncmanager := fst r \<rparr>"
    by (cases c) (simp add: block_thread_def)
  then show ?thesis
    using wake_all_block [of "c\<lparr> syncmanager := fst r \<rparr>" "snd r" n tid]
    by (simp add: deliver_def case_prod_unfold)
qed

text \<open>The thread has reset its event and waits; its request is not yet on the way.\<close>

definition asking :: "Cluster \<Rightarrow> thread \<Rightarrow> Cluster" where
  "asking c t = block_thread (set_event c (fst t) (snd t) (Some False)) (fst t) (snd t)"

lemma asking_simps [simp]:
  "is_blocked (asking c t) u = (u = t \<or> is_blocked c u)" "in_flight (asking c t) b u = in_flight c b u"
  "wakes (asking c t) u = wakes c u" "event (asking c t) u = (if u = t then Some False else event c u)"
  "barrier_node cache (asking c t) b = barrier_node cache c b" "slave_done (asking c t) = slave_done c"
  "to_master (asking c t) = to_master c" "to_node (asking c t) = to_node c"
  "in_queue cache (asking c t) b u = in_queue cache c b u" "syncmanager (asking c t) = syncmanager c"
  by (auto simp: asking_def block_thread_def set_event_def is_blocked_def in_flight_def wakes_def event_def
      barrier_node_def in_queue_def prod_eq_iff)

lemma RcEnterBarrier_asking:
  assumes "event c t \<noteq> None"
  shows "RcEnterBarrier cache c (fst t) (snd t) b =
    (if fst t = 0 then deliver (asking c t) (BarrierMsg cache (syncmanager c) (fst t) b (snd t))
     else Ret (send_master (asking c t) (fst t) (enter_pack b (snd t))))"
proof -
  let ?c = "set_event c (fst t) (snd t) (Some False)"
  obtain e where "thread_events c (fst t) (snd t) = Some e" using assms by (auto simp: event_def)
  then have "RcResetRemoteEvent c (fst t) (snd t) = Ret ?c" by (simp add: RcResetRemoteEvent_def)
  moreover have "syncmanager ?c = syncmanager c" by (simp add: set_event_def)
  ultimately show ?thesis
    by (cases "fst t = 0")
      (simp_all add: RcEnterBarrier_def sync_request_def deliver_block asking_def enter_pack_def,
       simp add: send_master_def block_thread_def)
qed

lemma step_call:
  assumes inv: "barrier_inv cache P P b c g ph" and t: "t \<in> P" "\<not> is_blocked c t" and "finite P"
  obtains c' g' ph' where "RcEnterBarrier cache c (fst t) (snd t) b = Ret c'" "barrier_inv cache P P b c' g' ph'"
    "\<forall>u\<in>P. entered g' (ph' u) = entered g (ph u) + (if u = t then 1 else 0) \<and> left g' (ph' u) = left g (ph u)"
proof -
  have run: "ph t = Running" using barrier_inv_phase [OF inv t(1)] t(2) by (cases "ph t") auto
  then have ok: "phase_ok cache c b t Running" using barrier_inv_phase [OF inv t(1)] by simp
  have other: "phase_ok cache (asking c t) b u (ph u)" if "u \<in> P - {t}" for u
  proof -
    have "phase_ok cache (asking c t) b u (ph u) = phase_ok cache c b u (ph u)"
      using that by (intro phase_ok_cong) auto
    then show ?thesis using barrier_inv_phase [OF inv, of u] that by simp
  qed
  then have inv': "barrier_inv cache P (P - {t}) b (asking c t) g ph"
    using inv by (auto simp: barrier_inv_def)
  have arr: "arrived cache (asking c t) b t" using ok by (simp add: arrived_def)
  have cnt: "entered g ((ph(t := Arriving)) u) = entered g (ph u) + (if u = t then 1 else 0)"
    "left g ((ph(t := Arriving)) u) = left g (ph u)" for u using run by auto
  have ev: "event c t \<noteq> None" using ok by simp
  show ?thesis
  proof (cases "fst t = 0")
    case True
    show ?thesis
      by (rule arrival [OF inv' t(1) arr \<open>finite P\<close>])
        (use that True cnt RcEnterBarrier_asking [OF ev] in auto)
  next
    case False
    let ?c = "send_master (asking c t) (fst t) (enter_pack b (snd t))"
    have obs: "is_blocked ?c u = is_blocked (asking c t) u" "wakes ?c u = wakes (asking c t) u"
      "event ?c u = event (asking c t) u" "barrier_node cache ?c b = barrier_node cache (asking c t) b"
      "in_flight ?c b u = in_flight (asking c t) b u + (if u = t then 1 else 0)" "slave_done ?c = slave_done c"
      "to_node ?c = to_node c" for u
      by (auto simp: send_master_def is_blocked_def wakes_def event_def barrier_node_def in_flight_def prod_eq_iff)
    have "phase_ok cache ?c b u ((ph(t := Arriving)) u)" if "u \<in> P" for u
    proof (cases "u = t")
      case True
      then show ?thesis using ok by (simp add: obs in_queue_def)
    next
      case False
      then have "phase_ok cache ?c b u (ph u) = phase_ok cache (asking c t) b u (ph u)"
        by (intro phase_ok_cong) (simp_all add: obs in_queue_def)
      then show ?thesis using False other that by simp
    qed
    moreover have "\<exists>tid. (i, tid) \<in> P \<and> p = enter_pack b tid" if "p \<in> set (to_master ?c i)" for i p
      using that inv t(1) by (auto simp: send_master_def barrier_inv_def split: if_splits)
    ultimately have "barrier_inv cache P P b ?c g (ph(t := Arriving))"
      using inv run by (auto simp: barrier_inv_def obs)
    then show ?thesis using that cnt False RcEnterBarrier_asking [OF ev] by auto
  qed
qed

lemma step_master:
  assumes inv: "barrier_inv cache P P b c g ph" and i: "to_master c i = p # ps" and "finite P"
  obtains c' g' ph' where "RcMasterListen cache 0 (c\<lparr> to_master := (to_master c)(i := ps) \<rparr>) i p = Ret c'"
    "barrier_inv cache P P b c' g' ph'"
    "\<forall>u\<in>P. entered g' (ph' u) = entered g (ph u) \<and> left g' (ph' u) = left g (ph u)"
proof -
  let ?c = "c\<lparr> to_master := (to_master c)(i := ps) \<rparr>"
  obtain tid where tid: "(i, tid) \<in> P" "p = enter_pack b tid"
    using barrier_inv_channels(1) [OF inv, of p i] i by auto
  let ?t = "(i, tid)"
  have "in_flight c b ?t \<noteq> 0" using i tid(2) by (simp add: in_flight_def)
  then have ph: "ph ?t = Arriving" using barrier_inv_phase [OF inv tid(1)] by (cases "ph ?t") auto
  have obs: "is_blocked ?c u = is_blocked c u" "wakes ?c u = wakes c u" "event ?c u = event c u"
    "barrier_node cache ?c b = barrier_node cache c b" "in_flight ?c b u = in_flight c b u - (if u = ?t then 1 else 0)" for u
    using i tid(2) by (auto simp: is_blocked_def wakes_def event_def barrier_node_def in_flight_def prod_eq_iff)
  have "phase_ok cache ?c b u (ph u)" if "u \<in> P - {?t}" for u
  proof -
    have "phase_ok cache ?c b u (ph u) = phase_ok cache c b u (ph u)"
      using that by (intro phase_ok_cong) (auto simp: obs in_queue_def)
    then show ?thesis using barrier_inv_phase [OF inv, of u] that by simp
  qed
  moreover have "\<exists>tid. (j, tid) \<in> P \<and> q = enter_pack b tid" if "q \<in> set (to_master ?c j)" for j q
    using that i barrier_inv_channels(1) [OF inv, of q j] by (cases "j = i") auto
  ultimately have inv': "barrier_inv cache P (P - {?t}) b ?c g ph"
    using inv by (auto simp: barrier_inv_def obs)
  have arr: "arrived cache ?c b ?t"
    using barrier_inv_phase [OF inv tid(1)] ph by (auto simp: arrived_def obs in_queue_def)
  have upd: "ph(?t := Arriving) = ph" using ph by auto
  have "RcMasterListen cache 0 ?c i p = deliver ?c (BarrierMsg cache (syncmanager ?c) (fst ?t) b (snd ?t))"
    using tid(2) by (simp add: RcMasterListen_def enter_pack_def rc_pack_def)
  then show ?thesis
    using that by (rule_tac arrival [OF inv' tid(1) arr \<open>finite P\<close>]) (auto simp: upd)
qed

lemma step_slave:
  assumes inv: "barrier_inv cache P P b c g ph" and i: "RcSlaveMainLoop c i = Some r"
  obtains c' ph' where "r = Ret c'" "barrier_inv cache P P b c' g ph'"
    "\<forall>u\<in>P. entered g (ph' u) = entered g (ph u) \<and> left g (ph' u) = left g (ph u)"
proof -
  obtain q ps where q: "to_node c i = q # ps"
    using i inv by (auto simp: RcSlaveMainLoop_def barrier_inv_def split: list.splits)
  then obtain tid where tid: "(i, tid) \<in> P" "q = wake_pack tid"
    using barrier_inv_channels(2) [OF inv, of q i] by auto
  let ?t = "(i, tid)" and ?c = "set_event (c\<lparr> to_node := (to_node c)(i := ps) \<rparr>) i tid (Some True)"
  have "wakes c ?t \<noteq> 0" using q tid(2) by (simp add: wakes_def)
  then have ph: "ph ?t = Woken" using barrier_inv_phase [OF inv tid(1)] by (cases "ph ?t") auto
  have "event c ?t \<noteq> None" using barrier_inv_phase [OF inv tid(1)] ph by auto
  then have r: "r = Ret ?c"
    using i q tid(2) inv by (auto simp: RcSlaveMainLoop_def RcSetRemoteEvent_def barrier_inv_def wake_pack_def
        rc_pack_def event_def)
  have obs: "is_blocked ?c u = is_blocked c u" "in_flight ?c b u = in_flight c b u"
    "barrier_node cache ?c b = barrier_node cache c b" "event ?c u = (if u = ?t then Some True else event c u)"
    "wakes ?c u = wakes c u - (if u = ?t then 1 else 0)" for u
    using q tid(2) by (auto simp: set_event_def is_blocked_def wakes_def event_def barrier_node_def in_flight_def prod_eq_iff)
  have "phase_ok cache ?c b u ((ph(?t := Signalled)) u)" if "u \<in> P" for u
  proof (cases "u = ?t")
    case True
    then show ?thesis using barrier_inv_phase [OF inv tid(1)] ph by (auto simp: obs in_queue_def)
  next
    case False
    then have "phase_ok cache ?c b u (ph u) = phase_ok cache c b u (ph u)"
      by (intro phase_ok_cong) (auto simp: obs in_queue_def)
    then show ?thesis using barrier_inv_phase [OF inv, of u] that False by simp
  qed
  moreover have "\<exists>tid. (j, tid) \<in> P \<and> x = wake_pack tid" if "x \<in> set (to_node ?c j)" for j x
    using that q barrier_inv_channels(2) [OF inv, of x j] by (cases "j = i") (auto simp: set_event_def)
  moreover have "0 < g" using inv tid(1) ph by (auto simp: barrier_inv_def)
  ultimately have "barrier_inv cache P P b ?c g (ph(?t := Signalled))"
    using inv by (auto simp: barrier_inv_def obs) (auto simp: set_event_def)
  then show ?thesis using that r ph by auto
qed

lemma step_return:
  assumes inv: "barrier_inv cache P P b c g ph" and t: "is_blocked c t" "event c t = Some True"
    and c': "c' = c\<lparr> blocked := (blocked c)(fst t := (blocked c (fst t))(snd t := False)) \<rparr>"
  obtains ph' where "barrier_inv cache P P b c' g ph'"
    "\<forall>u\<in>P. entered g (ph' u) = entered g (ph u) \<and> left g (ph' u) = left g (ph u) + (if u = t then 1 else 0)"
proof -
  have obs: "is_blocked c' u = (is_blocked c u \<and> u \<noteq> t)" "in_flight c' b u = in_flight c b u"
    "barrier_node cache c' b = barrier_node cache c b" "event c' u = event c u" "wakes c' u = wakes c u" for u
    by (auto simp: c' is_blocked_def wakes_def event_def barrier_node_def in_flight_def prod_eq_iff)
  have ph: "ph t = Signalled" "0 < g" if "t \<in> P"
    using barrier_inv_phase [OF inv that] t inv that by (cases "ph t"; auto simp: barrier_inv_def)+
  have "phase_ok cache c' b u ((ph(t := Running)) u)" if "u \<in> P" for u
  proof (cases "u = t")
    case True
    then show ?thesis using barrier_inv_phase [OF inv, of t] ph that by (auto simp: obs in_queue_def)
  next
    case False
    then have "phase_ok cache c' b u (ph u) = phase_ok cache c b u (ph u)"
      by (intro phase_ok_cong) (auto simp: obs in_queue_def)
    then show ?thesis using barrier_inv_phase [OF inv, of u] that False by simp
  qed
  then have "barrier_inv cache P P b c' g (ph(t := Running))"
    using inv by (auto simp: barrier_inv_def obs) (auto simp: c')
  then show ?thesis using that ph by auto
qed

definition barrier_init :: "shared \<Rightarrow> thread set \<Rightarrow> ObjectKey \<Rightarrow> Cluster \<Rightarrow> bool" where
  "barrier_init cache P b c \<longleftrightarrow> finite P \<and> P \<noteq> {} \<and> sint (cache b 0) = int (card P) \<and>
     sync_data (syncmanager c) b = None \<and> (\<forall>i. to_master c i = [] \<and> to_node c i = [] \<and> \<not> slave_done c i) \<and>
     (\<forall>(n, tid)\<in>P. thread_events c n tid \<noteq> None \<and> \<not> blocked c n tid)"

fun barrier_call :: "thread set \<Rightarrow> ObjectKey \<Rightarrow> label \<Rightarrow> bool" where
  "barrier_call P b (Call n tid call) = ((n, tid) \<in> P \<and> call = EnterBarrier b)"
| "barrier_call P b _ = True"

lemma barrier_init_inv:
  assumes "barrier_init cache P b c"
  shows "barrier_inv cache P P b c 0 (\<lambda>_. Running)"
  using assms by (auto simp: barrier_init_def barrier_inv_def barrier_node_def in_flight_def wakes_def event_def
      is_blocked_def in_queue_def card_gt_0_iff)

abbreviation enters :: "ObjectKey \<Rightarrow> label list \<Rightarrow> thread \<Rightarrow> nat" where
  "enters b tr t \<equiv> count_list tr (Call (fst t) (snd t) (EnterBarrier b))"

abbreviation returns :: "label list \<Rightarrow> thread \<Rightarrow> nat" where
  "returns tr t \<equiv> count_list tr (Return (fst t) (snd t))"

lemma barrier_step:
  assumes inv: "barrier_inv cache P P b c g ph" and "finite P" and l: "barrier_call P b l"
    and ex: "cluster_exec cache c l = Some r"
  obtains c' g' ph' where "r = Ret c'" "barrier_inv cache P P b c' g' ph'"
    "\<forall>u\<in>P. entered g' (ph' u) = entered g (ph u) + enters b [l] u \<and> left g' (ph' u) = left g (ph u) + returns [l] u"
proof (cases l)
  case (Call n tid call)
  then have t: "(n, tid) \<in> P" "call = EnterBarrier b" "\<not> is_blocked c (n, tid)" "RcEnterBarrier cache c n tid b = r"
    using l ex by (auto simp: is_blocked_def split: if_splits)
  show ?thesis
    by (rule step_call [OF inv t(1,3) \<open>finite P\<close>]) (use that t Call in \<open>auto simp: prod_eq_iff\<close>)
next
  case (MasterStep i)
  then obtain p ps where p: "to_master c i = p # ps"
      "RcMasterListen cache 0 (c\<lparr> to_master := (to_master c)(i := ps) \<rparr>) i p = r"
    using ex by (auto split: list.splits)
  show ?thesis
    by (rule step_master [OF inv p(1) \<open>finite P\<close>]) (use that p(2) MasterStep in auto)
next
  case (SlaveStep i)
  then have "RcSlaveMainLoop c i = Some r" using ex by simp
  then show ?thesis
    by (rule step_slave [OF inv]) (use that SlaveStep in auto)
next
  case (Return n tid)
  then have t: "is_blocked c (n, tid)" "event c (n, tid) = Some True"
      "r = Ret (c\<lparr> blocked := (blocked c)(n := (blocked c n)(tid := False)) \<rparr>)"
    using ex by (auto simp: is_blocked_def event_def split: if_splits)
  show ?thesis
    by (rule step_return [OF inv t(1,2)]) (use that t(3) Return in \<open>auto simp: prod_eq_iff\<close>)
qed

lemma barrier_trace_inv:
  assumes "cluster_trace cache c0 tr c" "barrier_init cache P b c0" "\<forall>l\<in>set tr. barrier_call P b l"
  shows "\<exists>g ph. barrier_inv cache P P b c g ph \<and>
    (\<forall>u\<in>P. enters b tr u = entered g (ph u) \<and> returns tr u = left g (ph u))"
  using assms(1,3)
proof (induction rule: cluster_trace.induct)
  case start
  then show ?case using barrier_init_inv [OF assms(2)] by (intro exI [of _ 0] exI [of _ "\<lambda>_. Running"]) simp
next
  case (step tr c l c')
  then obtain g ph where inv: "barrier_inv cache P P b c g ph"
      "\<forall>u\<in>P. enters b tr u = entered g (ph u) \<and> returns tr u = left g (ph u)"
    by auto
  have "finite P" using assms(2) by (simp add: barrier_init_def)
  have "barrier_call P b l" using step.prems by simp
  then obtain g' ph' where "barrier_inv cache P P b c' g' ph'"
      "\<forall>u\<in>P. entered g' (ph' u) = entered g (ph u) + enters b [l] u \<and> left g' (ph' u) = left g (ph u) + returns [l] u"
    by (rule barrier_step [OF inv(1) \<open>finite P\<close> _ step.hyps(2)]) auto
  then show ?case using inv(2) unfolding count_list_append by (intro exI [of _ g'] exI [of _ ph']) simp
qed

lemma left_le_entered: "left g p \<le> g" "g \<le> entered g p"
  by (cases p; simp)+

section \<open>A run\<close>

fun cluster_run :: "shared \<Rightarrow> Cluster \<Rightarrow> label list \<Rightarrow> Cluster option" where
  "cluster_run cache c [] = Some c"
| "cluster_run cache c (l # ls) = (case cluster_exec cache c l of Some (Ret c') \<Rightarrow> cluster_run cache c' ls | _ \<Rightarrow> None)"

lemma cluster_trace_Cons:
  assumes "cluster_exec cache c l = Some (Ret c')"
  shows "cluster_trace cache c' tr c'' \<Longrightarrow> cluster_trace cache c (l # tr) c''"
proof (induction rule: cluster_trace.induct)
  case start
  then show ?case using cluster_trace.step [OF cluster_trace.start assms] by simp
next
  case (step tr d k d')
  then show ?case using cluster_trace.step [OF step.IH step.hyps(2)] by simp
qed

lemma cluster_run_trace: "cluster_run cache c tr = Some c' \<Longrightarrow> cluster_trace cache c tr c'"
proof (induction tr arbitrary: c)
  case Nil
  then show ?case by (auto intro: cluster_trace.start)
next
  case (Cons l tr)
  then show ?case by (auto split: option.splits cxx.splits intro: cluster_trace_Cons)
qed

definition demo_cluster :: Cluster where
  "demo_cluster = \<lparr> syncmanager = SyncManager_init 2 0, to_master = (\<lambda>_. []), to_node = (\<lambda>_. []),
     thread_events = (\<lambda>n tid. if n < 2 \<and> tid = 1 then Some False else None), blocked = (\<lambda>_ _. False),
     started = (\<lambda>_. []), restarting = (\<lambda>_. False), slave_done = (\<lambda>_. False) \<rparr>"

definition demo_run :: "label list" where
  "demo_run = [Call 1 1 (EnterBarrier 9), MasterStep 1, Call 0 1 (EnterBarrier 9), Return 0 1, SlaveStep 1, Return 1 1,
     Call 0 1 (EnterBarrier 9)]"

lemma demo_run_ok: "cluster_run (\<lambda>_ _. 2) demo_cluster demo_run \<noteq> None"
  by code_simp

lemma demo_init: "barrier_init (\<lambda>_ _. 2) {(0, 1), (1, 1)} 9 demo_cluster"
  by (auto simp: barrier_init_def demo_cluster_def SyncManager_init_def)

definition demo_stuck :: "label list" where
  "demo_stuck = [Call 1 1 (EnterBarrier 9), Call 0 1 (EnterBarrier 9)]"

section \<open>Properties\<close>

text \<open>
  C1. The barrier synchronises its participants: in every run of the cluster, no thread has returned
  from the barrier more often than any other participant has entered it.
\<close>

theorem barrier_synchronises:
  assumes "barrier_init cache P b c0" "cluster_trace cache c0 tr c" "\<forall>l\<in>set tr. barrier_call P b l"
    and "t \<in> P" "u \<in> P"
  shows "returns tr t \<le> enters b tr u"
  using barrier_trace_inv [OF assms(2,1,3)] assms(4,5) left_le_entered le_trans by metis

theorem barrier_synchronises_witness:
  "returns demo_run (1, 1) \<le> enters 9 demo_run (0, 1)"
proof -
  obtain c where "cluster_trace (\<lambda>_ _. 2) demo_cluster demo_run c"
    using demo_run_ok cluster_run_trace by blast
  from barrier_synchronises [OF demo_init this, of "(1, 1)" "(0, 1)"] show ?thesis by (simp add: demo_run_def)
qed

text \<open>
  C21. The barrier cannot deadlock: whenever all participants are blocked in it, the master, a slave
  or one of the blocked threads can make a step.
\<close>

theorem barrier_no_deadlock:
  assumes "barrier_init cache P b c0" "cluster_trace cache c0 tr c" "\<forall>l\<in>set tr. barrier_call P b l"
    and "\<forall>(n, tid)\<in>P. blocked c n tid"
  shows "\<exists>l c'. (\<forall>n tid call. l \<noteq> Call n tid call) \<and> cluster_exec cache c l = Some (Ret c')"
proof -
  obtain g ph where inv: "barrier_inv cache P P b c g ph" using barrier_trace_inv [OF assms(2,1,3)] by blast
  have fin: "finite P" using assms(1) by (simp add: barrier_init_def)
  have "\<exists>t\<in>P. \<not> in_queue cache c b t"
  proof (rule ccontr)
    assume "\<not> (\<exists>t\<in>P. \<not> in_queue cache c b t)"
    then have "th ` P \<subseteq> set (sn_waitlist (barrier_node cache c b))" by (auto simp: in_queue_def)
    then have "card (th ` P) \<le> length (sn_waitlist (barrier_node cache c b))"
      by (meson card_mono card_length finite_set le_trans)
    moreover have "card (th ` P) = card P" by (intro card_image) (auto simp: inj_on_def)
    ultimately show False using inv by (auto simp: barrier_inv_def)
  qed
  then obtain t where t: "t \<in> P" "\<not> in_queue cache c b t" by blast
  have ok: "phase_ok cache c b t (ph t)" by (rule barrier_inv_phase [OF inv t(1)])
  have bl: "is_blocked c t" using assms(4) t(1) by (auto simp: is_blocked_def)
  have "\<exists>l. (\<forall>n tid call. l \<noteq> Call n tid call) \<and> cluster_exec cache c l \<noteq> None"
  proof (cases "ph t")
    case Arriving
    then have "to_master c (fst t) \<noteq> []" using ok by (auto simp: in_flight_def)
    then show ?thesis by (intro exI [of _ "MasterStep (fst t)"]) (simp split: list.splits)
  next
    case Woken
    then have "wakes c t = 1" using ok by simp
    then obtain q ps where q: "to_node c (fst t) = q # ps" by (cases "to_node c (fst t)") (auto simp: wakes_def)
    then obtain tid where "q = wake_pack tid" using barrier_inv_channels(2) [OF inv, of q "fst t"] by auto
    then show ?thesis using q inv by (intro exI [of _ "SlaveStep (fst t)"])
      (auto simp: RcSlaveMainLoop_def barrier_inv_def wake_pack_def rc_pack_def)
  next
    case Signalled
    then show ?thesis using ok bl by (intro exI [of _ "Return (fst t) (snd t)"]) (simp add: is_blocked_def event_def)
  qed (use ok bl t(2) in simp_all)
  then obtain l r where l: "\<forall>n tid call. l \<noteq> Call n tid call" "cluster_exec cache c l = Some r" by auto
  then have "barrier_call P b l" by (cases l) auto
  then show ?thesis using barrier_step [OF inv fin _ l(2)] l by metis
qed

theorem barrier_no_deadlock_witness:
  "\<exists>c l c'. cluster_run (\<lambda>_ _. 2) demo_cluster demo_stuck = Some c \<and> cluster_exec (\<lambda>_ _. 2) c l = Some (Ret c')"
proof -
  have "case cluster_run (\<lambda>_ _. 2) demo_cluster demo_stuck of None \<Rightarrow> False | Some c \<Rightarrow> blocked c 0 1 \<and> blocked c 1 1"
    by code_simp
  then obtain c where c: "cluster_run (\<lambda>_ _. 2) demo_cluster demo_stuck = Some c" "blocked c 0 1" "blocked c 1 1"
    by (auto split: option.splits)
  from barrier_no_deadlock [OF demo_init cluster_run_trace [OF c(1)]] c(2,3)
  have "\<exists>l c'. cluster_exec (\<lambda>_ _. 2) c l = Some (Ret c')" by (auto simp: demo_stuck_def)
  with c(1) show ?thesis by blast
qed

end
