(* ===== verification/Dogee_Accumulator.thy ===== *)
theory Dogee_Accumulator
  imports Dogee_Storage Dogee_Sync
begin

text \<open>
  Accumulators (\<^verbatim>\<open>include/DogeeAccumulator.h\<close>, \<^verbatim>\<open>Dogee/DogeeAccumulator.cpp\<close>): every node of the cluster
  owns a part of an output vector. A thread that accumulates a local vector cuts it at the borders of
  the parts and sends each part to its owner, dense or sparse, in packets of at most 16 KB. The
  owner combines what arrives, and after the last user has sent its part it writes the result
  to the shared array and tells the master, which wakes the waiting threads after all owners are done.

  Data is sent on FIFO connections between two nodes. \<^verbatim>\<open>select\<close> and \<^verbatim>\<open>send\<close> succeed; which sockets are writable
  in a round is given from outside. The element type of the accumulators is a 32-bit \<^verbatim>\<open>int\<close>, whose bits are a \<open>u32\<close>.
\<close>

section \<open>Data\<close>

definition BD_DATA_PROCESS_SIZE :: nat where
  "BD_DATA_PROCESS_SIZE = 16 * 1024"

datatype AccumulatorMode = DenseMode | SparseMode | AutoMode

record SparseElement =
  se_index :: u32
  se_data :: u32

text \<open>\<^verbatim>\<open>AcDataType\<close> together with the payload of a packet.\<close>

datatype AcDataType = TypeDense "u32 list" | TypeSparse "SparseElement list"

fun data_empty :: "AcDataType \<Rightarrow> bool" where
  "data_empty (TypeDense ws) = (ws = [])"
| "data_empty (TypeSparse es) = (es = [])"

text \<open>\<^verbatim>\<open>RcDataPack\<close>: thread id and offset of an accumulate packet, the accumulator's id of each.\<close>

datatype RcDataPack =
    AcDataAccumulate ObjectKey u32 u32 AcDataType
  | AcDataAccumulatePartialDone ObjectKey
  | AcDataLocalReduce ObjectKey u32

text \<open>
  An accumulator object: its shared fields and its virtual functions on the local buffer. \<open>ab_words\<close>
  and \<open>ab_clear\<close> are the buffer as an array of words, and that array set to 0. \<open>ab_reduce\<close> exists for
  map-reduce objects only; \<open>'o\<close> is what the user's reduce function is called with.
\<close>

record ('b, 'o) DBaseAccumulator =
  ab_arr :: ObjectKey
  ab_len :: u32
  ab_num_users :: u32
  AllocLocalBuffer :: "u32 \<Rightarrow> 'b"
  ab_words :: "'b \<Rightarrow> u32 list"
  ab_clear :: "'b \<Rightarrow> 'b"
  BaseDoAccumulateDense :: "u32 list \<Rightarrow> u32 \<Rightarrow> 'b \<Rightarrow> u32 \<Rightarrow> u32 \<Rightarrow> 'b cxx"
  BaseDoAccumulateSparse :: "SparseElement list \<Rightarrow> u32 \<Rightarrow> 'b \<Rightarrow> u32 \<Rightarrow> u32 \<Rightarrow> 'b cxx"
  ab_reduce :: "('b \<Rightarrow> 'b \<times> 'o list) option"

text \<open>\<open>None\<close> in \<open>ds_buf\<close>: the constructor has left \<^verbatim>\<open>buf\<close> and \<^verbatim>\<open>base\<close> unwritten.\<close>

record 'b DataSyncNode =
  ds_done_node_cnt :: int
  ds_val :: int
  ds_count :: int
  ds_waitlist :: "SyncThreadNode list"
  ds_total_size :: u32
  ds_base :: u32
  ds_buf :: "'b option"
  ds_size :: u32
  ds_outarray :: ObjectKey

record ('b, 's, 'o) AcSys =
  as_map :: "nat \<Rightarrow> ObjectKey \<Rightarrow> 'b DataSyncNode option"
  as_mem :: 's
  as_net :: "nat \<Rightarrow> nat \<Rightarrow> RcDataPack list"
  as_woken :: "SyncThreadNode list"
  as_reduced :: "(nat \<times> 'o list) list"

section \<open>Partition of the vector\<close>

definition ac_blocks :: "nat \<Rightarrow> u32 \<Rightarrow> u32" where
  "ac_blocks num_nodes sz =
     (let blocks = (if sz mod 32 = 0 then sz div 32 else sz div 32 + 1)
      in if blocks mod of_nat num_nodes = 0 then blocks div of_nat num_nodes else blocks div of_nat num_nodes + 1)"

definition init_data_node :: "nat \<Rightarrow> nat \<Rightarrow> ('b, 'o) DBaseAccumulator \<Rightarrow> 'b DataSyncNode" where
  "init_data_node num_nodes self accu =
     (let sz = ab_len accu;
          node = \<lparr> ds_done_node_cnt = 0, ds_val = 0, ds_count = sint (ab_num_users accu), ds_waitlist = [],
            ds_total_size = sz, ds_base = 0, ds_buf = None, ds_size = 0, ds_outarray = ab_arr accu \<rparr>
      in if sz \<le> 1024 * 1024 * 128
         then let blocks = ac_blocks num_nodes sz;
                  size = (if blocks * 32 * (of_nat self + 1) > sz
                          then if sz < blocks * of_nat self * 32 then 0 else sz - blocks * of_nat self * 32
                          else blocks * 32);
                  buf = AllocLocalBuffer accu size
              in node\<lparr> ds_size := size, ds_buf := Some (if size = 0 then buf else ab_clear accu buf),
                   ds_base := blocks * of_nat self * 32 \<rparr>
         else node)"

definition FindOrCreateDataSyncNode ::
    "(ObjectKey \<Rightarrow> ('b, 'o) DBaseAccumulator) \<Rightarrow> nat \<Rightarrow> ('b, 's, 'o) AcSys \<Rightarrow> nat \<Rightarrow> ObjectKey \<Rightarrow> 'b DataSyncNode" where
  "FindOrCreateDataSyncNode accs num_nodes sys self aid =
     (case as_map sys self aid of None \<Rightarrow> init_data_node num_nodes self (accs aid) | Some node \<Rightarrow> node)"

definition set_data_node :: "('b, 's, 'o) AcSys \<Rightarrow> nat \<Rightarrow> ObjectKey \<Rightarrow> 'b DataSyncNode \<Rightarrow> ('b, 's, 'o) AcSys" where
  "set_data_node sys self aid node = sys\<lparr> as_map := (as_map sys)(self := (as_map sys self)(aid \<mapsto> node)) \<rparr>"

definition ac_send :: "('b, 's, 'o) AcSys \<Rightarrow> nat \<Rightarrow> nat \<Rightarrow> RcDataPack \<Rightarrow> ('b, 's, 'o) AcSys" where
  "ac_send sys i j pack = sys\<lparr> as_net := (as_net sys)(i := (as_net sys i)(j := as_net sys i j @ [pack])) \<rparr>"

text \<open>The connection of a node: the master's is stored where the node's own would be.\<close>

definition nodeid2idx :: "nat \<Rightarrow> nat \<Rightarrow> nat \<Rightarrow> nat cxx" where
  "nodeid2idx num_nodes self node_id =
     (let ret = (if node_id = 0 then int self - 1 else int node_id - 1)
      in if 0 \<le> ret \<and> ret < int num_nodes - 1 then Ret (nat ret) else Trap)"

definition idx2nodeid :: "nat \<Rightarrow> nat \<Rightarrow> nat \<Rightarrow> nat cxx" where
  "idx2nodeid num_nodes self idx =
     (let ret = (if int idx = int self - 1 then 0 else idx + 1)
      in if ret < num_nodes then Ret ret else Trap)"

section \<open>Messages\<close>

definition AcAccumulatePartialDoneMsg ::
    "(ObjectKey \<Rightarrow> ('b, 'o) DBaseAccumulator) \<Rightarrow> nat \<Rightarrow> ('b, 's, 'o) AcSys \<Rightarrow> nat \<Rightarrow> ObjectKey \<Rightarrow> ('b, 's, 'o) AcSys" where
  "AcAccumulatePartialDoneMsg accs num_nodes sys self aid =
     (let node = FindOrCreateDataSyncNode accs num_nodes sys self aid;
          cnt = ds_done_node_cnt node + 1
      in if cnt \<ge> int num_nodes
         then (set_data_node sys self aid (node\<lparr> ds_done_node_cnt := 0, ds_waitlist := [] \<rparr>))
                \<lparr> as_woken := as_woken sys @ ds_waitlist node \<rparr>
         else set_data_node sys self aid (node\<lparr> ds_done_node_cnt := cnt \<rparr>))"

text \<open>The end of a part: the master counts it at once, another node tells the master.\<close>

definition ac_partial_done ::
    "(ObjectKey \<Rightarrow> ('b, 'o) DBaseAccumulator) \<Rightarrow> nat \<Rightarrow> ('b, 's, 'o) AcSys \<Rightarrow> nat \<Rightarrow> ObjectKey \<Rightarrow> ('b, 's, 'o) AcSys" where
  "ac_partial_done accs num_nodes sys self aid =
     (if self = 0 then AcAccumulatePartialDoneMsg accs num_nodes sys 0 aid
      else ac_send sys self 0 (AcDataAccumulatePartialDone aid))"

definition AcLocalReduceMsg ::
    "(ObjectKey \<Rightarrow> ('b, 'o) DBaseAccumulator) \<Rightarrow> nat \<Rightarrow> ('b, 's, 'o) AcSys \<Rightarrow> nat \<Rightarrow> ObjectKey \<Rightarrow> ('b, 's, 'o) AcSys cxx" where
  "AcLocalReduceMsg accs num_nodes sys self aid =
     (let node = FindOrCreateDataSyncNode accs num_nodes sys self aid
      in case (ab_reduce (accs aid), ds_buf node) of
           (Some reduce, Some buf) \<Rightarrow>
             (case reduce buf of (buf', out) \<Rightarrow>
                let sys1 = (set_data_node sys self aid (node\<lparr> ds_buf := Some buf' \<rparr>))
                      \<lparr> as_reduced := as_reduced sys @ [(self, out)] \<rparr>
                in Ret (ac_partial_done accs num_nodes sys1 self aid))
         | (None, _) \<Rightarrow> Trap
         | (_, None) \<Rightarrow> Indeterminate)"

definition ac_apply :: "('b, 'o) DBaseAccumulator \<Rightarrow> 'b DataSyncNode \<Rightarrow> u32 \<Rightarrow> AcDataType \<Rightarrow> 'b DataSyncNode cxx" where
  "ac_apply accu node offset data =
     (if data_empty data then Ret node
      else case ds_buf node of
             None \<Rightarrow> Indeterminate
           | Some buf \<Rightarrow>
               cxx_bind (case data of
                   TypeDense ws \<Rightarrow> BaseDoAccumulateDense accu ws offset buf (ds_base node) (ds_size node)
                 | TypeSparse es \<Rightarrow> BaseDoAccumulateSparse accu es offset buf (ds_base node) (ds_size node))
                 (\<lambda>buf'. Ret (node\<lparr> ds_buf := Some buf' \<rparr>)))"

definition AcAccumulateMsg ::
    "'s DSMCache \<Rightarrow> (ObjectKey \<Rightarrow> ('b, 'o) DBaseAccumulator) \<Rightarrow> nat \<Rightarrow> ('b, 's, 'o) AcSys \<Rightarrow> nat
       \<Rightarrow> nat \<Rightarrow> ObjectKey \<Rightarrow> u32 \<Rightarrow> u32 \<Rightarrow> AcDataType \<Rightarrow> ('b, 's, 'o) AcSys cxx" where
  "AcAccumulateMsg cache accs num_nodes sys self src aid tid offset data =
     cxx_bind (ac_apply (accs aid) (FindOrCreateDataSyncNode accs num_nodes sys self aid) offset data)
       (\<lambda>node.
          if tid = 0 then Ret (set_data_node sys self aid node)
          else
            let node1 = node\<lparr> ds_val := ds_val node + 1,
                  ds_waitlist := (if self = 0 then ds_waitlist node @ [\<lparr> machine = src, thread_id = tid \<rparr>] else ds_waitlist node) \<rparr>
            in if ds_val node1 \<ge> ds_count node1
               then case ds_buf node1 of
                      None \<Rightarrow> if ds_size node1 \<noteq> 0 then Indeterminate
                        else Ret (ac_partial_done accs num_nodes (set_data_node sys self aid (node1\<lparr> ds_val := 0 \<rparr>)) self aid)
                    | Some buf \<Rightarrow>
                        let flush = (ds_size node1 \<noteq> 0);
                            mem' = (if flush then fst (dc_putchunk32 cache (as_mem sys) (ds_outarray node1) (ds_base node1)
                              (ds_size node1) (ab_words (accs aid) buf)) else as_mem sys);
                            node2 = node1\<lparr> ds_buf := Some (if flush then ab_clear (accs aid) buf else buf), ds_val := 0 \<rparr>
                        in Ret (ac_partial_done accs num_nodes ((set_data_node sys self aid node2)\<lparr> as_mem := mem' \<rparr>) self aid)
               else Ret (set_data_node sys self aid node1))"

text \<open>One packet of the loop of \<^verbatim>\<open>AcListenData\<close>: node \<open>j\<close> handles what node \<open>i\<close> sent.\<close>

definition AcListenData ::
    "'s DSMCache \<Rightarrow> (ObjectKey \<Rightarrow> ('b, 'o) DBaseAccumulator) \<Rightarrow> nat \<Rightarrow> ('b, 's, 'o) AcSys \<Rightarrow> nat \<Rightarrow> nat \<Rightarrow> ('b, 's, 'o) AcSys cxx" where
  "AcListenData cache accs num_nodes sys i j =
     (case as_net sys i j of
        [] \<Rightarrow> Ret sys
      | pack # packs \<Rightarrow>
          let sys1 = sys\<lparr> as_net := (as_net sys)(i := (as_net sys i)(j := packs)) \<rparr>
          in case pack of
               AcDataAccumulate aid tid offset data \<Rightarrow> AcAccumulateMsg cache accs num_nodes sys1 j i aid tid offset data
             | AcDataAccumulatePartialDone aid \<Rightarrow>
                 Ret (if j = 0 then AcAccumulatePartialDoneMsg accs num_nodes sys1 0 aid else sys1)
             | AcDataLocalReduce aid tid \<Rightarrow> AcLocalReduceMsg accs num_nodes sys1 j aid)"


section \<open>Accumulators\<close>

text \<open>
  \<^verbatim>\<open>DFunctionalAccumulator\<close>: \<open>func v i out\<close> is the new value of the element \<open>i\<close>. The \<^verbatim>\<open>assert\<close>s are traps;
  \<^verbatim>\<open>offset\<close> is an \<^verbatim>\<open>int\<close>, and the sum with the unsigned \<^verbatim>\<open>in_len\<close> is unsigned.
\<close>

fun dense_loop :: "(u32 \<Rightarrow> u32 \<Rightarrow> u32 \<Rightarrow> u32) \<Rightarrow> u32 list \<Rightarrow> u32 \<Rightarrow> nat \<Rightarrow> u32 list \<Rightarrow> u32 list" where
  "dense_loop func [] i pos out = out"
| "dense_loop func (v # vs) i pos out = dense_loop func vs (i + 1) (pos + 1) (out[pos := func v i (out ! pos)])"

definition DoAccumulateDense :: "(u32 \<Rightarrow> u32 \<Rightarrow> u32 \<Rightarrow> u32) \<Rightarrow> u32 list \<Rightarrow> u32 \<Rightarrow> u32 list \<Rightarrow> u32 \<Rightarrow> u32 \<Rightarrow> u32 list cxx" where
  "DoAccumulateDense func in_data in_index out_data out_index out_len =
     (let offset = in_index - out_index
      in if 0 \<le> sint offset \<and> offset + of_nat (length in_data) \<le> out_len
         then Ret (dense_loop func in_data in_index (unat offset) out_data) else Trap)"

fun DoAccumulateSparse :: "(u32 \<Rightarrow> u32 \<Rightarrow> u32 \<Rightarrow> u32) \<Rightarrow> SparseElement list \<Rightarrow> u32 \<Rightarrow> u32 list \<Rightarrow> u32 \<Rightarrow> u32 \<Rightarrow> u32 list cxx" where
  "DoAccumulateSparse func [] in_index out_data out_index out_len = Ret out_data"
| "DoAccumulateSparse func (e # es) in_index out_data out_index out_len =
     (let idx = se_index e
      in if out_index \<le> idx \<and> idx < out_index + out_len
         then DoAccumulateSparse func es in_index
           (out_data[unat (idx - out_index) := func (se_data e) idx (out_data ! unat (idx - out_index))]) out_index out_len
         else Trap)"

text \<open>\<open>fresh\<close> is what \<^verbatim>\<open>new uint32_t[len]\<close> finds in memory.\<close>

definition DFunctionalAccumulator ::
    "(u32 \<Rightarrow> u32 \<Rightarrow> u32 \<Rightarrow> u32) \<Rightarrow> u32 \<Rightarrow> ObjectKey \<Rightarrow> u32 \<Rightarrow> u32 \<Rightarrow> (u32 list, 'o) DBaseAccumulator" where
  "DFunctionalAccumulator func fresh outarr outlen in_num_user = \<lparr>
     ab_arr = outarr, ab_len = outlen, ab_num_users = in_num_user,
     AllocLocalBuffer = (\<lambda>len. replicate (unat len) fresh),
     ab_words = (\<lambda>buf. buf), ab_clear = (\<lambda>buf. replicate (length buf) 0),
     BaseDoAccumulateDense = (\<lambda>ws offset buf base size. DoAccumulateDense func ws offset buf base size),
     BaseDoAccumulateSparse = (\<lambda>es offset buf base size. DoAccumulateSparse func es offset buf base size),
     ab_reduce = None \<rparr>"

definition DAddAccumulator :: "u32 \<Rightarrow> ObjectKey \<Rightarrow> u32 \<Rightarrow> u32 \<Rightarrow> (u32 list, 'o) DBaseAccumulator" where
  "DAddAccumulator = DFunctionalAccumulator (\<lambda>v i out. out + v)"

section \<open>Packets\<close>

text \<open>
  \<^verbatim>\<open>IsProfitableToCompress\<close>: the quotient of two integers is compared with 0.52 in double precision, which
  decides like the exact comparison; 0 / 0 is not greater.
\<close>

definition ac_small :: "bool \<Rightarrow> u32 \<Rightarrow> u32 \<Rightarrow> bool" where
  "ac_small strict threshold val \<longleftrightarrow>
     (if 0 \<le> sint val then (if strict then sint val < sint threshold else sint val \<le> sint threshold)
      else (if strict then sint (- threshold) < sint val else sint (- threshold) \<le> sint val))"

fun profit_loop :: "u32 list \<Rightarrow> u32 \<Rightarrow> nat \<Rightarrow> nat \<Rightarrow> nat \<Rightarrow> nat \<times> nat" where
  "profit_loop [] threshold zeros used i = (zeros, i)"
| "profit_loop (val # vec) threshold zeros used i =
     (if used < BD_DATA_PROCESS_SIZE
      then if ac_small False threshold val then profit_loop vec threshold (zeros + 1) used (i + 1)
           else profit_loop vec threshold zeros (used + 8) (i + 1)
      else (zeros, i))"

definition IsProfitableToCompress :: "u32 list \<Rightarrow> u32 \<Rightarrow> bool" where
  "IsProfitableToCompress vec threshold =
     (case profit_loop vec threshold 0 0 0 of (zeros, i) \<Rightarrow> 13 * i < 25 * zeros)"

text \<open>\<^verbatim>\<open>MakeSparseArray\<close>: the number of elements consumed and the elements kept.\<close>

fun sparse_loop :: "u32 list \<Rightarrow> u32 \<Rightarrow> nat \<Rightarrow> nat \<Rightarrow> nat \<times> SparseElement list" where
  "sparse_loop [] threshold i used = (i, [])"
| "sparse_loop (val # vec) threshold i used =
     (if used + 8 \<ge> BD_DATA_PROCESS_SIZE then (i, [])
      else if ac_small True threshold val \<or> val = 0 then sparse_loop vec threshold (i + 1) used
      else case sparse_loop vec threshold (i + 1) (used + 8) of
             (j, es) \<Rightarrow> (j, \<lparr> se_index = of_nat i, se_data = val \<rparr> # es))"

definition MakeSparseArray :: "u32 list \<Rightarrow> nat \<Rightarrow> nat \<Rightarrow> u32 \<Rightarrow> nat \<times> SparseElement list" where
  "MakeSparseArray vec src vsize threshold =
     (case sparse_loop (take (vsize - src) (drop src vec)) threshold src 0 of (i, es) \<Rightarrow> (i - src, es))"

definition AcAccumulatePrepareBuffer :: "AccumulatorMode \<Rightarrow> u32 \<Rightarrow> u32 list \<Rightarrow> u32 \<Rightarrow> u32 \<Rightarrow> u32 \<times> AcDataType" where
  "AcAccumulatePrepareBuffer config_mode threshold src idx endi =
     (let mode = (if config_mode = AutoMode
           then if IsProfitableToCompress (take (unat (endi - idx)) (drop (unat idx) src)) threshold then SparseMode else DenseMode
           else config_mode)
      in if mode = DenseMode
         then let n = (if idx + of_nat (BD_DATA_PROCESS_SIZE div 4) > endi then endi - idx else of_nat (BD_DATA_PROCESS_SIZE div 4))
              in (n, TypeDense (take (unat n) (drop (unat idx) src)))
         else case MakeSparseArray src (unat idx) (unat endi) threshold of (n, es) \<Rightarrow> (of_nat n, TypeSparse es))"

section \<open>Sending a vector\<close>

definition send_idx :: "nat \<Rightarrow> u32 \<Rightarrow> nat \<Rightarrow> u32" where
  "send_idx num_nodes sz i = of_nat i * ac_blocks num_nodes sz * 32"

definition send_size :: "nat \<Rightarrow> u32 \<Rightarrow> nat \<Rightarrow> u32" where
  "send_size num_nodes sz i =
     (if ac_blocks num_nodes sz * 32 + send_idx num_nodes sz i > sz then sz
      else send_idx num_nodes sz i + ac_blocks num_nodes sz * 32)"

text \<open>The first loop: empty parts are announced, and counted in \<^verbatim>\<open>done\<close>.\<close>

fun send_empty :: "nat \<Rightarrow> u32 \<Rightarrow> nat \<Rightarrow> ObjectKey \<Rightarrow> u32 \<Rightarrow> nat list \<Rightarrow> ('b, 's, 'o) AcSys \<times> nat \<Rightarrow> ('b, 's, 'o) AcSys \<times> nat" where
  "send_empty num_nodes sz self aid tid [] st = st"
| "send_empty num_nodes sz self aid tid (i # is) (sys, dn) =
     send_empty num_nodes sz self aid tid is
       (if send_size num_nodes sz i \<le> send_idx num_nodes sz i
        then (if i \<noteq> self then ac_send sys self i (AcDataAccumulate aid tid 0 (TypeDense [])) else sys, dn + 1)
        else (sys, dn))"

text \<open>A round of the second loop: one packet to every node in \<open>writable\<close> that has a rest.\<close>

fun send_round :: "nat \<Rightarrow> u32 \<Rightarrow> AccumulatorMode \<Rightarrow> u32 \<Rightarrow> u32 list \<Rightarrow> nat \<Rightarrow> ObjectKey \<Rightarrow> u32 \<Rightarrow> nat list \<Rightarrow> nat list
    \<Rightarrow> ('b, 's, 'o) AcSys \<times> (nat \<Rightarrow> u32) \<times> nat \<Rightarrow> ('b, 's, 'o) AcSys \<times> (nat \<Rightarrow> u32) \<times> nat" where
  "send_round num_nodes sz mode threshold in_buf self aid tid writable [] st = st"
| "send_round num_nodes sz mode threshold in_buf self aid tid writable (i # is) (sys, idx, dn) =
     send_round num_nodes sz mode threshold in_buf self aid tid writable is
       (if idx i < send_size num_nodes sz i \<and> i \<noteq> self \<and> i \<in> set writable
        then case AcAccumulatePrepareBuffer mode threshold in_buf (idx i) (send_size num_nodes sz i) of (n, data) \<Rightarrow>
               let last = (idx i + n = send_size num_nodes sz i)
               in (ac_send sys self i (AcDataAccumulate aid (if last then tid else 0) (idx i) data),
                   idx(i := idx i + n), if last then dn + 1 else dn)
        else (sys, idx, dn))"

text \<open>\<open>None\<close>: the loop still runs after the rounds given.\<close>

fun send_loop :: "nat \<Rightarrow> u32 \<Rightarrow> AccumulatorMode \<Rightarrow> u32 \<Rightarrow> u32 list \<Rightarrow> nat \<Rightarrow> ObjectKey \<Rightarrow> u32 \<Rightarrow> nat list list
    \<Rightarrow> ('b, 's, 'o) AcSys \<times> (nat \<Rightarrow> u32) \<times> nat \<Rightarrow> ('b, 's, 'o) AcSys option" where
  "send_loop num_nodes sz mode threshold in_buf self aid tid [] (sys, idx, dn) = (if dn < num_nodes then None else Some sys)"
| "send_loop num_nodes sz mode threshold in_buf self aid tid (w # ws) (sys, idx, dn) =
     (if dn < num_nodes
      then send_loop num_nodes sz mode threshold in_buf self aid tid ws
        (send_round num_nodes sz mode threshold in_buf self aid tid w [0..<num_nodes] (sys, idx, dn))
      else Some sys)"

text \<open>
  \<^verbatim>\<open>_DoAccumulateAndWait\<close> up to the wait for the thread's event; \<^verbatim>\<open>done\<close> starts at 1.
\<close>

definition DoAccumulateAndWait ::
    "'s DSMCache \<Rightarrow> (ObjectKey \<Rightarrow> ('b, 'o) DBaseAccumulator) \<Rightarrow> nat \<Rightarrow> AccumulatorMode \<Rightarrow> ('b, 's, 'o) AcSys
       \<Rightarrow> nat \<Rightarrow> ObjectKey \<Rightarrow> u32 \<Rightarrow> u32 \<Rightarrow> u32 list \<Rightarrow> nat list list \<Rightarrow> ('b, 's, 'o) AcSys option cxx" where
  "DoAccumulateAndWait cache accs num_nodes mode sys self aid tid threshold in_buf rounds =
     (let sz = of_nat (length in_buf);
          idx = send_idx num_nodes sz; size = send_size num_nodes sz
      in case send_empty num_nodes sz self aid tid [0..<num_nodes] (sys, 1) of (sys1, dn) \<Rightarrow>
           let localsend = (if size self > idx self then size self - idx self else 0)
           in cxx_bind (AcAccumulateMsg cache accs num_nodes sys1 self self aid tid (idx self)
                (TypeDense (take (unat localsend) (drop (unat (idx self)) in_buf))))
                (\<lambda>sys2. Ret (send_loop num_nodes sz mode threshold in_buf self aid tid rounds
                   (sys2, idx(self := size self), dn))))"

text \<open>\<^verbatim>\<open>_Reduce\<close> on the master, up to the wait; elsewhere it returns false.\<close>

definition Reduce ::
    "(ObjectKey \<Rightarrow> ('b, 'o) DBaseAccumulator) \<Rightarrow> nat \<Rightarrow> ('b, 's, 'o) AcSys \<Rightarrow> nat \<Rightarrow> ObjectKey \<Rightarrow> u32 \<Rightarrow> ('b, 's, 'o) AcSys option cxx" where
  "Reduce accs num_nodes sys self aid tid =
     (if self \<noteq> 0 then Ret None
      else
        let node = FindOrCreateDataSyncNode accs num_nodes sys 0 aid;
            sys1 = set_data_node sys 0 aid (node\<lparr> ds_waitlist := ds_waitlist node @ [\<lparr> machine = 0, thread_id = tid \<rparr>] \<rparr>);
            sys2 = fold (\<lambda>i s. ac_send s 0 i (AcDataLocalReduce aid tid)) [1..<num_nodes] sys1
        in cxx_bind (AcLocalReduceMsg accs num_nodes sys2 0 aid) (\<lambda>sys3. Ret (Some sys3)))"

end
