(* ===== verification/Dogee_MapReduce.thy ===== *)
theory Dogee_MapReduce
  imports Dogee_Accumulator
begin

text \<open>
  Map-reduce (\<^verbatim>\<open>include/DogeeMR.h\<close>, \<^verbatim>\<open>include/DogeeSerializerImpl.h\<close> and \<^verbatim>\<open>_Map\<close> of
  \<^verbatim>\<open>Dogee/DogeeAccumulator.cpp\<close>): the pairs of a local map are serialised into packets, handed out to the
  nodes in turn, decoded there and given to the user's map function; the reduce step hands every entry of a
  node's local result to the user's reduce function.

  The contract of a serialiser is the locale \<open>serializer\<close> of the theory \<^verbatim>\<open>Dogee_Serializers\<close>.
\<close>

section \<open>Serialisers\<close>

text \<open>
  \<^verbatim>\<open>Serialize\<close> writes to the start of a buffer and returns the number of words; \<^verbatim>\<open>Deserialize\<close> returns
  the number of words read and the value.
\<close>

record 'a InputSerializer =
  GetSize :: "'a \<Rightarrow> u32"
  Serialize :: "'a \<Rightarrow> u32 list \<Rightarrow> u32 list \<times> u32"
  Deserialize :: "u32 list \<Rightarrow> (u32 \<times> 'a) cxx"

definition cell_divide :: "u32 \<Rightarrow> u32" where
  "cell_divide a = (if a mod 4 = 0 then a div 4 else a div 4 + 1)"

text \<open>The primary template, which is usable for \<^verbatim>\<open>int\<close> only: \<^verbatim>\<open>Deserialize\<close> takes an \<^verbatim>\<open>int&\<close>.\<close>

definition IntSerializer :: "u32 InputSerializer" where
  "IntSerializer = \<lparr>
     GetSize = (\<lambda>x. cell_divide 4),
     Serialize = (\<lambda>x buf. (buf[0 := x], cell_divide 4)),
     Deserialize = (\<lambda>buf. Ret (cell_divide 4, buf ! 0)) \<rparr>"

text \<open>\<^verbatim>\<open>std::vector<T>\<close>: the number of elements, then the elements.\<close>

fun vec_serialize :: "'a InputSerializer \<Rightarrow> 'a list \<Rightarrow> nat \<Rightarrow> u32 list \<Rightarrow> u32 list" where
  "vec_serialize ele [] cur buf = buf"
| "vec_serialize ele (x # xs) cur buf =
     (case Serialize ele x (drop cur buf) of (b, n) \<Rightarrow> vec_serialize ele xs (cur + unat n) (take cur buf @ b))"

fun vec_deserialize :: "'a InputSerializer \<Rightarrow> nat \<Rightarrow> u32 \<Rightarrow> u32 list \<Rightarrow> 'a list \<Rightarrow> (u32 \<times> 'a list) cxx" where
  "vec_deserialize ele 0 cnt buf out = Ret (cnt, out)"
| "vec_deserialize ele (Suc i) cnt buf out =
     cxx_bind (Deserialize ele (drop (unat cnt) buf)) (\<lambda>(n, x). vec_deserialize ele i (cnt + n) buf (out @ [x]))"

definition vec_size :: "'a InputSerializer \<Rightarrow> 'a list \<Rightarrow> u32" where
  "vec_size ele xs = foldl (\<lambda>sz x. sz + GetSize ele x) 0 xs + 1"

definition VectorSerializer :: "'a InputSerializer \<Rightarrow> 'a list InputSerializer" where
  "VectorSerializer ele = \<lparr>
     GetSize = vec_size ele,
     Serialize = (\<lambda>xs buf. (vec_serialize ele xs 1 (buf[0 := of_nat (length xs)]), vec_size ele xs)),
     Deserialize = (\<lambda>buf. vec_deserialize ele (unat (buf ! 0)) 1 buf []) \<rparr>"

text \<open>
  \<^verbatim>\<open>std::string\<close> as a list of bytes: its length, then the bytes, copied into the words of the buffer.
  Reading terminates the bytes in place, which a length outside the buffer makes undefined; reading it
  back as a C string, the bytes up to the first 0, must give the length again.
\<close>

definition string_size :: "u8 list \<Rightarrow> u32" where
  "string_size s = cell_divide (of_nat (length s) + 1) + 1"

definition string_serialize :: "u8 list \<Rightarrow> u32 list \<Rightarrow> u32 list" where
  "string_serialize s buf = of_nat (length s) # words_of_bytes (overwrite (bytes_of_words (drop 1 buf)) 0 s)"

definition string_deserialize :: "u32 list \<Rightarrow> (u32 \<times> u8 list) cxx" where
  "string_deserialize buf =
     (let sz = buf ! 0;
          str = (bytes_of_words (drop 1 buf))[unat sz := 0];
          out = takeWhile (\<lambda>c. c \<noteq> 0) str
      in if 4 * (length buf - 1) \<le> unat sz then Indeterminate
         else if sz = of_nat (length out) then Ret (cell_divide (sz + 1) + 1, out) else Trap)"

definition StringSerializer :: "u8 list InputSerializer" where
  "StringSerializer = \<lparr>
     GetSize = string_size,
     Serialize = (\<lambda>s buf. (string_serialize s buf, string_size s)),
     Deserialize = string_deserialize \<rparr>"

section \<open>The map-reduce object\<close>

definition DecodeKeyValue :: "'k InputSerializer \<Rightarrow> 'v InputSerializer \<Rightarrow> u32 list \<Rightarrow> u32 \<Rightarrow> (u32 \<times> 'k \<times> 'v) cxx" where
  "DecodeKeyValue ks vs buf len =
     cxx_bind (Deserialize ks buf) (\<lambda>(n, key).
       if n < len
       then cxx_bind (Deserialize vs (drop (unat n) buf)) (\<lambda>(m, value).
         if n + m \<le> len then Ret (n + m, key, value) else Trap)
       else Trap)"

text \<open>
  The loop of \<^verbatim>\<open>BaseDoAccumulateDense\<close>; \<open>domap\<close> is the user's map function. A value that takes no words
  would let it run forever: the first argument bounds the number of pairs, and every pair has a word.
\<close>

fun map_loop :: "nat \<Rightarrow> 'k InputSerializer \<Rightarrow> 'v InputSerializer \<Rightarrow> ('k \<Rightarrow> 'v \<Rightarrow> 'm \<Rightarrow> 'm) \<Rightarrow> u32 list \<Rightarrow> u32 \<Rightarrow> 'm \<Rightarrow> 'm cxx option" where
  "map_loop fuel ks vs domap buf len m =
     (if len = 0 then Some (Ret m)
      else case fuel of
             0 \<Rightarrow> None
           | Suc fuel' \<Rightarrow>
               (case DecodeKeyValue ks vs buf len of
                  Ret (n, key, value) \<Rightarrow> map_loop fuel' ks vs domap (drop (unat n) buf) (len - n) (domap key value m)
                | Throw e \<Rightarrow> Some (Throw e) | Trap \<Rightarrow> Some Trap | Indeterminate \<Rightarrow> Some Indeterminate))"

declare map_loop.simps [simp del]

definition map_packet :: "'k InputSerializer \<Rightarrow> 'v InputSerializer \<Rightarrow> ('k \<Rightarrow> 'v \<Rightarrow> 'm \<Rightarrow> 'm) \<Rightarrow> u32 list \<Rightarrow> 'm \<Rightarrow> 'm cxx" where
  "map_packet ks vs domap ws m = (case map_loop (length ws) ks vs domap ws (of_nat (length ws)) m of Some r \<Rightarrow> r | None \<Rightarrow> Indeterminate)"

text \<open>
  \<^verbatim>\<open>DMapReduce\<close>: the local buffer is the map from keys to values, in iteration order.
\<close>

type_synonym ('k, 'v) mr_map = "('k \<times> 'v list) list"

definition DMapReduce ::
    "'k InputSerializer \<Rightarrow> 'v InputSerializer \<Rightarrow> ('k \<Rightarrow> 'v \<Rightarrow> ('a, 'c) mr_map \<Rightarrow> ('a, 'c) mr_map) \<Rightarrow> u32
       \<Rightarrow> (('a, 'c) mr_map, 'a \<times> 'c list) DBaseAccumulator" where
  "DMapReduce ks vs domap users = \<lparr>
     ab_arr = 0, ab_len = 0, ab_num_users = users,
     AllocLocalBuffer = (\<lambda>len. []), ab_words = (\<lambda>m. []), ab_clear = (\<lambda>m. m),
     BaseDoAccumulateDense = (\<lambda>ws offset m base size. map_packet ks vs domap ws m),
     BaseDoAccumulateSparse = (\<lambda>es offset m base size. Trap),
     ab_reduce = Some (\<lambda>m. ([], m)) \<rparr>"

section \<open>Sending the pairs\<close>

text \<open>
  \<^verbatim>\<open>PrepareBuf\<close>: pairs are serialised until the buffer is full or a share of them is reached; the rest stays
  for the next packet.
\<close>

fun prepare_loop :: "'k InputSerializer \<Rightarrow> 'v InputSerializer \<Rightarrow> nat \<Rightarrow> nat \<Rightarrow> u32 \<Rightarrow> ('k \<times> 'v) list \<Rightarrow> u32 list
    \<Rightarrow> u32 \<times> u32 list \<times> ('k \<times> 'v) list" where
  "prepare_loop ks vs share elements idx [] buf = (idx, buf, [])"
| "prepare_loop ks vs share elements idx ((key, value) # items) buf =
     (if idx < of_nat (BD_DATA_PROCESS_SIZE div 4) \<and>
         idx + (GetSize ks key + GetSize vs value) \<le> of_nat (BD_DATA_PROCESS_SIZE div 4)
      then case Serialize ks key (drop (unat idx) buf) of (b1, n1) \<Rightarrow>
           let buf1 = take (unat idx) buf @ b1; idx1 = idx + n1
           in case Serialize vs value (drop (unat idx1) buf1) of (b2, n2) \<Rightarrow>
                let buf2 = take (unat idx1) buf1 @ b2; idx2 = idx1 + n2
                in if elements + 1 \<ge> share + 1 then (idx2, buf2, items)
                   else prepare_loop ks vs share (elements + 1) idx2 items buf2
      else (idx, buf, (key, value) # items))"

definition PrepareBuf :: "'k InputSerializer \<Rightarrow> 'v InputSerializer \<Rightarrow> nat \<Rightarrow> nat \<Rightarrow> ('k \<times> 'v) list \<Rightarrow> u32 list \<Rightarrow> u32 list \<times> ('k \<times> 'v) list" where
  "PrepareBuf ks vs cnt num_nodes items buf =
     (case prepare_loop ks vs (cnt div num_nodes) 0 0 items buf of (idx, buf', rest) \<Rightarrow> (take (unat idx) buf', rest))"

text \<open>
  \<^verbatim>\<open>_Map\<close> up to the wait. The state is the cluster, the pairs left and \<^verbatim>\<open>turns\<close>; \<open>fresh\<close> is what the
  packet buffer holds before. A round of \<^verbatim>\<open>select\<close> is given by the writable nodes.
\<close>

fun map_round :: "'k InputSerializer \<Rightarrow> 'v InputSerializer \<Rightarrow> nat \<Rightarrow> nat \<Rightarrow> nat \<Rightarrow> ObjectKey \<Rightarrow> u32 list \<Rightarrow> nat list \<Rightarrow> nat list
    \<Rightarrow> ('b, 's, 'o) AcSys \<times> ('k \<times> 'v) list \<times> nat \<Rightarrow> ('b, 's, 'o) AcSys \<times> ('k \<times> 'v) list \<times> nat" where
  "map_round ks vs cnt num_nodes self aid fresh writable [] st = st"
| "map_round ks vs cnt num_nodes self aid fresh writable (i # is) (sys, items, turns) =
     map_round ks vs cnt num_nodes self aid fresh writable is
       (if i \<noteq> self \<and> i \<in> set writable
        then case PrepareBuf ks vs cnt num_nodes items fresh of (ws, rest) \<Rightarrow>
               (ac_send sys self i (AcDataAccumulate aid 0 0 (TypeDense ws)), rest, turns + 1)
        else (sys, items, turns))"

fun map_send :: "'s DSMCache \<Rightarrow> (ObjectKey \<Rightarrow> ('b, 'o) DBaseAccumulator) \<Rightarrow> 'k InputSerializer \<Rightarrow> 'v InputSerializer
    \<Rightarrow> nat \<Rightarrow> nat \<Rightarrow> nat \<Rightarrow> ObjectKey \<Rightarrow> u32 list \<Rightarrow> nat list list
    \<Rightarrow> ('b, 's, 'o) AcSys \<times> ('k \<times> 'v) list \<times> nat \<Rightarrow> ('b, 's, 'o) AcSys option cxx" where
  "map_send cache accs ks vs cnt num_nodes self aid fresh [] (sys, items, turns) = Ret (if items = [] then Some sys else None)"
| "map_send cache accs ks vs cnt num_nodes self aid fresh (w # rounds) (sys, items, turns) =
     (if items = [] then Ret (Some sys)
      else if turns mod num_nodes = self
      then case PrepareBuf ks vs cnt num_nodes items fresh of (ws, rest) \<Rightarrow>
             cxx_bind (AcAccumulateMsg cache accs num_nodes sys self self aid 0 0 (TypeDense ws))
               (\<lambda>sys'. map_send cache accs ks vs cnt num_nodes self aid fresh rounds (sys', rest, turns + 1))
      else map_send cache accs ks vs cnt num_nodes self aid fresh rounds
             (map_round ks vs cnt num_nodes self aid fresh w [0..<num_nodes] (sys, items, turns)))"

fun map_finish :: "'s DSMCache \<Rightarrow> (ObjectKey \<Rightarrow> ('b, 'o) DBaseAccumulator) \<Rightarrow> nat \<Rightarrow> nat \<Rightarrow> ObjectKey \<Rightarrow> u32 \<Rightarrow> nat list
    \<Rightarrow> ('b, 's, 'o) AcSys \<Rightarrow> ('b, 's, 'o) AcSys cxx" where
  "map_finish cache accs num_nodes self aid tid [] sys = Ret sys"
| "map_finish cache accs num_nodes self aid tid (i # is) sys =
     (if i = self
      then cxx_bind (AcAccumulateMsg cache accs num_nodes sys self self aid tid 0 (TypeDense []))
        (map_finish cache accs num_nodes self aid tid is)
      else map_finish cache accs num_nodes self aid tid is (ac_send sys self i (AcDataAccumulate aid tid 0 (TypeDense []))))"

definition MapPairs ::
    "'s DSMCache \<Rightarrow> (ObjectKey \<Rightarrow> ('b, 'o) DBaseAccumulator) \<Rightarrow> 'k InputSerializer \<Rightarrow> 'v InputSerializer
       \<Rightarrow> nat \<Rightarrow> ('b, 's, 'o) AcSys \<Rightarrow> nat \<Rightarrow> ObjectKey \<Rightarrow> u32 \<Rightarrow> ('k \<times> 'v) list \<Rightarrow> u32 list \<Rightarrow> nat list list \<Rightarrow> ('b, 's, 'o) AcSys option cxx" where
  "MapPairs cache accs ks vs num_nodes sys self aid tid in_map fresh rounds =
     cxx_bind (map_send cache accs ks vs (length in_map) num_nodes self aid fresh rounds (sys, in_map, 0))
       (\<lambda>r. case r of None \<Rightarrow> Ret None
          | Some sys' \<Rightarrow> cxx_bind (map_finish cache accs num_nodes self aid tid [0..<num_nodes] sys') (\<lambda>s. Ret (Some s)))"

end
