(* ===== verification/Dogee_Serializers.thy ===== *)
theory Dogee_Serializers
  imports Dogee_MapReduce
begin

text \<open>
  The contract of a serialiser, the locale \<open>serializer\<close>, and its interpretation on the serialisers of
  \<^verbatim>\<open>include/DogeeSerializerImpl.h\<close>: integers, strings without 0 bytes, and vectors of these. A serialiser writes
  exactly the number of words it announces, and these are read back whatever follows them.
\<close>

section \<open>The contract of a serialiser\<close>

definition reads_as :: "'a InputSerializer \<Rightarrow> u32 list \<Rightarrow> 'a \<Rightarrow> bool" where
  "reads_as ser ws x \<longleftrightarrow> (\<forall>rest. Deserialize ser (ws @ rest) = Ret (of_nat (length ws), x))"

definition vector_valid :: "'a InputSerializer \<Rightarrow> ('a \<Rightarrow> bool) \<Rightarrow> 'a list \<Rightarrow> bool" where
  "vector_valid ser valid xs \<longleftrightarrow> list_all valid xs \<and> (\<Sum>x\<leftarrow>xs. unat (GetSize ser x)) < 2147483647"

locale serializer =
  fixes ser :: "'a InputSerializer" and valid :: "'a \<Rightarrow> bool"
  assumes size_pos: "valid x \<Longrightarrow> GetSize ser x \<noteq> 0"
    and serialize: "valid x \<Longrightarrow> unat (GetSize ser x) \<le> length buf \<Longrightarrow>
      \<exists>ws. length ws = unat (GetSize ser x) \<and> Serialize ser x buf = (ws @ drop (length ws) buf, GetSize ser x) \<and> reads_as ser ws x"
begin

lemma round_trip:
  assumes "valid x" "unat (GetSize ser x) \<le> length buf"
  shows "Deserialize ser (fst (Serialize ser x buf)) = Ret (GetSize ser x, x) \<and>
    snd (Serialize ser x buf) = GetSize ser x \<and>
    drop (unat (GetSize ser x)) (fst (Serialize ser x buf)) = drop (unat (GetSize ser x)) buf"
proof -
  obtain ws where ws: "length ws = unat (GetSize ser x)" "Serialize ser x buf = (ws @ drop (length ws) buf, GetSize ser x)" "reads_as ser ws x"
    using serialize [OF assms] by blast
  have "Deserialize ser (ws @ drop (length ws) buf) = Ret (of_nat (length ws), x)"
    using ws(3) by (simp add: reads_as_def)
  then show ?thesis using ws(1,2) by simp
qed

lemma vec_serialize_spec:
  assumes "list_all valid xs" "cur + (\<Sum>x\<leftarrow>xs. unat (GetSize ser x)) \<le> length buf"
  shows "\<exists>wss. list_all2 (reads_as ser) wss xs \<and> length (concat wss) = (\<Sum>x\<leftarrow>xs. unat (GetSize ser x)) \<and>
    vec_serialize ser xs cur buf = take cur buf @ concat wss @ drop (cur + length (concat wss)) buf"
  using assms
proof (induction xs arbitrary: cur buf)
  case (Cons x xs)
  have sz: "unat (GetSize ser x) \<le> length (drop cur buf)" using Cons.prems(2) by simp
  have "valid x" using Cons.prems(1) by simp
  from serialize [OF this sz] obtain ws where ws: "length ws = unat (GetSize ser x)"
      "Serialize ser x (drop cur buf) = (ws @ drop (length ws) (drop cur buf), GetSize ser x)" "reads_as ser ws x"
    by blast
  let ?buf = "take cur buf @ ws @ drop (length ws) (drop cur buf)"
  have len: "length (take cur buf) = cur" "length ?buf = length buf" using sz ws(1) Cons.prems(2) by auto
  have ih: "list_all valid xs" "(cur + length ws) + (\<Sum>x\<leftarrow>xs. unat (GetSize ser x)) \<le> length ?buf"
    using Cons.prems ws(1) len by (simp_all add: ac_simps)
  obtain wss where wss: "list_all2 (reads_as ser) wss xs" "length (concat wss) = (\<Sum>x\<leftarrow>xs. unat (GetSize ser x))"
      "vec_serialize ser xs (cur + length ws) ?buf =
        take (cur + length ws) ?buf @ concat wss @ drop ((cur + length ws) + length (concat wss)) ?buf"
    using Cons.IH [OF ih] by blast
  have "vec_serialize ser (x # xs) cur buf = take cur buf @ concat (ws # wss) @ drop (cur + length (concat (ws # wss))) buf"
    using wss(3) ws(1,2) len(1) by (simp add: ac_simps)
  then show ?case using wss ws by (intro exI [of _ "ws # wss"]) simp
qed simp

lemma vec_deserialize_spec:
  assumes "list_all2 (reads_as ser) wss xs" "length pre + length (concat wss) < 4294967296"
  shows "vec_deserialize ser (length xs) (of_nat (length pre)) (pre @ concat wss @ rest) out =
    Ret (of_nat (length pre + length (concat wss)), out @ xs)"
  using assms
proof (induction wss xs arbitrary: pre out rule: list_all2_induct)
  case (Cons ws wss x xs)
  have "unat (of_nat (length pre) :: u32) = length pre" using Cons.prems by (simp add: unat_of_nat_small)
  moreover have "Deserialize ser (ws @ concat wss @ rest) = Ret (of_nat (length ws), x)"
    using Cons.hyps(1) by (simp add: reads_as_def)
  moreover have "vec_deserialize ser (length xs) (of_nat (length (pre @ ws))) ((pre @ ws) @ concat wss @ rest) (out @ [x]) =
      Ret (of_nat (length (pre @ ws) + length (concat wss)), (out @ [x]) @ xs)"
    using Cons.prems by (intro Cons.IH) simp
  ultimately show ?case by (simp add: add.assoc)
qed simp

lemma vec_size_eq:
  assumes "(\<Sum>x\<leftarrow>xs. unat (GetSize ser x)) < 4294967295"
  shows "unat (vec_size ser xs) = Suc (\<Sum>x\<leftarrow>xs. unat (GetSize ser x))"
proof -
  have fold: "foldl (\<lambda>sz x. sz + GetSize ser x) a xs = a + of_nat (\<Sum>x\<leftarrow>xs. unat (GetSize ser x))" for a
    by (induction xs arbitrary: a) (simp_all add: add.assoc)
  have "vec_size ser xs = of_nat (Suc (\<Sum>x\<leftarrow>xs. unat (GetSize ser x)))"
    unfolding vec_size_def fold by simp
  then show ?thesis using assms by (simp add: unat_of_nat_small del: of_nat_Suc)
qed

lemma length_less_sizes: "list_all valid xs \<Longrightarrow> length xs \<le> (\<Sum>x\<leftarrow>xs. unat (GetSize ser x))"
proof (induction xs)
  case (Cons x xs)
  then have "0 < unat (GetSize ser x)" using size_pos [of x] by (simp add: unat_gt_0)
  with Cons show ?case by simp
qed simp

theorem vector_serializer: "serializer (VectorSerializer ser) (vector_valid ser valid)"
proof
  fix xs :: "'a list" and buf :: "u32 list"
  assume v: "vector_valid ser valid xs"
  let ?n = "\<Sum>x\<leftarrow>xs. unat (GetSize ser x)"
  have xs: "list_all valid xs" "?n < 2147483647" using v by (simp_all add: vector_valid_def)
  have sz: "unat (vec_size ser xs) = Suc ?n" using vec_size_eq xs(2) by simp
  then show "GetSize (VectorSerializer ser) xs \<noteq> 0" by (auto simp: VectorSerializer_def)
  assume "unat (GetSize (VectorSerializer ser) xs) \<le> length buf"
  then have room: "Suc ?n \<le> length buf" using sz by (simp add: VectorSerializer_def)
  let ?buf = "buf[0 := of_nat (length xs)]"
  have "1 + ?n \<le> length ?buf" using room by simp
  from vec_serialize_spec [OF xs(1) this] obtain wss where wss: "list_all2 (reads_as ser) wss xs" "length (concat wss) = ?n"
      "vec_serialize ser xs 1 ?buf = take 1 ?buf @ concat wss @ drop (1 + length (concat wss)) ?buf"
    by blast
  have hd: "take 1 ?buf = [of_nat (length xs)]" using room by (cases buf) auto
  have dr: "drop (1 + length (concat wss)) ?buf = drop (Suc ?n) buf" using room wss(2) by (cases buf) auto
  let ?ws = "of_nat (length xs) # concat wss"
  have "length xs < 4294967296" using length_less_sizes [OF xs(1)] xs(2) by linarith
  then have cnt: "unat (of_nat (length xs) :: u32) = length xs" by (simp add: unat_of_nat_small)
  have "reads_as (VectorSerializer ser) ?ws xs"
  proof (unfold reads_as_def, intro allI)
    fix rest
    have "vec_deserialize ser (length xs) (of_nat (length [of_nat (length xs) :: u32]))
        ([of_nat (length xs)] @ concat wss @ rest) [] = Ret (of_nat (length [of_nat (length xs) :: u32] + length (concat wss)), [] @ xs)"
      using wss xs(2) by (intro vec_deserialize_spec) simp_all
    then show "Deserialize (VectorSerializer ser) (?ws @ rest) = Ret (of_nat (length ?ws), xs)"
      by (simp add: VectorSerializer_def cnt)
  qed
  moreover have "Serialize (VectorSerializer ser) xs buf = (?ws @ drop (length ?ws) buf, GetSize (VectorSerializer ser) xs)"
    using wss(2,3) hd dr by (simp add: VectorSerializer_def)
  moreover have "length ?ws = unat (GetSize (VectorSerializer ser) xs)" using wss(2) sz by (simp add: VectorSerializer_def)
  ultimately show "\<exists>ws. length ws = unat (GetSize (VectorSerializer ser) xs) \<and>
      Serialize (VectorSerializer ser) xs buf = (ws @ drop (length ws) buf, GetSize (VectorSerializer ser) xs) \<and>
      reads_as (VectorSerializer ser) ws xs"
    by blast
qed

end

section \<open>Integers and strings\<close>

interpretation int_ser: serializer IntSerializer "\<lambda>x. True"
proof
  fix x :: u32 and buf :: "u32 list"
  have one: "cell_divide 4 = 1" by (simp add: cell_divide_def)
  then show "GetSize IntSerializer x \<noteq> 0" by (simp add: IntSerializer_def)
  assume "unat (GetSize IntSerializer x) \<le> length buf"
  then have "buf \<noteq> []" by (auto simp: IntSerializer_def one)
  then show "\<exists>ws. length ws = unat (GetSize IntSerializer x) \<and>
      Serialize IntSerializer x buf = (ws @ drop (length ws) buf, GetSize IntSerializer x) \<and> reads_as IntSerializer ws x"
    by (intro exI [of _ "[x]"]) (cases buf; simp add: IntSerializer_def one reads_as_def)
qed

definition string_valid :: "u8 list \<Rightarrow> bool" where
  "string_valid s \<longleftrightarrow> 0 \<notin> set s \<and> length s < 2147483648"

lemma string_size_eq:
  assumes "length s < 2147483648"
  shows "unat (string_size s) = length s div 4 + 2" "of_nat (length s) + 1 = (of_nat (length s + 1) :: u32)"
proof -
  let ?n = "of_nat (length s) + 1 :: u32"
  have n: "unat ?n = Suc (length s)" 
  proof -
    have "unat (of_nat (Suc (length s)) :: u32) = Suc (length s)" by (rule unat_of_nat_small) (use assms in simp)
    then show ?thesis by (simp only: of_nat_Suc add.commute)
  qed
  show "?n = of_nat (length s + 1)" by simp
  have dm: "unat (?n div 4) = Suc (length s) div 4" "unat (?n mod 4) = Suc (length s) mod 4"
    using n by (simp_all add: unat_div unat_mod)
  have z: "?n mod 4 = 0 \<longleftrightarrow> Suc (length s) mod 4 = 0" using dm(2) by (metis unat_eq_zero)
  have b: "Suc (length s) div 4 < 1000000000" using assms by linarith
  have s: "unat (w + 1) = unat w + 1" if "unat w < 2000000000" for w :: u32
    using that unat_add_of_nat [of w 1] by simp
  have q: "Suc (length s) div 4 = (if Suc (length s) mod 4 = 0 then length s div 4 + 1 else length s div 4)" by (simp add: div_Suc)
  show "unat (string_size s) = length s div 4 + 2"
    unfolding string_size_def cell_divide_def
    using b s [of "?n div 4"] s [of "?n div 4 + 1"] dm(1) q by (simp add: z)
qed

text \<open>The words of a string: the bytes, filled up to a word with what the buffer held.\<close>

interpretation string_ser: serializer StringSerializer string_valid
proof
  fix s :: "u8 list" and buf :: "u32 list"
  assume v: "string_valid s"
  then have s: "0 \<notin> set s" "length s < 2147483648" by (simp_all add: string_valid_def)
  note sz = string_size_eq [OF s(2)]
  show "GetSize StringSerializer s \<noteq> 0" using sz(1) by (auto simp: StringSerializer_def)
  assume "unat (GetSize StringSerializer s) \<le> length buf"
  then have room: "length s div 4 + 2 \<le> length buf" using sz(1) by (simp add: StringSerializer_def)
  let ?k = "length s div 4 + 1"
  obtain b bs where buf: "buf = b # bs" using room by (cases buf) auto
  let ?pad = "drop (length s) (bytes_of_words (take ?k bs))"
  let ?ws = "words_of_bytes (s @ ?pad)"
  have k: "?k \<le> length bs" using room buf by simp
  have lt: "length s < 4 * ?k" using div_mult_mod_eq [of "length s" 4] mod_less_divisor [of 4 "length s"] by simp
  have padlen: "length (s @ ?pad) = 4 * ?k" using k lt by simp
  have lw: "length ?ws = ?k" by (simp only: length_words_of_bytes padlen nonzero_mult_div_cancel_left num.simps)
  have "bytes_of_words bs = bytes_of_words (take ?k bs) @ bytes_of_words (drop ?k bs)"
    by (metis append_take_drop_id bytes_of_words_def concat_append map_append)
  then have ov: "overwrite (bytes_of_words bs) 0 s = s @ ?pad @ bytes_of_words (drop ?k bs)"
    using lt k by (simp add: overwrite_def)
  have wa: "words_of_bytes (xs @ bytes_of_words ys) = words_of_bytes xs @ ys" if "length xs mod 4 = 0" for xs ys
    using that by (metis bytes_of_words_def bytes_of_words_of_bytes concat_append map_append words_of_bytes_of_words)
  have ser: "string_serialize s buf = (of_nat (length s) # ?ws) @ drop (length (of_nat (length s) # ?ws)) buf"
  proof -
    have "string_serialize s buf = of_nat (length s) # words_of_bytes ((s @ ?pad) @ bytes_of_words (drop ?k bs))"
      using buf ov by (simp add: string_serialize_def)
    also have "\<dots> = of_nat (length s) # ?ws @ drop ?k bs" using wa [of "s @ ?pad"] padlen by (simp only: mod_mult_self1_is_0)
    finally show ?thesis by (simp only: buf lw list.size append_Cons) simp
  qed
  have len: "length (of_nat (length s) # ?ws) = unat (string_size s)" using padlen sz(1) by (simp add: length_words_of_bytes)
  have rd: "reads_as StringSerializer (of_nat (length s) # ?ws) s"
  proof (unfold reads_as_def, intro allI)
    fix rest
    have u: "unat (of_nat (length s) :: u32) = length s" by (rule unat_of_nat_small) (use s(2) in simp)
    have "bytes_of_words (?ws @ rest) = s @ ?pad @ bytes_of_words rest"
      using bytes_of_words_of_bytes [of "s @ ?pad"] padlen by (simp add: bytes_of_words_def)
    then have tw: "takeWhile (\<lambda>c. c \<noteq> 0) ((bytes_of_words (?ws @ rest))[length s := 0]) = s"
      using takeWhile_terminated [OF s(1), of "?pad @ bytes_of_words rest"] by simp
    have "\<not> 4 * (length ?ws + length rest) \<le> length s" unfolding lw not_le by (rule less_le_trans [OF lt]) simp
    then show "Deserialize StringSerializer ((of_nat (length s) # ?ws) @ rest) = Ret (of_nat (length (of_nat (length s) # ?ws)), s)"
      unfolding len using tw by (simp add: StringSerializer_def string_deserialize_def Let_def u string_size_def)
  qed
  show "\<exists>ws. length ws = unat (GetSize StringSerializer s) \<and>
      Serialize StringSerializer s buf = (ws @ drop (length ws) buf, GetSize StringSerializer s) \<and> reads_as StringSerializer ws s"
    by (intro exI [of _ "of_nat (length s) # ?ws"]) (use ser len rd in \<open>simp add: StringSerializer_def\<close>)
qed

interpretation int_vec: serializer "VectorSerializer IntSerializer" "vector_valid IntSerializer (\<lambda>x. True)"
  by (rule int_ser.vector_serializer)

interpretation string_vec: serializer "VectorSerializer StringSerializer" "vector_valid StringSerializer string_valid"
  by (rule string_ser.vector_serializer)

end
