(* ===== verification/Dogee_AccumulatorParts.thy ===== *)
theory Dogee_AccumulatorParts
  imports Dogee_Accumulator
begin

text \<open>
  The arithmetic of accumulators: how the vector is divided among the nodes, how a part is cut into
  packets, and what a packet adds to the owner's buffer, dense or sparse.
\<close>

section \<open>Parts\<close>

text \<open>The number of blocks of a part, and the border between parts, as natural numbers.\<close>

definition part_words :: "nat \<Rightarrow> nat \<Rightarrow> nat" where
  "part_words num_nodes s = 32 * ((((s + 31) div 32) + num_nodes - 1) div num_nodes)"

definition part_ok :: "nat \<Rightarrow> u32 \<Rightarrow> bool" where
  "part_ok num_nodes sz \<longleftrightarrow> 0 < num_nodes \<and> num_nodes \<le> 65536 \<and> unat sz \<le> 134217728"

lemma ceil_div: "0 < n \<Longrightarrow> (if m mod n = 0 then m div n else m div n + 1) = (m + n - 1) div n" for m n :: nat
proof -
  assume n: "0 < n"
  have m: "m = n * (m div n) + m mod n" by simp
  show ?thesis
  proof (cases "m mod n = 0")
    case True
    then have "m + n - 1 = n * (m div n) + (n - 1)" using m n by simp
    also have "\<dots> div n = m div n + (n - 1) div n" using n by (subst div_mult_self4) simp_all
    finally show ?thesis using True n by simp
  next
    case False
    have "n * (m div n + 1) = n * (m div n) + n" by simp
    then have "m + n - 1 = n * (m div n + 1) + (m mod n - 1)" using m n False by linarith
    also have "\<dots> div n = (m div n + 1) + (m mod n - 1) div n" using n by (subst div_mult_self4) simp_all
    also have "(m mod n - 1) div n = 0" using n less_imp_diff_less [OF mod_less_divisor [OF n, of m], of 1] by simp
    finally show ?thesis using False by simp
  qed
qed

lemma part_words_covers: "0 < n \<Longrightarrow> s \<le> n * part_words n s"
proof -
  assume n: "0 < n"
  let ?b = "(s + 31) div 32"
  have "?b \<le> n * ((?b + n - 1) div n)"
  proof -
    have "?b + n - 1 = n * ((?b + n - 1) div n) + (?b + n - 1) mod n" by simp
    then show ?thesis using mod_less_divisor [OF n, of "?b + n - 1"] by linarith
  qed
  moreover have "s \<le> 32 * ?b"
  proof -
    have "s + 31 = 32 * ?b + (s + 31) mod 32" by simp
    then show ?thesis using mod_less_divisor [of 32 "s + 31"] by linarith
  qed
  ultimately show ?thesis unfolding part_words_def by (simp add: algebra_simps)
qed

lemma part_words_bound:
  assumes "0 < n" "n \<le> 65536" "s \<le> 134217728" "i \<le> n"
  shows "i * part_words n s < 2147483648"
proof -
  let ?b = "(s + 31) div 32"
  have "n * ((?b + n - 1) div n) \<le> ?b + n - 1" by simp
  then have "i * ((?b + n - 1) div n) \<le> ?b + n - 1" using assms(4) by (meson le_trans mult_le_mono1)
  moreover have "32 * ?b \<le> s + 31" by simp
  ultimately have "32 * (i * ((?b + n - 1) div n)) \<le> s + 31 + 32 * n" using assms(1) by linarith
  then show ?thesis using assms unfolding part_words_def by (simp add: algebra_simps)
qed

lemma ac_blocks_unat:
  assumes "part_ok n sz"
  shows "32 * unat (ac_blocks n sz) = part_words n (unat sz)"
proof -
  have n: "0 < n" "n \<le> 65536" and s: "unat sz \<le> 134217728" using assms by (simp_all add: part_ok_def)
  define b where "b = (if sz mod 32 = 0 then sz div 32 else sz div 32 + 1)"
  have un: "unat (of_nat n :: u32) = n" using n by (simp add: unat_of_nat_small)
  have z: "sz mod 32 = 0 \<longleftrightarrow> unat sz mod 32 = 0" by (simp add: word_unat_eq_iff unat_mod)
  have "unat sz div 32 \<le> 4194304" using div_le_mono [OF s, of 32] by simp
  then have "unat (sz div 32 + 1) = unat sz div 32 + 1" using unat_add_of_nat [of "sz div 32" 1] by (simp add: unat_div)
  then have b: "unat b = (unat sz + 31) div 32" using ceil_div [of 32 "unat sz"] by (simp add: b_def z unat_div split: if_splits)
  have bn: "unat (b div of_nat n) = unat b div n" "b mod of_nat n = 0 \<longleftrightarrow> unat b mod n = 0"
    by (simp_all add: word_unat_eq_iff unat_mod unat_div un)
  have "unat b \<le> 4194305" unfolding b using s by simp
  then have "unat b div n \<le> 4194305" using div_le_dividend le_trans by blast
  then have "unat (b div of_nat n + 1) = unat b div n + 1"
    using unat_add_of_nat [of "b div of_nat n" 1] by (simp add: bn)
  then have "unat (if b mod of_nat n = 0 then b div of_nat n else b div of_nat n + 1) =
      (if unat b mod n = 0 then unat b div n else unat b div n + 1)"
    by (simp add: bn)
  then have "unat (ac_blocks n sz) = (unat b + n - 1) div n"
    unfolding ceil_div [OF n(1)] by (simp only: ac_blocks_def Let_def b_def)
  then show ?thesis by (simp only: part_words_def b)
qed

lemma part_idx_unat:
  assumes "part_ok n sz" "i \<le> n"
  shows "unat (of_nat i * ac_blocks n sz * 32) = i * part_words n (unat sz)"
proof -
  have n: "0 < n" "n \<le> 65536" and s: "unat sz \<le> 134217728" using assms by (simp_all add: part_ok_def)
  have bd: "i * part_words n (unat sz) < 2147483648" by (rule part_words_bound [OF n s assms(2)])
  have "of_nat i * ac_blocks n sz * 32 = of_nat (i * (unat (ac_blocks n sz) * 32))" by simp
  also have "\<dots> = of_nat (i * part_words n (unat sz))" using ac_blocks_unat [OF assms(1)] by (simp only: mult.commute)
  finally have eq: "of_nat i * ac_blocks n sz * 32 = (of_nat (i * part_words n (unat sz)) :: u32)" .
  show ?thesis unfolding eq by (rule unat_of_nat_small) (use bd in simp)
qed

definition part_lo :: "nat \<Rightarrow> u32 \<Rightarrow> nat \<Rightarrow> nat" where
  "part_lo n sz i = i * part_words n (unat sz)"

definition part_hi :: "nat \<Rightarrow> u32 \<Rightarrow> nat \<Rightarrow> nat" where
  "part_hi n sz i = min (unat sz) (Suc i * part_words n (unat sz))"

lemma send_idx_unat: "part_ok n sz \<Longrightarrow> i < n \<Longrightarrow> unat (send_idx n sz i) = part_lo n sz i"
  by (simp add: send_idx_def part_idx_unat part_lo_def)

lemma blocks_add:
  assumes "part_ok n sz" "i < n"
  shows "unat (ac_blocks n sz * 32 + of_nat i * ac_blocks n sz * 32) = Suc i * part_words n (unat sz)"
proof -
  have "ac_blocks n sz * 32 + of_nat i * ac_blocks n sz * 32 = of_nat (Suc i) * ac_blocks n sz * 32"
    by (simp add: algebra_simps)
  then show ?thesis using part_idx_unat [OF assms(1), of "Suc i"] assms(2) by simp
qed

lemma send_size_unat:
  assumes "part_ok n sz" "i < n"
  shows "unat (send_size n sz i) = part_hi n sz i"
proof -
  have "send_idx n sz i + ac_blocks n sz * 32 = ac_blocks n sz * 32 + send_idx n sz i" by simp
  then show ?thesis
    using blocks_add [OF assms] unfolding send_size_def send_idx_def part_hi_def
    by (simp add: word_less_nat_alt min_def add.commute)
qed

lemma part_bounds:
  assumes "part_ok n sz" "i < n"
  shows "part_lo n sz i < 2147483648" "part_hi n sz i \<le> unat sz" "part_hi n sz i \<le> 134217728"
proof -
  show "part_lo n sz i < 2147483648"
    using part_words_bound [of n "unat sz" i] assms by (simp add: part_ok_def part_lo_def)
  show "part_hi n sz i \<le> unat sz" by (simp add: part_hi_def)
  then show "part_hi n sz i \<le> 134217728" using assms by (simp add: part_ok_def)
qed

lemma init_data_node_part:
  assumes "part_ok n (ab_len accu)" "self < n"
  shows "unat (ds_base (init_data_node n self accu)) = part_lo n (ab_len accu) self"
    "unat (ds_size (init_data_node n self accu)) = part_hi n (ab_len accu) self - part_lo n (ab_len accu) self"
    "ds_buf (init_data_node n self accu) = Some (let buf = AllocLocalBuffer accu (ds_size (init_data_node n self accu))
       in if ds_size (init_data_node n self accu) = 0 then buf else ab_clear accu buf)"
proof -
  let ?sz = "ab_len accu" and ?B = "ac_blocks n (ab_len accu)"
  have le: "?sz \<le> 1024 * 1024 * 128" using assms(1) by (simp add: part_ok_def word_le_nat_alt)
  have base: "unat (?B * of_nat self * 32) = part_lo n ?sz self"
    using part_idx_unat [OF assms(1), of self] assms(2) by (simp add: part_lo_def mult.commute)
  have up: "unat (?B * 32 * (of_nat self + 1)) = Suc self * part_words n (unat ?sz)"
    using blocks_add [OF assms] by (simp add: algebra_simps)
  have full: "unat (?B * 32) = part_words n (unat ?sz)"
    using part_idx_unat [OF assms(1), of 1] assms by (simp add: part_ok_def)
  show "unat (ds_base (init_data_node n self accu)) = part_lo n ?sz self"
    using le base by (simp add: init_data_node_def Let_def)
  have "unat (if ?B * 32 * (of_nat self + 1) > ?sz
      then if ?sz < ?B * of_nat self * 32 then 0 else ?sz - ?B * of_nat self * 32 else ?B * 32) =
      part_hi n ?sz self - part_lo n ?sz self"
    using up base full by (auto simp: word_less_nat_alt part_hi_def part_lo_def unat_sub_le not_less)
  then show "unat (ds_size (init_data_node n self accu)) = part_hi n ?sz self - part_lo n ?sz self"
    using le by (simp add: init_data_node_def Let_def)
  show "ds_buf (init_data_node n self accu) = Some (let buf = AllocLocalBuffer accu (ds_size (init_data_node n self accu))
       in if ds_size (init_data_node n self accu) = 0 then buf else ab_clear accu buf)"
    using le by (simp add: init_data_node_def Let_def)
qed

text \<open>Every word of the vector belongs to exactly one part.\<close>

lemma parts_tile:
  assumes "part_ok n sz" "p < unat sz"
  shows "\<exists>!i. i < n \<and> part_lo n sz i \<le> p \<and> p < part_hi n sz i"
proof -
  let ?w = "part_words n (unat sz)"
  have n: "0 < n" using assms(1) by (simp add: part_ok_def)
  have cov: "unat sz \<le> n * ?w" by (rule part_words_covers [OF n])
  then have w: "0 < ?w" using assms(2) by (metis gr_zeroI less_le_trans mult_0_right not_less_zero)
  have iff: "part_lo n sz i \<le> p \<and> p < part_hi n sz i \<longleftrightarrow> p div ?w = i" for i
    using assms(2) w unfolding part_lo_def part_hi_def
  proof -
    have "p div ?w = i \<longleftrightarrow> i * ?w \<le> p \<and> p < Suc i * ?w"
      using w by (auto intro!: div_nat_eqI simp: mult.commute dividend_less_times_div)
    then show "i * ?w \<le> p \<and> p < min (unat sz) (Suc i * ?w) \<longleftrightarrow> p div ?w = i" using assms(2) by auto
  qed
  have "p div ?w < n" using assms(2) cov w by (simp add: less_mult_imp_div_less)
  then show ?thesis using iff by auto
qed

section \<open>Packets\<close>

text \<open>The words \<open>lo..<hi\<close> of a vector added to a buffer whose first word has the index \<open>base\<close>.\<close>

definition add_slice :: "u32 list \<Rightarrow> nat \<Rightarrow> nat \<Rightarrow> nat \<Rightarrow> u32 list \<Rightarrow> u32 list" where
  "add_slice vec base lo hi buf =
     map (\<lambda>j. if lo \<le> base + j \<and> base + j < hi then buf ! j + vec ! (base + j) else buf ! j) [0..<length buf]"

lemma length_add_slice [simp]: "length (add_slice vec base lo hi buf) = length buf"
  by (simp add: add_slice_def)

lemma nth_add_slice: "j < length buf \<Longrightarrow> add_slice vec base lo hi buf ! j =
    (if lo \<le> base + j \<and> base + j < hi then buf ! j + vec ! (base + j) else buf ! j)"
  by (simp add: add_slice_def)

lemma add_slice_empty [simp]: "hi \<le> lo \<Longrightarrow> add_slice vec base lo hi buf = buf"
  by (rule nth_equalityI) (auto simp: nth_add_slice)

lemma add_slice_append:
  "lo \<le> mid \<Longrightarrow> mid \<le> hi \<Longrightarrow> add_slice vec base mid hi (add_slice vec base lo mid buf) = add_slice vec base lo hi buf"
  by (rule nth_equalityI) (auto simp: nth_add_slice)

lemma add_slice_one:
  assumes "base \<le> p" "p < base + length buf"
  shows "add_slice vec base p (Suc p) buf = buf[p - base := buf ! (p - base) + vec ! p]"
  by (rule nth_equalityI) (use assms in \<open>auto simp: nth_add_slice nth_list_update\<close>)

lemma dense_loop_add:
  assumes "base \<le> p" "p + n \<le> base + length buf" "p + n \<le> length vec"
  shows "dense_loop (\<lambda>v i out. out + v) (take n (drop p vec)) i (p - base) buf = add_slice vec base p (p + n) buf"
  using assms
proof (induction n arbitrary: p i buf)
  case (Suc n)
  have d: "take (Suc n) (drop p vec) = vec ! p # take n (drop (Suc p) vec)"
    using Suc.prems(3) by (simp add: Cons_nth_drop_Suc [symmetric])
  let ?buf = "buf[p - base := buf ! (p - base) + vec ! p]"
  have "dense_loop (\<lambda>v i out. out + v) (take n (drop (Suc p) vec)) (i + 1) (Suc p - base) ?buf =
      add_slice vec base (Suc p) (Suc p + n) ?buf"
    using Suc.prems by (intro Suc.IH) simp_all
  moreover have "?buf = add_slice vec base p (Suc p) buf" using Suc.prems by (simp add: add_slice_one)
  ultimately show ?case
    using Suc.prems add_slice_append [of p "Suc p" "Suc p + n" vec base buf] by (simp add: d Suc_diff_le)
qed simp

text \<open>What the owner of a part computes with: its words are below \<open>2\<^sup>3\<^sup>1\<close>.\<close>

definition owner_ok :: "u32 list \<Rightarrow> u32 \<Rightarrow> u32 \<Rightarrow> bool" where
  "owner_ok buf base sz \<longleftrightarrow> length buf = unat sz \<and> unat base + unat sz < 2147483648"

lemma sint_nonneg: "unat (w :: u32) < 2147483648 \<Longrightarrow> 0 \<le> sint w"
  by (simp add: sint_small)

lemma DoAccumulateDense_add:
  assumes ow: "owner_ok buf base sz" and b: "unat base \<le> p" "p + n \<le> unat base + unat sz" "p + n \<le> length vec"
  shows "DoAccumulateDense (\<lambda>v i out. out + v) (take n (drop p vec)) (of_nat p) buf base sz = Ret (add_slice vec (unat base) p (p + n) buf)"
proof -
  have p: "unat (of_nat p :: u32) = p" using b ow by (simp add: owner_ok_def unat_of_nat_small)
  have off: "unat (of_nat p - base) = p - unat base" using b(1) p by (simp add: unat_sub_le)
  have "p - unat base < 2147483648" using b ow unfolding owner_ok_def by linarith
  then have "0 \<le> sint (of_nat p - base)" using off by (simp add: sint_nonneg)
  moreover have "of_nat p - base + of_nat (length (take n (drop p vec))) \<le> sz"
  proof -
    have l: "length (take n (drop p vec)) = n" using b(3) by simp
    have "unat (of_nat p - base + of_nat n) = p - unat base + n"
    proof -
      have "p - unat base + n < 4294967296" using b ow unfolding owner_ok_def by linarith
      then show ?thesis using off by (subst unat_add_of_nat) simp_all
    qed
    then show ?thesis unfolding l word_le_nat_alt using b by simp
  qed
  ultimately show ?thesis
    using dense_loop_add [of "unat base" p n buf vec "of_nat p"] b ow
    by (simp add: DoAccumulateDense_def off owner_ok_def del: length_take length_drop)
qed

text \<open>
  A sparse packet with threshold 0 has the same effect: only zeros are left out.
\<close>

lemma ac_small_0: "\<not> ac_small True 0 val"
  by (simp add: ac_small_def)

lemma sparse_loop_progress:
  assumes "sparse_loop vec threshold i used = (j, es)"
  shows "i \<le> j" "j \<le> i + length vec" "vec \<noteq> [] \<Longrightarrow> used + 8 < BD_DATA_PROCESS_SIZE \<Longrightarrow> i < j"
    "8 * length es + used \<le> max used BD_DATA_PROCESS_SIZE"
proof -
  have "i \<le> j \<and> j \<le> i + length vec \<and> (vec \<noteq> [] \<longrightarrow> used + 8 < BD_DATA_PROCESS_SIZE \<longrightarrow> i < j) \<and>
      8 * length es + used \<le> max used BD_DATA_PROCESS_SIZE"
    using assms
  proof (induction vec threshold i used arbitrary: j es rule: sparse_loop.induct)
    case (2 val vec threshold i used)
    show ?case
    proof (cases "used + 8 \<ge> BD_DATA_PROCESS_SIZE")
      case False
      show ?thesis
      proof (cases "ac_small True threshold val \<or> val = 0")
        case True
        then show ?thesis using 2(1) [OF False True] 2(3) False by fastforce
      next
        case keep: False
        obtain k es' where k: "sparse_loop vec threshold (i + 1) (used + 8) = (k, es')" by (cases "sparse_loop vec threshold (i + 1) (used + 8)")
        then show ?thesis using 2(2) [OF False keep k] 2(3) False keep by auto
      qed
    qed (use 2(3) in simp)
  qed simp
  then show "i \<le> j" "j \<le> i + length vec" "vec \<noteq> [] \<Longrightarrow> used + 8 < BD_DATA_PROCESS_SIZE \<Longrightarrow> i < j"
    "8 * length es + used \<le> max used BD_DATA_PROCESS_SIZE" by simp_all
qed

lemma sparse_loop_add:
  assumes "sparse_loop (take n (drop p vec)) 0 p used = (j, es)" "owner_ok buf base sz"
    and "unat base \<le> p" "p + n \<le> unat base + unat sz" "p + n \<le> length vec"
  shows "DoAccumulateSparse (\<lambda>v i out. out + v) es in_index buf base sz = Ret (add_slice vec (unat base) p j buf)"
  using assms
proof (induction n arbitrary: p used j es buf)
  case 0
  then show ?case by simp
next
  case (Suc n)
  have d: "take (Suc n) (drop p vec) = vec ! p # take n (drop (Suc p) vec)"
    using Suc.prems(5) by (simp add: Cons_nth_drop_Suc [symmetric])
  have one: "add_slice vec (unat base) p (Suc p) buf = buf[p - unat base := buf ! (p - unat base) + vec ! p]"
    using Suc.prems by (intro add_slice_one) (simp_all add: owner_ok_def)
  show ?case
  proof (cases "used + 8 \<ge> BD_DATA_PROCESS_SIZE")
    case True
    then show ?thesis using Suc.prems(1) by (simp add: d)
  next
    case False
    show ?thesis
    proof (cases "vec ! p = 0")
      case True
      then have s: "sparse_loop (take n (drop (Suc p) vec)) 0 (Suc p) used = (j, es)"
        using Suc.prems(1) False by (simp add: d)
      have "DoAccumulateSparse (\<lambda>v i out. out + v) es in_index buf base sz = Ret (add_slice vec (unat base) (Suc p) j buf)"
        by (rule Suc.IH [OF s Suc.prems(2)]) (use Suc.prems in simp_all)
      moreover have "add_slice vec (unat base) p (Suc p) buf = buf" unfolding one using True by simp
      moreover have "Suc p \<le> j" by (rule sparse_loop_progress(1) [OF s])
      ultimately show ?thesis using add_slice_append [of p "Suc p" j vec "unat base" buf] by simp
    next
      case nz: False
      obtain es' where s: "sparse_loop (take n (drop (Suc p) vec)) 0 (Suc p) (used + 8) = (j, es')"
          "es = \<lparr> se_index = of_nat p, se_data = vec ! p \<rparr> # es'"
        using Suc.prems(1) False nz by (auto simp: d ac_small_0 split: prod.splits)
      have p: "unat (of_nat p :: u32) = p" using Suc.prems by (simp add: owner_ok_def unat_of_nat_small)
      have up: "unat (base + sz) = unat base + unat sz"
        using Suc.prems(2) unat_add_of_nat [of base "unat sz"] by (simp add: owner_ok_def)
      have bnd: "base \<le> of_nat p" "of_nat p < base + sz" "unat (of_nat p - base) = p - unat base"
        using Suc.prems(3,4) p up by (simp_all add: word_le_nat_alt word_less_nat_alt unat_sub_le)
      let ?buf = "buf[p - unat base := buf ! (p - unat base) + vec ! p]"
      have "DoAccumulateSparse (\<lambda>v i out. out + v) es' in_index ?buf base sz = Ret (add_slice vec (unat base) (Suc p) j ?buf)"
        by (rule Suc.IH [OF s(1)]) (use Suc.prems in \<open>simp_all add: owner_ok_def\<close>)
      moreover have "Suc p \<le> j" by (rule sparse_loop_progress(1) [OF s(1)])
      ultimately show ?thesis
        using add_slice_append [of p "Suc p" j vec "unat base" buf] bnd by (simp add: s(2) one)
    qed
  qed
qed

lemma prepare_bytes:
  assumes "AcAccumulatePrepareBuffer mode threshold vec idx e = (n, data)" "idx \<le> e" "unat e < 2147483648"
  shows "case data of TypeDense ws \<Rightarrow> 4 * length ws \<le> BD_DATA_PROCESS_SIZE | TypeSparse es \<Rightarrow> 8 * length es \<le> BD_DATA_PROCESS_SIZE"
proof (cases data)
  case (TypeDense ws)
  then obtain m :: u32 where m: "ws = take (unat m) (drop (unat idx) vec)"
      "m = (if idx + of_nat (BD_DATA_PROCESS_SIZE div 4) > e then e - idx else of_nat (BD_DATA_PROCESS_SIZE div 4))"
    using assms(1) by (auto simp: AcAccumulatePrepareBuffer_def Let_def split: if_splits prod.splits)
  have le: "unat idx \<le> unat e" using assms(2) by (simp add: word_le_nat_alt)
  then have a: "unat (idx + 4096) = unat idx + 4096" using assms(3) unat_add_of_nat [of idx 4096] by simp
  have "unat m \<le> 4096"
  proof (cases "idx + 4096 > e")
    case True
    then have "unat e < unat idx + 4096" using a by (simp add: word_less_nat_alt)
    then show ?thesis using True m(2) le by (simp add: BD_DATA_PROCESS_SIZE_def unat_sub_le)
  next
    case False
    then show ?thesis using m(2) by (simp add: BD_DATA_PROCESS_SIZE_def)
  qed
  then show ?thesis using TypeDense m(1) by (simp add: BD_DATA_PROCESS_SIZE_def)
next
  case (TypeSparse es)
  then obtain i where "sparse_loop (take (unat e - unat idx) (drop (unat idx) vec)) threshold (unat idx) 0 = (i, es)"
    using assms(1) by (auto simp: AcAccumulatePrepareBuffer_def MakeSparseArray_def Let_def split: if_splits prod.splits)
  then show ?thesis using sparse_loop_progress(4) TypeSparse by fastforce
qed

text \<open>The packets of a part, from word \<open>p\<close> to word \<open>e\<close>: thread id, offset and data.\<close>

inductive ac_stream :: "AccumulatorMode \<Rightarrow> u32 \<Rightarrow> u32 list \<Rightarrow> u32 \<Rightarrow> nat \<Rightarrow> nat \<Rightarrow> (u32 \<times> u32 \<times> AcDataType) list \<Rightarrow> bool"
  for mode threshold vec tid where
  ac_stream_empty: "ac_stream mode threshold vec tid p p [(tid, 0, TypeDense [])]"
| ac_stream_last: "p < e \<Longrightarrow> AcAccumulatePrepareBuffer mode threshold vec (of_nat p) (of_nat e) = (n, data) \<Longrightarrow> p + unat n = e \<Longrightarrow>
    ac_stream mode threshold vec tid p e [(tid, of_nat p, data)]"
| ac_stream_more: "p < e \<Longrightarrow> AcAccumulatePrepareBuffer mode threshold vec (of_nat p) (of_nat e) = (n, data) \<Longrightarrow> p + unat n < e \<Longrightarrow>
    ac_stream mode threshold vec tid (p + unat n) e ms \<Longrightarrow> ac_stream mode threshold vec tid p e ((0, of_nat p, data) # ms)"

lemma prepare_progress:
  assumes "AcAccumulatePrepareBuffer mode threshold vec (of_nat p) (of_nat e) = (n, data)"
    and "p < e" "e \<le> length vec" "e < 2147483648"
  shows "0 < unat n" "p + unat n \<le> e"
proof -
  have un: "unat (of_nat p :: u32) = p" "unat (of_nat e :: u32) = e" using assms by (simp_all add: unat_of_nat_small)
  have d: "unat (of_nat e - of_nat p :: u32) = e - p" using assms(2) un by (simp add: unat_sub_le)
  have a: "unat (of_nat p + 4096 :: u32) = p + 4096" using un assms unat_add_of_nat [of "of_nat p :: u32" 4096] by simp
  have "0 < unat n \<and> p + unat n \<le> e"
  proof (cases data)
    case (TypeDense ws)
    then have "n = (if of_nat p + 4096 > (of_nat e :: u32) then of_nat e - of_nat p else 4096)"
      using assms(1) by (auto simp: AcAccumulatePrepareBuffer_def BD_DATA_PROCESS_SIZE_def Let_def split: if_splits prod.splits)
    then show ?thesis using d a un assms(2) by (simp add: word_less_nat_alt)
  next
    case (TypeSparse es)
    then obtain i where i: "sparse_loop (take (e - p) (drop p vec)) threshold p 0 = (i, es)" "n = of_nat (i - p)"
      using assms(1) un by (auto simp: AcAccumulatePrepareBuffer_def MakeSparseArray_def Let_def split: if_splits prod.splits)
    have "p < i" using assms(2,3) by (intro sparse_loop_progress(3) [OF i(1)]) (auto simp: BD_DATA_PROCESS_SIZE_def)
    moreover have "i \<le> e" using sparse_loop_progress(2) [OF i(1)] assms(2,3) by simp
    moreover have "unat n = i - p" unfolding i(2) using \<open>i \<le> e\<close> assms(4) by (intro unat_of_nat_small) simp
    ultimately show ?thesis by simp
  qed
  then show "0 < unat n" "p + unat n \<le> e" by simp_all
qed

lemma ac_stream_exists:
  assumes "p \<le> e" "e \<le> length vec" "e < 2147483648"
  shows "\<exists>ms. ac_stream mode threshold vec tid p e ms"
  using assms
proof (induction "e - p" arbitrary: p rule: less_induct)
  case less
  show ?case
  proof (cases "p = e")
    case True
    then show ?thesis using ac_stream_empty by blast
  next
    case False
    obtain n data where nd: "AcAccumulatePrepareBuffer mode threshold vec (of_nat p) (of_nat e) = (n, data)"
      by (cases "AcAccumulatePrepareBuffer mode threshold vec (of_nat p) (of_nat e)")
    have pe: "p < e" using False less.prems by simp
    note pp = prepare_progress [OF nd pe less.prems(2,3)]
    show ?thesis
    proof (cases "p + unat n = e")
      case True
      then show ?thesis using ac_stream_last [OF pe nd] by blast
    next
      case lt: False
      have "e - (p + unat n) < e - p" using pp pe by linarith
      then obtain ms where "ac_stream mode threshold vec tid (p + unat n) e ms"
        using less.hyps [of "p + unat n"] pp less.prems by auto
      then show ?thesis using ac_stream_more [OF pe nd] lt pp by fastforce
    qed
  qed
qed

text \<open>Adding a packet of a vector to the owner's buffer.\<close>

definition adds :: "(u32 list, 'o) DBaseAccumulator \<Rightarrow> u32 list \<Rightarrow> u32 \<Rightarrow> u32 \<Rightarrow> nat \<Rightarrow> nat \<Rightarrow> u32 \<Rightarrow> AcDataType \<Rightarrow> bool" where
  "adds accu vec base sz p q offset data \<longleftrightarrow> p \<le> q \<and> (\<forall>node buf. ds_buf node = Some buf \<longrightarrow> owner_ok buf base sz \<longrightarrow>
     ds_base node = base \<longrightarrow> ds_size node = sz \<longrightarrow>
     ac_apply accu node offset data = Ret (node\<lparr> ds_buf := Some (add_slice vec (unat base) p q buf) \<rparr>))"

lemma DAdd_simps [simp]:
  "ab_arr (DAddAccumulator fresh arr len users) = arr" "ab_len (DAddAccumulator fresh arr len users) = len"
  "ab_num_users (DAddAccumulator fresh arr len users) = users"
  "ab_words (DAddAccumulator fresh arr len users) = (\<lambda>buf. buf)"
  "ab_clear (DAddAccumulator fresh arr len users) buf = replicate (length buf) 0"
  "AllocLocalBuffer (DAddAccumulator fresh arr len users) n = replicate (unat n) fresh"
  "BaseDoAccumulateDense (DAddAccumulator fresh arr len users) = DoAccumulateDense (\<lambda>v i out. out + v)"
  "BaseDoAccumulateSparse (DAddAccumulator fresh arr len users) = DoAccumulateSparse (\<lambda>v i out. out + v)"
  by (simp_all add: DAddAccumulator_def DFunctionalAccumulator_def fun_eq_iff)

lemma same_buf [simp]: "ds_buf node = Some buf \<Longrightarrow> node\<lparr> ds_buf := Some buf \<rparr> = node"
  by (cases node) simp

lemma adds_empty: "adds accu vec base sz p p offset (TypeDense [])"
  by (simp add: adds_def ac_apply_def)

lemma adds_dense:
  assumes "unat base \<le> p" "p + n \<le> unat base + unat sz" "p + n \<le> length vec" "0 < n"
  shows "adds (DAddAccumulator fresh arr len users) vec base sz p (p + n) (of_nat p) (TypeDense (take n (drop p vec)))"
proof -
  have ne: "take n (drop p vec) \<noteq> []" using assms by auto
  show ?thesis
    unfolding adds_def
  proof (intro conjI allI impI)
    fix node :: "u32 list DataSyncNode" and buf
    assume a: "ds_buf node = Some buf" "owner_ok buf base sz" "ds_base node = base" "ds_size node = sz"
    show "ac_apply (DAddAccumulator fresh arr len users) node (of_nat p) (TypeDense (take n (drop p vec))) =
        Ret (node\<lparr>ds_buf := Some (add_slice vec (unat base) p (p + n) buf)\<rparr>)"
      using DoAccumulateDense_add [OF a(2) assms(1-3)] a ne by (simp add: ac_apply_def)
  qed simp
qed

lemma adds_sparse:
  assumes "sparse_loop (take n (drop p vec)) 0 p used = (j, es)"
    and "unat base \<le> p" "p + n \<le> unat base + unat sz" "p + n \<le> length vec"
  shows "adds (DAddAccumulator fresh arr len users) vec base sz p j (of_nat p) (TypeSparse es)"
  unfolding adds_def
proof (intro conjI allI impI)
  show "p \<le> j" by (rule sparse_loop_progress(1) [OF assms(1)])
  fix node :: "u32 list DataSyncNode" and buf
  assume a: "ds_buf node = Some buf" "owner_ok buf base sz" "ds_base node = base" "ds_size node = sz"
  have s: "DoAccumulateSparse (\<lambda>v i out. out + v) es (of_nat p) buf base sz = Ret (add_slice vec (unat base) p j buf)"
    by (rule sparse_loop_add [OF assms(1) a(2) assms(2-4)])
  show "ac_apply (DAddAccumulator fresh arr len users) node (of_nat p) (TypeSparse es) =
      Ret (node\<lparr>ds_buf := Some (add_slice vec (unat base) p j buf)\<rparr>)"
  proof (cases "es = []")
    case True
    then have "add_slice vec (unat base) p j buf = buf" using s by simp
    then show ?thesis using a True by (simp add: ac_apply_def)
  qed (use s a in \<open>simp add: ac_apply_def\<close>)
qed
end
