(* ===== verification/Dogee_AccumulatorSend.thy ===== *)
theory Dogee_AccumulatorSend
  imports Dogee_AccumulatorParts
begin

text \<open>
  The sender: the loop of \<^verbatim>\<open>_DoAccumulateAndWait\<close> puts all packets of every part on the
  connections and ends, provided the sender's own part is not empty.
\<close>

section \<open>Packets on a connection\<close>

fun acc_pack :: "ObjectKey \<Rightarrow> u32 \<times> u32 \<times> AcDataType \<Rightarrow> RcDataPack" where
  "acc_pack aid (tid, offset, data) = AcDataAccumulate aid tid offset data"

fun is_acc :: "RcDataPack \<Rightarrow> bool" where
  "is_acc (AcDataAccumulate aid tid offset data) = True"
| "is_acc _ = False"

text \<open>The accumulate packets from node \<open>i\<close> to node \<open>j\<close>.\<close>

definition acc_packs :: "('b, 's, 'o) AcSys \<Rightarrow> nat \<Rightarrow> nat \<Rightarrow> RcDataPack list" where
  "acc_packs sys i j = filter is_acc (as_net sys i j)"

lemma acc_packs_send [simp]:
  "acc_packs (ac_send sys a b (AcDataAccumulate aid tid offset data)) i j =
     (if i = a \<and> j = b then acc_packs sys i j @ [AcDataAccumulate aid tid offset data] else acc_packs sys i j)"
  "acc_packs (ac_send sys a b (AcDataAccumulatePartialDone aid)) i j = acc_packs sys i j"
  "acc_packs (set_data_node sys a aid node) i j = acc_packs sys i j"
  "acc_packs (sys\<lparr> as_mem := s \<rparr>) i j = acc_packs sys i j" "acc_packs (sys\<lparr> as_woken := w \<rparr>) i j = acc_packs sys i j"
  by (simp_all add: acc_packs_def ac_send_def set_data_node_def)

lemma acc_packs_done [simp]: "acc_packs (ac_partial_done accs n sys self aid) i j = acc_packs sys i j"
  by (simp add: ac_partial_done_def AcAccumulatePartialDoneMsg_def Let_def)

lemma cxx_bind_Ret: "cxx_bind c f = Ret x \<longleftrightarrow> (\<exists>y. c = Ret y \<and> f y = Ret x)"
  by (cases c) auto

lemma acc_packs_msg:
  assumes "AcAccumulateMsg cache accs n sys self src aid tid offset data = Ret sys'"
  shows "acc_packs sys' i j = acc_packs sys i j"
  using assms by (auto simp: AcAccumulateMsg_def cxx_bind_Ret Let_def split: if_splits option.splits)

section \<open>The sending loop\<close>

text \<open>What has been sent to node \<open>i\<close> when \<open>idx i\<close> is the next word to send.\<close>

definition dest_ok :: "nat \<Rightarrow> u32 \<Rightarrow> AccumulatorMode \<Rightarrow> u32 \<Rightarrow> u32 list \<Rightarrow> nat \<Rightarrow> ObjectKey \<Rightarrow> u32 \<Rightarrow> RcDataPack list
    \<Rightarrow> ('b, 's, 'o) AcSys \<Rightarrow> (nat \<Rightarrow> u32) \<Rightarrow> nat \<Rightarrow> bool" where
  "dest_ok n sz mode threshold vec self aid tid old sys idx i \<longleftrightarrow>
     (\<exists>sent. acc_packs sys self i = old @ map (acc_pack aid) sent \<and>
        (if idx i < send_size n sz i
         then part_lo n sz i \<le> unat (idx i) \<and>
           (\<forall>ms. ac_stream mode threshold vec tid (unat (idx i)) (part_hi n sz i) ms \<longrightarrow>
              ac_stream mode threshold vec tid (part_lo n sz i) (part_hi n sz i) (sent @ ms))
         else ac_stream mode threshold vec tid (part_lo n sz i) (max (part_lo n sz i) (part_hi n sz i)) sent))"

definition send_one :: "nat \<Rightarrow> u32 \<Rightarrow> AccumulatorMode \<Rightarrow> u32 \<Rightarrow> u32 list \<Rightarrow> nat \<Rightarrow> ObjectKey \<Rightarrow> u32 \<Rightarrow> nat list \<Rightarrow> nat
    \<Rightarrow> ('b, 's, 'o) AcSys \<times> (nat \<Rightarrow> u32) \<times> nat \<Rightarrow> ('b, 's, 'o) AcSys \<times> (nat \<Rightarrow> u32) \<times> nat" where
  "send_one n sz mode threshold vec self aid tid writable i st =
     send_round n sz mode threshold vec self aid tid writable [i] st"

lemma send_round_Cons:
  "send_round n sz mode threshold vec self aid tid writable (i # is) st =
   send_round n sz mode threshold vec self aid tid writable is (send_one n sz mode threshold vec self aid tid writable i st)"
  by (cases st) (simp add: send_one_def)

definition sending :: "nat \<Rightarrow> u32 \<Rightarrow> nat \<Rightarrow> (nat \<Rightarrow> u32) \<Rightarrow> nat set" where
  "sending n sz self idx = {i. i < n \<and> i \<noteq> self \<and> idx i < send_size n sz i}"

lemma finite_sending [simp]: "finite (sending n sz self idx)"
  by (simp add: sending_def)

text \<open>One packet: it advances the index, and node \<open>i\<close> leaves \<open>sending\<close> with its last packet.\<close>

lemma send_one_spec:
  assumes po: "part_ok n sz" and vec: "unat sz = length vec" and i: "i < n"
    and d: "i \<in> sending n sz self idx" "i \<in> set writable" "dest_ok n sz mode threshold vec self aid tid old sys idx i"
  obtains sys' m where "send_one n sz mode threshold vec self aid tid writable i (sys, idx, dn) =
      (sys', idx(i := m), if m < send_size n sz i then dn else dn + 1)"
    "dest_ok n sz mode threshold vec self aid tid old sys' (idx(i := m)) i" "unat (idx i) < unat m"
    "\<And>j. j \<noteq> i \<Longrightarrow> acc_packs sys' self j = acc_packs sys self j"
proof -
  let ?lo = "part_lo n sz i" and ?hi = "part_hi n sz i" and ?p = "unat (idx i)"
  have lt: "?p < ?hi" "i \<noteq> self" using d(1) send_size_unat [OF po i] by (simp_all add: sending_def word_less_nat_alt)
  obtain k data where kd: "AcAccumulatePrepareBuffer mode threshold vec (idx i) (send_size n sz i) = (k, data)"
    by (cases "AcAccumulatePrepareBuffer mode threshold vec (idx i) (send_size n sz i)")
  have hi: "of_nat ?hi = send_size n sz i" "?hi \<le> length vec" "?hi < 2147483648"
    using send_size_unat [OF po i] part_bounds [OF po i] vec by (simp_all flip: send_size_unat [OF po i])
  have kd': "AcAccumulatePrepareBuffer mode threshold vec (of_nat ?p) (of_nat ?hi) = (k, data)" using kd hi(1) by simp
  note pp = prepare_progress [OF kd' lt(1) hi(2,3)]
  have m: "unat (idx i + k) = ?p + unat k" using pp hi(3) unat_add_of_nat [of "idx i" "unat k"] by simp
  let ?last = "idx i + k = send_size n sz i"
  have last: "?last \<longleftrightarrow> ?p + unat k = ?hi" "idx i + k < send_size n sz i \<longleftrightarrow> \<not> ?last"
    using m send_size_unat [OF po i] pp by (auto simp: word_unat_eq_iff word_less_nat_alt)
  let ?sys = "ac_send sys self i (AcDataAccumulate aid (if ?last then tid else 0) (idx i) data)"
  have step: "send_one n sz mode threshold vec self aid tid writable i (sys, idx, dn) =
      (?sys, idx(i := idx i + k), if idx i + k < send_size n sz i then dn else dn + 1)"
    using d lt kd last(2) by (simp add: send_one_def sending_def Let_def)
  obtain sent where sent: "acc_packs sys self i = old @ map (acc_pack aid) sent" "?lo \<le> ?p"
      "\<And>ms. ac_stream mode threshold vec tid ?p ?hi ms \<Longrightarrow> ac_stream mode threshold vec tid ?lo ?hi (sent @ ms)"
    using d(1,3) by (auto simp: dest_ok_def sending_def)
  have packs: "acc_packs ?sys self i = old @ map (acc_pack aid) (sent @ [(if ?last then tid else 0, idx i, data)])"
    using sent(1) by simp
  have "dest_ok n sz mode threshold vec self aid tid old ?sys (idx(i := idx i + k)) i"
  proof (cases ?last)
    case True
    then have "ac_stream mode threshold vec tid ?lo ?hi (sent @ [(tid, of_nat ?p, data)])"
      using lt kd' last(1) by (intro sent(3) ac_stream_last) auto
    moreover have "max ?lo ?hi = ?hi" using sent(2) lt(1) by simp
    ultimately show ?thesis
      unfolding dest_ok_def using True packs last(2) by (intro exI [of _ "sent @ [(tid, idx i, data)]"]) simp
  next
    case False
    have "ac_stream mode threshold vec tid ?lo ?hi ((sent @ [(0, idx i, data)]) @ ms)"
      if "ac_stream mode threshold vec tid (?p + unat k) ?hi ms" for ms
      using ac_stream_more [OF lt(1) kd' _ that] False last(1) pp(2) sent(3) [of "(0, idx i, data) # ms"] by simp
    then show ?thesis
      unfolding dest_ok_def using False packs last(2) m sent(2)
      by (intro exI [of _ "sent @ [(0, idx i, data)]"]) simp
  qed
  then show thesis by (intro that [OF step]) (use m pp in simp_all)
qed

fun send_inv :: "nat \<Rightarrow> u32 \<Rightarrow> AccumulatorMode \<Rightarrow> u32 \<Rightarrow> u32 list \<Rightarrow> nat \<Rightarrow> ObjectKey \<Rightarrow> u32 \<Rightarrow> (nat \<Rightarrow> RcDataPack list) \<Rightarrow> nat
    \<Rightarrow> ('b, 's, 'o) AcSys \<times> (nat \<Rightarrow> u32) \<times> nat \<Rightarrow> bool" where
  "send_inv n sz mode threshold vec self aid tid old c (sys, idx, dn) \<longleftrightarrow>
     (\<forall>i. i < n \<longrightarrow> i \<noteq> self \<longrightarrow> dest_ok n sz mode threshold vec self aid tid (old i) sys idx i) \<and>
     dn + card (sending n sz self idx) = c"

lemma dest_ok_cong:
  assumes "acc_packs sys' self i = acc_packs sys self i" "idx' i = idx i"
  shows "dest_ok n sz mode threshold vec self aid tid old sys' idx' i = dest_ok n sz mode threshold vec self aid tid old sys idx i"
  using assms by (simp add: dest_ok_def)

lemma send_one_skip:
  assumes "\<not> (i \<in> sending n sz self idx \<and> i \<in> set writable)" "i < n"
  shows "send_one n sz mode threshold vec self aid tid writable i (sys, idx, dn) = (sys, idx, dn)"
  using assms by (auto simp: send_one_def sending_def)

lemma sending_upd:
  assumes "i \<in> sending n sz self idx"
  shows "sending n sz self (idx(i := m)) = (if m < send_size n sz i then sending n sz self idx else sending n sz self idx - {i})"
  using assms by (auto simp: sending_def)

lemma send_one_inv:
  assumes po: "part_ok n sz" and vec: "unat sz = length vec" and i: "i < n"
    and inv: "send_inv n sz mode threshold vec self aid tid old c (sys, idx, dn)"
  obtains sys' idx' dn' where "send_one n sz mode threshold vec self aid tid writable i (sys, idx, dn) = (sys', idx', dn')"
    "send_inv n sz mode threshold vec self aid tid old c (sys', idx', dn')" "\<And>j. unat (idx j) \<le> unat (idx' j)"
    "\<And>j. j \<noteq> i \<Longrightarrow> idx' j = idx j" "i \<in> sending n sz self idx \<Longrightarrow> i \<in> set writable \<Longrightarrow> unat (idx i) < unat (idx' i)"
proof (cases "i \<in> sending n sz self idx \<and> i \<in> set writable")
  case False
  then show thesis using that [OF send_one_skip [OF False i] inv] by auto
next
  case True
  then have se: "i \<in> sending n sz self idx" "i \<in> set writable" "i \<noteq> self" by (simp_all add: sending_def)
  have d: "dest_ok n sz mode threshold vec self aid tid (old i) sys idx i" using inv i se by simp
  obtain sys' m where m: "send_one n sz mode threshold vec self aid tid writable i (sys, idx, dn) =
      (sys', idx(i := m), if m < send_size n sz i then dn else dn + 1)"
    "dest_ok n sz mode threshold vec self aid tid (old i) sys' (idx(i := m)) i" "unat (idx i) < unat m"
    "\<And>j. j \<noteq> i \<Longrightarrow> acc_packs sys' self j = acc_packs sys self j"
    by (rule send_one_spec [OF po vec i se(1,2) d, of dn]) blast
  have "dest_ok n sz mode threshold vec self aid tid (old j) sys' (idx(i := m)) j" if "j < n" "j \<noteq> self" for j
    using m(2,4) inv that dest_ok_cong [of sys' self j sys "idx(i := m)" idx] by (cases "j = i") auto
  moreover have "(if m < send_size n sz i then dn else dn + 1) + card (sending n sz self (idx(i := m))) = c"
    using inv se(1) card_Suc_Diff1 [OF finite_sending se(1)] by (auto simp: sending_upd)
  ultimately have "send_inv n sz mode threshold vec self aid tid old c (sys', idx(i := m), if m < send_size n sz i then dn else dn + 1)"
    by simp
  then show thesis using m(1,3) by (intro that [OF m(1)]) auto
qed

lemma send_round_inv:
  assumes po: "part_ok n sz" and vec: "unat sz = length vec"
    and inv: "send_inv n sz mode threshold vec self aid tid old c (sys, idx, dn)" and js: "distinct js" "set js \<subseteq> {0..<n}"
  shows "\<exists>sys' idx' dn'. send_round n sz mode threshold vec self aid tid writable js (sys, idx, dn) = (sys', idx', dn') \<and>
    send_inv n sz mode threshold vec self aid tid old c (sys', idx', dn') \<and> (\<forall>j. unat (idx j) \<le> unat (idx' j)) \<and>
    (\<forall>j. j \<notin> set js \<longrightarrow> idx' j = idx j) \<and>
    (\<forall>j \<in> set js. j \<in> sending n sz self idx \<longrightarrow> j \<in> set writable \<longrightarrow> unat (idx j) < unat (idx' j))"
  using inv js
proof (induction js arbitrary: sys idx dn)
  case Nil
  then show ?case by simp
next
  case (Cons i js)
  have i: "i < n" using Cons.prems by simp
  obtain s1 i1 d1 where o: "send_one n sz mode threshold vec self aid tid writable i (sys, idx, dn) = (s1, i1, d1)"
    "send_inv n sz mode threshold vec self aid tid old c (s1, i1, d1)" "\<And>j. unat (idx j) \<le> unat (i1 j)"
    "\<And>j. j \<noteq> i \<Longrightarrow> i1 j = idx j" "i \<in> sending n sz self idx \<Longrightarrow> i \<in> set writable \<Longrightarrow> unat (idx i) < unat (i1 i)"
    by (rule send_one_inv [OF po vec i Cons.prems(1), of writable]) blast
  obtain s2 i2 d2 where r: "send_round n sz mode threshold vec self aid tid writable js (s1, i1, d1) = (s2, i2, d2)"
    "send_inv n sz mode threshold vec self aid tid old c (s2, i2, d2)" "\<forall>j. unat (i1 j) \<le> unat (i2 j)"
    "\<forall>j. j \<notin> set js \<longrightarrow> i2 j = i1 j"
    "\<forall>j \<in> set js. j \<in> sending n sz self i1 \<longrightarrow> j \<in> set writable \<longrightarrow> unat (i1 j) < unat (i2 j)"
    using Cons.IH [OF o(2)] Cons.prems by auto
  have "unat (idx j) < unat (i2 j)" if "j \<in> set (i # js)" "j \<in> sending n sz self idx" "j \<in> set writable" for j
  proof (cases "j = i")
    case True
    then show ?thesis using o(5) that r(3) less_le_trans by blast
  next
    case False
    then have "j \<in> sending n sz self i1" using that(2) o(4) [of j] by (simp add: sending_def)
    then show ?thesis using r(5) o(4) [OF False] that False by auto
  qed
  moreover have "\<forall>j. unat (idx j) \<le> unat (i2 j)" using o(3) r(3) le_trans by blast
  moreover have "\<forall>j. j \<notin> set (i # js) \<longrightarrow> i2 j = idx j" using o(4) r(4) by simp
  ultimately show ?case using r(1,2) unfolding send_round_Cons o(1) by blast
qed

lemma send_inv_stop:
  assumes "send_inv n sz mode threshold vec self aid tid old n (sys, idx, dn)" "\<not> dn < n"
  shows "dn = n" "sending n sz self idx = {}"
proof -
  have "dn + card (sending n sz self idx) = n" using assms(1) by simp
  then have *: "card (sending n sz self idx) = 0" "dn = n" using assms(2) by linarith+
  show "dn = n" by (rule *(2))
  show "sending n sz self idx = {}" using *(1) by (simp only: card_0_eq [OF finite_sending])
qed

lemma send_loop_complete:
  assumes po: "part_ok n sz" and vec: "unat sz = length vec"
    and inv: "send_inv n sz mode threshold vec self aid tid old n (sys, idx, dn)"
    and res: "send_loop n sz mode threshold vec self aid tid ws (sys, idx, dn) = Some sys'"
  shows "\<exists>idx'. send_inv n sz mode threshold vec self aid tid old n (sys', idx', n) \<and> sending n sz self idx' = {}"
  using inv res
proof (induction ws arbitrary: sys idx dn)
  case Nil
  then have "\<not> dn < n" "sys' = sys" by (auto split: if_splits)
  then show ?case using send_inv_stop [OF Nil(1)] Nil(1) by blast
next
  case (Cons w ws)
  show ?case
  proof (cases "dn < n")
    case True
    obtain s1 i1 d1 where r: "send_round n sz mode threshold vec self aid tid w [0..<n] (sys, idx, dn) = (s1, i1, d1)"
      "send_inv n sz mode threshold vec self aid tid old n (s1, i1, d1)"
      using send_round_inv [OF po vec Cons.prems(1), of "[0..<n]" w] by auto
    then show ?thesis using Cons.IH [OF r(2)] Cons.prems True by simp
  next
    case False
    then have "sys' = sys" using Cons.prems(2) by simp
    then show ?thesis using send_inv_stop [OF Cons.prems(1) False] Cons.prems(1) by blast
  qed
qed

text \<open>With every socket writable, a loop of as many rounds as a part has words ends.\<close>

lemma send_loop_ends:
  assumes po: "part_ok n sz" and vec: "unat sz = length vec"
    and inv: "send_inv n sz mode threshold vec self aid tid old n (sys, idx, dn)"
    and "\<And>i. i \<in> sending n sz self idx \<Longrightarrow> part_hi n sz i \<le> unat (idx i) + k"
  shows "send_loop n sz mode threshold vec self aid tid (replicate k [0..<n]) (sys, idx, dn) \<noteq> None"
  using inv assms(4)
proof (induction k arbitrary: sys idx dn)
  case 0
  have "sending n sz self idx = {}"
    using 0(2) send_size_unat [OF po] by (force simp: sending_def word_less_nat_alt)
  then show ?case using 0(1) by simp
next
  case (Suc k)
  show ?case
  proof (cases "dn < n")
    case True
    obtain s1 i1 d1 where r: "send_round n sz mode threshold vec self aid tid [0..<n] [0..<n] (sys, idx, dn) = (s1, i1, d1)"
      "send_inv n sz mode threshold vec self aid tid old n (s1, i1, d1)" "\<forall>j. unat (idx j) \<le> unat (i1 j)"
      "\<forall>j \<in> set [0..<n]. j \<in> sending n sz self idx \<longrightarrow> j \<in> set [0..<n] \<longrightarrow> unat (idx j) < unat (i1 j)"
      using send_round_inv [OF po vec Suc.prems(1), of "[0..<n]" "[0..<n]"] by auto
    have "part_hi n sz i \<le> unat (i1 i) + k" if i: "i \<in> sending n sz self i1" for i
    proof -
      have "i \<in> sending n sz self idx" using i r(3) by (auto simp: sending_def word_less_nat_alt intro: le_less_trans)
      moreover have "i < n" using i by (simp add: sending_def)
      ultimately have "unat (idx i) < unat (i1 i)" "part_hi n sz i \<le> unat (idx i) + Suc k" using r(4) Suc.prems(2) by auto
      then show ?thesis by simp
    qed
    then show ?thesis using Suc.IH [OF r(2)] True r(1) by simp
  qed simp
qed

section \<open>Starting\<close>

lemma send_empty_spec:
  assumes "distinct js" "send_empty n sz self aid tid js (sys, dn) = (sys', dn')"
  shows "dn' = dn + card {i \<in> set js. send_size n sz i \<le> send_idx n sz i} \<and>
    (\<forall>i. acc_packs sys' self i = acc_packs sys self i @
       (if i \<in> set js \<and> i \<noteq> self \<and> send_size n sz i \<le> send_idx n sz i then [AcDataAccumulate aid tid 0 (TypeDense [])] else []))"
  using assms
proof (induction js arbitrary: sys dn)
  case (Cons i js)
  have "{j \<in> set (i # js). send_size n sz j \<le> send_idx n sz j} =
      (if send_size n sz i \<le> send_idx n sz i then insert i {j \<in> set js. send_size n sz j \<le> send_idx n sz j}
       else {j \<in> set js. send_size n sz j \<le> send_idx n sz j})" by auto
  then have card: "card {j \<in> set (i # js). send_size n sz j \<le> send_idx n sz j} =
      (if send_size n sz i \<le> send_idx n sz i then 1 else 0) + card {j \<in> set js. send_size n sz j \<le> send_idx n sz j}"
    using Cons.prems(1) by simp
  let ?sys = "if send_size n sz i \<le> send_idx n sz i \<and> i \<noteq> self then ac_send sys self i (AcDataAccumulate aid tid 0 (TypeDense [])) else sys"
  let ?dn = "if send_size n sz i \<le> send_idx n sz i then dn + 1 else dn"
  have "send_empty n sz self aid tid js (?sys, ?dn) = (sys', dn')" using Cons.prems(2) by (auto split: if_splits)
  then show ?case unfolding card using Cons.prems(1) Cons.IH [of ?sys ?dn] by auto
qed simp

lemma start_inv:
  assumes po: "part_ok n sz" and vec: "unat sz = length vec" and self: "self < n"
    and e: "send_empty n sz self aid tid [0..<n] (sys, 1) = (sys1, dn)"
    and net: "\<And>i. acc_packs sys2 self i = acc_packs sys1 self i"
    and full: "part_lo n sz self < part_hi n sz self"
  shows "send_inv n sz mode threshold vec self aid tid (acc_packs sys self) n
    (sys2, (send_idx n sz)(self := send_size n sz self), dn)"
proof -
  let ?idx = "(send_idx n sz)(self := send_size n sz self)"
  have sp: "dn = 1 + card {i \<in> set [0..<n]. send_size n sz i \<le> send_idx n sz i}"
    "\<And>i. acc_packs sys1 self i = acc_packs sys self i @
       (if i \<in> set [0..<n] \<and> i \<noteq> self \<and> send_size n sz i \<le> send_idx n sz i then [AcDataAccumulate aid tid 0 (TypeDense [])] else [])"
    using send_empty_spec [OF distinct_upt e] by auto
  have le: "send_size n sz i \<le> send_idx n sz i \<longleftrightarrow> part_hi n sz i \<le> part_lo n sz i" if "i < n" for i
    using that by (simp add: word_le_nat_alt send_size_unat [OF po] send_idx_unat [OF po])
  have "dest_ok n sz mode threshold vec self aid tid (acc_packs sys self i) sys2 ?idx i" if i: "i < n" "i \<noteq> self" for i
  proof (cases "send_size n sz i \<le> send_idx n sz i")
    case True
    have "max (part_lo n sz i) (part_hi n sz i) = part_lo n sz i" using True le [OF i(1)] by simp
    then have "ac_stream mode threshold vec tid (part_lo n sz i) (max (part_lo n sz i) (part_hi n sz i)) [(tid, 0, TypeDense [])]"
      using ac_stream_empty by simp
    then show ?thesis unfolding dest_ok_def using i True net sp(2) by (intro exI [of _ "[(tid, 0, TypeDense [])]"]) auto
  next
    case False
    then show ?thesis unfolding dest_ok_def using i net sp(2) by (intro exI [of _ "[]"]) (simp add: send_idx_unat [OF po] not_le)
  qed
  moreover have "dn + card (sending n sz self ?idx) = n"
  proof -
    let ?E = "{i. i < n \<and> send_size n sz i \<le> send_idx n sz i}"
    have "\<not> send_size n sz self \<le> send_idx n sz self" using full le [OF self] by simp
    then have u: "{0..<n} = insert self (?E \<union> sending n sz self ?idx)" "self \<notin> ?E \<union> sending n sz self ?idx"
      using self by (auto simp: sending_def)
    have "card (?E \<union> sending n sz self ?idx) = card ?E + card (sending n sz self ?idx)"
      by (rule card_Un_disjoint) (auto simp: sending_def)
    moreover have "n = Suc (card (?E \<union> sending n sz self ?idx))"
    proof -
      have "card {0..<n} = Suc (card (?E \<union> sending n sz self ?idx))"
        unfolding u(1) by (rule card_insert_disjoint) (simp_all only: u(2) finite_Un finite_sending, simp_all)
      then show ?thesis by simp
    qed
    moreover have "{i \<in> set [0..<n]. send_size n sz i \<le> send_idx n sz i} = ?E" by auto
    ultimately show ?thesis using sp(1) by simp
  qed
  ultimately show ?thesis by simp
qed
end
