(* ===== verification/Dogee_MapPairs.thy ===== *)
theory Dogee_MapPairs
  imports Dogee_Serializers Dogee_AccumulatorSend
begin

text \<open>
  Lemmas on the map step: a packet is decoded into the pairs it was made from, the sender hands every pair out in
  exactly one packet, and its loop ends when every pair fits in a packet. They are proved for any
  serialisers of the keys and values that satisfy the contract, in the locale \<open>pair_serializers\<close>.
\<close>

section \<open>Pairs and packets\<close>

definition pair_reads :: "'k InputSerializer \<Rightarrow> 'v InputSerializer \<Rightarrow> u32 list \<Rightarrow> 'k \<times> 'v \<Rightarrow> bool" where
  "pair_reads ks vs ws kv \<longleftrightarrow> (\<exists>w1 w2. ws = w1 @ w2 \<and> w2 \<noteq> [] \<and> reads_as ks w1 (fst kv) \<and> reads_as vs w2 (snd kv))"

definition pair_words :: "'k InputSerializer \<Rightarrow> 'v InputSerializer \<Rightarrow> 'k \<times> 'v \<Rightarrow> nat" where
  "pair_words ks vs kv = unat (GetSize ks (fst kv)) + unat (GetSize vs (snd kv))"

definition pair_ok :: "'k InputSerializer \<Rightarrow> ('k \<Rightarrow> bool) \<Rightarrow> 'v InputSerializer \<Rightarrow> ('v \<Rightarrow> bool) \<Rightarrow> 'k \<times> 'v \<Rightarrow> bool" where
  "pair_ok ks kvalid vs vvalid kv \<longleftrightarrow> kvalid (fst kv) \<and> vvalid (snd kv) \<and> pair_words ks vs kv < 2147483648"

definition map_pairs :: "('k \<Rightarrow> 'v \<Rightarrow> 'm \<Rightarrow> 'm) \<Rightarrow> ('k \<times> 'v) list \<Rightarrow> 'm \<Rightarrow> 'm" where
  "map_pairs domap = fold (\<lambda>(k, v). domap k v)"

lemma map_pairs_simps [simp]:
  "map_pairs domap [] m = m"
  "map_pairs domap (kv # kvs) m = map_pairs domap kvs (domap (fst kv) (snd kv) m)"
  "map_pairs domap (xs @ ys) m = map_pairs domap ys (map_pairs domap xs m)"
  by (simp_all add: map_pairs_def case_prod_beta)

lemma DecodeKeyValue_reads:
  assumes "pair_reads ks vs ws kv" "length ws \<le> unat len"
  shows "DecodeKeyValue ks vs (ws @ rest) len = Ret (of_nat (length ws), fst kv, snd kv)"
proof -
  obtain w1 w2 where w: "ws = w1 @ w2" "w2 \<noteq> []" "reads_as ks w1 (fst kv)" "reads_as vs w2 (snd kv)"
    using assms(1) unfolding pair_reads_def by blast
  have l: "length w1 + length w2 \<le> unat len" using assms(2) w(1) by simp
  then have b: "length w1 + length w2 < 4294967296" using unat_u32_less [of len] by linarith
  have u: "unat (of_nat (length w1) :: u32) = length w1" "unat (of_nat (length w1) + of_nat (length w2) :: u32) = length w1 + length w2"
    using b unat_of_nat_small [of "length w1 + length w2", where 'a = 32] by (simp_all add: unat_of_nat_small)
  have "length w1 < unat len" using w(2) l by (cases w2) auto
  then have "of_nat (length w1) < len" "of_nat (length w1) + of_nat (length w2) \<le> len"
    using l u by (simp_all add: word_less_nat_alt word_le_nat_alt)
  then show ?thesis using w u by (simp add: DecodeKeyValue_def reads_as_def)
qed

lemma map_loop_reads:
  assumes "list_all2 (pair_reads ks vs) wss kvs" "length (concat wss) < 4294967296" "length (concat wss) \<le> fuel"
  shows "map_loop fuel ks vs domap (concat wss) (of_nat (length (concat wss))) m = Some (Ret (map_pairs domap kvs m))"
  using assms
proof (induction wss kvs arbitrary: fuel m rule: list_all2_induct)
  case Nil
  then show ?case by (simp add: map_loop.simps)
next
  case (Cons ws wss kv kvs)
  have ne: "ws \<noteq> []" using Cons.hyps(1) by (auto simp: pair_reads_def)
  then obtain fuel' where fuel: "fuel = Suc fuel'" "length (concat wss) \<le> fuel'"
    using Cons.prems(2) by (cases fuel; cases ws) auto
  let ?len = "of_nat (length (concat (ws # wss))) :: u32"
  have len: "unat ?len = length (concat (ws # wss))" by (rule unat_of_nat_small) (use Cons.prems(1) in simp)
  have "0 < unat ?len" using ne by (simp only: len) simp
  then have nz: "?len \<noteq> 0" by auto
  have dec: "DecodeKeyValue ks vs (ws @ concat wss) ?len = Ret (of_nat (length ws), fst kv, snd kv)"
    by (rule DecodeKeyValue_reads [OF Cons.hyps(1)]) (simp only: len, simp)
  have u: "unat (of_nat (length ws) :: u32) = length ws" by (rule unat_of_nat_small) (use Cons.prems(1) in simp)
  have sub: "?len - of_nat (length ws) = of_nat (length (concat wss))" by simp
  have "map_loop fuel ks vs domap (concat (ws # wss)) ?len m =
      map_loop fuel' ks vs domap (drop (length ws) (ws @ concat wss)) (?len - of_nat (length ws)) (domap (fst kv) (snd kv) m)"
    using nz dec by (subst map_loop.simps) (simp add: fuel(1) u split_beta)
  then show ?case using Cons.IH [OF _ fuel(2), of "domap (fst kv) (snd kv) m"] Cons.prems(1) unfolding sub by simp
qed

definition packet_reads :: "'k InputSerializer \<Rightarrow> 'v InputSerializer \<Rightarrow> u32 list \<Rightarrow> ('k \<times> 'v) list \<Rightarrow> bool" where
  "packet_reads ks vs ws kvs \<longleftrightarrow> length ws \<le> 4096 \<and> (\<exists>wss. list_all2 (pair_reads ks vs) wss kvs \<and> ws = concat wss)"

lemma map_packet_reads:
  assumes "packet_reads ks vs ws kvs"
  shows "map_packet ks vs domap ws m = Ret (map_pairs domap kvs m)"
proof -
  obtain wss where wss: "list_all2 (pair_reads ks vs) wss kvs" "ws = concat wss" "length (concat wss) < 4294967296"
    using assms unfolding packet_reads_def by auto
  from map_loop_reads [OF wss(1,3) order.refl, of domap m] show ?thesis by (simp add: map_packet_def wss(2))
qed

locale pair_serializers = keys: serializer ks kvalid + vals: serializer vs vvalid
  for ks :: "'k InputSerializer" and kvalid and vs :: "'v InputSerializer" and vvalid
begin

lemma pair_words_pos: "pair_ok ks kvalid vs vvalid kv \<Longrightarrow> 0 < pair_words ks vs kv"
  using keys.size_pos [of "fst kv"] by (auto simp: pair_ok_def pair_words_def unat_gt_0)

text \<open>One pair of the loop of \<^verbatim>\<open>PrepareBuf\<close>.\<close>

lemma serialize_pair:
  assumes ok: "kvalid key" "vvalid value" and room: "unat idx + pair_words ks vs (key, value) \<le> length buf" "length buf < 4294967296"
    and b1: "Serialize ks key (drop (unat idx) buf) = (b1, n1)"
    and b2: "Serialize vs value (drop (unat (idx + n1)) (take (unat idx) buf @ b1)) = (b2, n2)"
  shows "\<exists>ws. pair_reads ks vs ws (key, value) \<and> length ws = pair_words ks vs (key, value) \<and>
    take (unat (idx + n1)) (take (unat idx) buf @ b1) @ b2 = take (unat idx) buf @ ws @ drop (unat idx + length ws) buf \<and>
    unat (idx + n1 + n2) = unat idx + length ws"
proof -
  let ?i = "unat idx"
  have pw: "?i + (unat (GetSize ks key) + unat (GetSize vs value)) \<le> length buf" using room(1) by (simp add: pair_words_def)
  have "unat (GetSize ks key) \<le> length (drop ?i buf)" using pw by simp
  from keys.serialize [OF ok(1) this] obtain w1 where w1: "length w1 = unat (GetSize ks key)"
      "b1 = w1 @ drop (length w1) (drop ?i buf)" "n1 = GetSize ks key" "reads_as ks w1 key"
    using b1 by auto
  have i1: "unat (idx + n1) = ?i + length w1"
    using pw room(2) w1(1,3) by (subst unat_add_of_nat [of idx "length w1", symmetric]) simp_all
  have lt: "length (take ?i buf) = ?i" using pw by simp
  have d1: "take (?i + length w1) (take ?i buf @ b1) = take ?i buf @ w1"
      "drop (?i + length w1) (take ?i buf @ b1) = drop (?i + length w1) buf"
    using lt w1(2) by (simp_all add: add.commute)
  have "unat (GetSize vs value) \<le> length (drop (?i + length w1) buf)" using pw w1(1) by simp
  from vals.serialize [OF ok(2) this] obtain w2 where w2: "length w2 = unat (GetSize vs value)"
      "b2 = w2 @ drop (length w2) (drop (?i + length w1) buf)" "n2 = GetSize vs value" "reads_as vs w2 value"
    using b2 unfolding i1 d1(2) by auto
  have "w2 \<noteq> []" using vals.size_pos [OF ok(2)] w2(1) by (metis list.size(3) unat_eq_zero)
  then have "pair_reads ks vs (w1 @ w2) (key, value)" using w1(4) w2(4) by (auto simp: pair_reads_def)
  moreover have "unat (idx + n1 + n2) = ?i + length (w1 @ w2)"
  proof -
    have "unat (idx + n1) + length w2 < 2 ^ LENGTH(32)" using pw room(2) w1(1) w2(1) i1 by simp
    from unat_add_of_nat [OF this] show ?thesis using i1 w2(1,3) by simp
  qed
  moreover have "take (unat (idx + n1)) (take ?i buf @ b1) @ b2 = take ?i buf @ (w1 @ w2) @ drop (?i + length (w1 @ w2)) buf"
    unfolding i1 d1(1) using w2(2) by (simp add: ac_simps)
  ultimately show ?thesis using w1(1) w2(1) by (intro exI [of _ "w1 @ w2"]) (simp add: pair_words_def)
qed

lemma pair_fits:
  assumes "pair_ok ks kvalid vs vvalid (key, value)" "unat idx \<le> 4096"
  shows "idx + (GetSize ks key + GetSize vs value) \<le> of_nat (BD_DATA_PROCESS_SIZE div 4) \<longleftrightarrow> unat idx + pair_words ks vs (key, value) \<le> 4096"
proof -
  have pw: "pair_words ks vs (key, value) = unat (GetSize ks key) + unat (GetSize vs value)" "pair_words ks vs (key, value) < 2147483648"
    using assms(1) by (simp_all add: pair_ok_def pair_words_def)
  have "GetSize ks key + GetSize vs value = of_nat (pair_words ks vs (key, value))" by (simp add: pw(1))
  moreover have "unat (idx + of_nat (pair_words ks vs (key, value))) = unat idx + pair_words ks vs (key, value)"
    by (rule unat_add_of_nat) (use assms(2) pw(2) in simp)
  ultimately show ?thesis by (simp add: word_le_nat_alt BD_DATA_PROCESS_SIZE_def)
qed

lemma prepare_loop_spec:
  assumes "list_all (pair_ok ks kvalid vs vvalid) items" "length buf = 4096" "unat idx \<le> 4096"
    and "prepare_loop ks vs share elements idx items buf = (idx', buf', rest)"
  shows "\<exists>taken wss. items = taken @ rest \<and> list_all2 (pair_reads ks vs) wss taken \<and> unat idx' = unat idx + length (concat wss) \<and>
    unat idx' \<le> 4096 \<and> length buf' = 4096 \<and> take (unat idx') buf' = take (unat idx) buf @ concat wss \<and>
    (idx = 0 \<and> items \<noteq> [] \<and> pair_words ks vs (hd items) \<le> 4096 \<longrightarrow> taken \<noteq> [])"
  using assms
proof (induction items arbitrary: elements idx buf)
  case Nil
  then show ?case by (intro exI [of _ "[]"]) simp
next
  case (Cons kv items)
  obtain key val where kv: "kv = (key, val)" by (cases kv)
  let ?C = "idx < of_nat (BD_DATA_PROCESS_SIZE div 4) \<and> idx + (GetSize ks key + GetSize vs val) \<le> of_nat (BD_DATA_PROCESS_SIZE div 4)"
  have ok: "pair_ok ks kvalid vs vvalid (key, val)" "list_all (pair_ok ks kvalid vs vvalid) items"
    using Cons.prems(1) kv by simp_all
  have lt: "idx < of_nat (BD_DATA_PROCESS_SIZE div 4) \<longleftrightarrow> unat idx < 4096" by (simp add: word_less_nat_alt BD_DATA_PROCESS_SIZE_def)
  show ?case
  proof (cases ?C)
    case False
    then have "idx' = idx" "buf' = buf" "rest = kv # items" using Cons.prems(4) kv by (auto split: if_splits)
    moreover have "\<not> (idx = 0 \<and> pair_words ks vs kv \<le> 4096)"
      using False pair_fits [OF ok(1) Cons.prems(3)] lt kv by auto
    ultimately show ?thesis using Cons.prems by (intro exI [of _ "[]"]) auto
  next
    case True
    then have fit: "unat idx + pair_words ks vs (key, val) \<le> 4096" using pair_fits [OF ok(1) Cons.prems(3)] by simp
    obtain b1 n1 where b1: "Serialize ks key (drop (unat idx) buf) = (b1, n1)" by fastforce
    obtain b2 n2 where b2: "Serialize vs val (drop (unat (idx + n1)) (take (unat idx) buf @ b1)) = (b2, n2)" by fastforce
    define buf2 idx2 where bi: "buf2 = take (unat (idx + n1)) (take (unat idx) buf @ b1) @ b2" "idx2 = idx + n1 + n2"
    have kvok: "kvalid key" "vvalid val" using ok(1) by (simp_all add: pair_ok_def)
    obtain ws where ws: "pair_reads ks vs ws (key, val)" "length ws = pair_words ks vs (key, val)"
        "buf2 = take (unat idx) buf @ ws @ drop (unat idx + length ws) buf" "unat idx2 = unat idx + length ws"
      using serialize_pair [OF kvok _ _ b1 b2] fit Cons.prems(2) unfolding bi by auto
    have len2: "length buf2 = 4096" "unat idx2 \<le> 4096" using ws fit Cons.prems(2) by simp_all
    have tk2: "take (unat idx2) buf2 = take (unat idx) buf @ ws" using ws(3,4) Cons.prems(2,3) by simp
    have step: "prepare_loop ks vs share elements idx (kv # items) buf =
        (if elements + 1 \<ge> share + 1 then (idx2, buf2, items) else prepare_loop ks vs share (elements + 1) idx2 items buf2)"
      using True kv b1 b2 by (simp add: Let_def bi)
    show ?thesis
    proof (cases "elements + 1 \<ge> share + 1")
      case True
      then have "idx' = idx2" "buf' = buf2" "rest = items" using Cons.prems(4) step by simp_all
      then show ?thesis using ws len2 tk2 kv by (intro exI [of _ "[kv]"] exI [of _ "[ws]"]) simp
    next
      case False
      then have "prepare_loop ks vs share (elements + 1) idx2 items buf2 = (idx', buf', rest)" using Cons.prems(4) step by simp
      from Cons.IH [OF ok(2) len2 this] obtain taken wss where t: "items = taken @ rest" "list_all2 (pair_reads ks vs) wss taken"
          "unat idx' = unat idx2 + length (concat wss)" "unat idx' \<le> 4096" "length buf' = 4096"
          "take (unat idx') buf' = take (unat idx2) buf2 @ concat wss"
        by blast
      then show ?thesis using ws tk2 kv by (intro exI [of _ "kv # taken"] exI [of _ "ws # wss"]) simp
    qed
  qed
qed

lemma PrepareBuf_spec:
  assumes "list_all (pair_ok ks kvalid vs vvalid) items" "length buf = 4096" "PrepareBuf ks vs cnt n items buf = (ws, rest)"
  shows "\<exists>taken. items = taken @ rest \<and> packet_reads ks vs ws taken \<and>
    (items \<noteq> [] \<and> pair_words ks vs (hd items) \<le> 4096 \<longrightarrow> taken \<noteq> [])"
proof -
  obtain idx buf' where p: "prepare_loop ks vs (cnt div n) 0 0 items buf = (idx, buf', rest)" "ws = take (unat idx) buf'"
    using assms(3) by (auto simp: PrepareBuf_def split: prod.splits)
  have z: "unat (0 :: u32) \<le> 4096" by simp
  obtain taken wss where t: "items = taken @ rest" "list_all2 (pair_reads ks vs) wss taken" "unat idx = unat (0 :: u32) + length (concat wss)"
      "unat idx \<le> 4096" "take (unat idx) buf' = take (unat (0 :: u32)) buf @ concat wss"
      "items \<noteq> [] \<and> pair_words ks vs (hd items) \<le> 4096 \<longrightarrow> taken \<noteq> []"
    using prepare_loop_spec [OF assms(1,2) z p(1)] by blast
  have ws: "ws = concat wss" "length (concat wss) \<le> 4096" using p(2) t(3,4,5) by simp_all
  then have "packet_reads ks vs ws taken" using t(2) by (auto simp: packet_reads_def)
  then show ?thesis using t(1,6) by blast
qed

end

section \<open>Handing out the pairs\<close>

text \<open>The local result of a node.\<close>

definition my_buf :: "(ObjectKey \<Rightarrow> ('b, 'o) DBaseAccumulator) \<Rightarrow> nat \<Rightarrow> ObjectKey \<Rightarrow> nat \<Rightarrow> ('b, 's, 'o) AcSys \<Rightarrow> 'b option" where
  "my_buf accs n aid self sys = ds_buf (FindOrCreateDataSyncNode accs n sys self aid)"

lemma my_buf_simps [simp]:
  "my_buf accs n aid self (ac_send sys i j pack) = my_buf accs n aid self sys"
  "my_buf accs n aid self (set_data_node sys self aid node) = ds_buf node"
  "my_buf accs n aid self (sys\<lparr> as_mem := mem \<rparr>) = my_buf accs n aid self sys"
  "my_buf accs n aid self (sys\<lparr> as_woken := w \<rparr>) = my_buf accs n aid self sys"
  by (simp_all add: my_buf_def FindOrCreateDataSyncNode_def ac_send_def set_data_node_def)

lemma my_buf_done [simp]: "my_buf accs n aid self (ac_partial_done accs n sys self aid) = my_buf accs n aid self sys"
  by (auto simp: ac_partial_done_def AcAccumulatePartialDoneMsg_def Let_def) (simp_all add: my_buf_def)

lemma local_packet:
  assumes acc: "accs aid = DMapReduce ks vs domap users" and buf: "my_buf accs n aid self sys = Some m"
    and pk: "packet_reads ks vs ws kvs"
  shows "\<exists>sys'. AcAccumulateMsg cache accs n sys self self aid 0 0 (TypeDense ws) = Ret sys' \<and>
    my_buf accs n aid self sys' = Some (map_pairs domap kvs m) \<and> (\<forall>i j. acc_packs sys' i j = acc_packs sys i j)"
proof -
  let ?node = "FindOrCreateDataSyncNode accs n sys self aid"
  have b: "ds_buf ?node = Some m" using buf by (simp add: my_buf_def)
  have mp: "map_packet ks vs domap ws m = Ret (map_pairs domap kvs m)" by (rule map_packet_reads [OF pk])
  have "map_pairs domap kvs m = m" if "ws = []" using mp that by (simp add: map_packet_def map_loop.simps)
  then have "ac_apply (accs aid) ?node 0 (TypeDense ws) = Ret (?node\<lparr> ds_buf := Some (map_pairs domap kvs m) \<rparr>)"
    using b mp by (auto simp: ac_apply_def acc DMapReduce_def)
  then show ?thesis by (simp add: AcAccumulateMsg_def)
qed

lemma last_packet:
  assumes acc: "accs aid = DMapReduce ks vs domap users" and buf: "my_buf accs n aid self sys = Some m"
  shows "\<exists>sys'. AcAccumulateMsg cache accs n sys self self aid tid 0 (TypeDense []) = Ret sys' \<and>
    my_buf accs n aid self sys' = Some m \<and> (\<forall>i j. acc_packs sys' i j = acc_packs sys i j)"
proof -
  have "ds_buf (FindOrCreateDataSyncNode accs n sys self aid) = Some m" using buf by (simp add: my_buf_def)
  moreover have "ab_clear (accs aid) m = m" by (simp add: acc DMapReduce_def)
  ultimately show ?thesis by (simp add: AcAccumulateMsg_def ac_apply_def Let_def)
qed

text \<open>
  What has been handed out: a list of destinations with the pairs of the packet. Node \<open>self\<close> has mapped
  its own, the others have them on the connection.
\<close>

definition sent_to :: "nat \<Rightarrow> (nat \<times> 'a list) list \<Rightarrow> 'a list list" where
  "sent_to i log = map snd (filter (\<lambda>c. fst c = i) log)"

lemma sent_to_simps [simp]:
  "sent_to i [] = []" "sent_to i (log @ [(j, c)]) = (if i = j then sent_to i log @ [c] else sent_to i log)"
  by (simp_all add: sent_to_def)

definition data_packs :: "ObjectKey \<Rightarrow> u32 list list \<Rightarrow> RcDataPack list" where
  "data_packs aid wss = map (\<lambda>ws. AcDataAccumulate aid 0 0 (TypeDense ws)) wss"

definition handed :: "(ObjectKey \<Rightarrow> ('m, 'o) DBaseAccumulator) \<Rightarrow> 'k InputSerializer \<Rightarrow> 'v InputSerializer \<Rightarrow> ('k \<Rightarrow> 'v \<Rightarrow> 'm \<Rightarrow> 'm)
    \<Rightarrow> nat \<Rightarrow> nat \<Rightarrow> ObjectKey \<Rightarrow> (nat \<Rightarrow> RcDataPack list) \<Rightarrow> 'm \<Rightarrow> (nat \<times> ('k \<times> 'v) list) list \<Rightarrow> ('m, 's, 'o) AcSys \<Rightarrow> bool" where
  "handed accs ks vs domap n self aid old m log sys \<longleftrightarrow>
     (\<forall>c \<in> set log. fst c < n) \<and>
     my_buf accs n aid self sys = Some (map_pairs domap (concat (sent_to self log)) m) \<and>
     (\<forall>i. i \<noteq> self \<longrightarrow> (\<exists>wss. acc_packs sys self i = old i @ data_packs aid wss \<and> list_all2 (packet_reads ks vs) wss (sent_to i log)))"

lemma handed_send:
  assumes "handed accs ks vs domap n self aid old m log sys" "packet_reads ks vs ws kvs" "i < n" "i \<noteq> self"
  shows "handed accs ks vs domap n self aid old m (log @ [(i, kvs)]) (ac_send sys self i (AcDataAccumulate aid 0 0 (TypeDense ws)))"
proof -
  have "\<exists>wss. acc_packs (ac_send sys self i (AcDataAccumulate aid 0 0 (TypeDense ws))) self j = old j @ data_packs aid wss \<and>
      list_all2 (packet_reads ks vs) wss (sent_to j (log @ [(i, kvs)]))" if j: "j \<noteq> self" for j
  proof -
    obtain wss where w: "acc_packs sys self j = old j @ data_packs aid wss" "list_all2 (packet_reads ks vs) wss (sent_to j log)"
      using assms(1) j unfolding handed_def by blast
    show ?thesis
    proof (cases "j = i")
      case True
      with w assms(2) show ?thesis by (intro exI [of _ "wss @ [ws]"]) (simp add: data_packs_def list_all2_appendI)
    next
      case False
      with w show ?thesis by (intro exI [of _ wss]) simp
    qed
  qed
  then show ?thesis using assms unfolding handed_def by simp
qed

lemma handed_local:
  assumes "handed accs ks vs domap n self aid old m log sys" "packet_reads ks vs ws kvs" "self < n" "accs aid = DMapReduce ks vs domap users"
  shows "\<exists>sys'. AcAccumulateMsg cache accs n sys self self aid 0 0 (TypeDense ws) = Ret sys' \<and>
    handed accs ks vs domap n self aid old m (log @ [(self, kvs)]) sys'"
proof -
  have "my_buf accs n aid self sys = Some (map_pairs domap (concat (sent_to self log)) m)" using assms(1) by (simp add: handed_def)
  from local_packet [where cache = cache, where accs = accs, where aid = aid, OF assms(4) this assms(2)] obtain sys' where sys': "AcAccumulateMsg cache accs n sys self self aid 0 0 (TypeDense ws) = Ret sys'"
      "my_buf accs n aid self sys' = Some (map_pairs domap kvs (map_pairs domap (concat (sent_to self log)) m))"
      "\<forall>i j. acc_packs sys' i j = acc_packs sys i j"
    by blast
  then show ?thesis using assms(1,3) by (intro exI [of _ sys']) (simp add: handed_def)
qed

context pair_serializers
begin

abbreviation "small kv \<equiv> pair_ok ks kvalid vs vvalid kv \<and> pair_words ks vs kv \<le> 4096"

lemma PrepareBuf_small:
  assumes "list_all small items" "length fresh = 4096"
  obtains ws rest taken where "PrepareBuf ks vs cnt n items fresh = (ws, rest)" "items = taken @ rest" "packet_reads ks vs ws taken"
    "items \<noteq> [] \<longrightarrow> taken \<noteq> []" "list_all small rest"
proof -
  obtain ws rest where p: "PrepareBuf ks vs cnt n items fresh = (ws, rest)" by fastforce
  have "list_all (pair_ok ks kvalid vs vvalid) items" using assms(1) by (simp add: list_all_iff)
  from PrepareBuf_spec [OF this assms(2) p] obtain taken where t: "items = taken @ rest" "packet_reads ks vs ws taken"
      "items \<noteq> [] \<and> pair_words ks vs (hd items) \<le> 4096 \<longrightarrow> taken \<noteq> []"
    by blast
  have "items \<noteq> [] \<longrightarrow> taken \<noteq> []" using t(3) assms(1) by (cases items) auto
  moreover have "list_all small rest" using t(1) assms(1) by simp
  ultimately show ?thesis using that p t by blast
qed

lemma map_round_handed:
  assumes "handed accs ks vs domap n self aid old m log sys" "list_all small items" "length fresh = 4096" "\<forall>i \<in> set js. i < n"
    and "map_round ks vs cnt num self aid fresh writable js (sys, items, turns) = (sys', items', turns')"
  shows "\<exists>log'. items = concat (map snd log') @ items' \<and> handed accs ks vs domap n self aid old m (log @ log') sys' \<and>
    list_all small items' \<and> (items \<noteq> [] \<and> (\<exists>i \<in> set js. i \<noteq> self \<and> i \<in> set writable) \<longrightarrow> length items' < length items)"
  using assms
proof (induction js arbitrary: log sys items turns)
  case Nil
  then show ?case by (intro exI [of _ "[]"]) simp
next
  case (Cons i js)
  show ?case
  proof (cases "i \<noteq> self \<and> i \<in> set writable")
    case False
    then have "map_round ks vs cnt num self aid fresh writable js (sys, items, turns) = (sys', items', turns')"
      using Cons.prems(5) by (simp add: False)
    with Cons.IH [OF Cons.prems(1-3)] Cons.prems(4) False show ?thesis by auto
  next
    case True
    obtain ws rest taken where p: "PrepareBuf ks vs cnt num items fresh = (ws, rest)" "items = taken @ rest"
        "packet_reads ks vs ws taken" "items \<noteq> [] \<longrightarrow> taken \<noteq> []" "list_all small rest"
      using PrepareBuf_small [OF Cons.prems(2,3)] .
    let ?sys = "ac_send sys self i (AcDataAccumulate aid 0 0 (TypeDense ws))"
    have r: "map_round ks vs cnt num self aid fresh writable js (?sys, rest, turns + 1) = (sys', items', turns')"
      using Cons.prems(5) True p(1) by simp
    have h: "handed accs ks vs domap n self aid old m (log @ [(i, taken)]) ?sys"
      using handed_send [OF Cons.prems(1) p(3)] Cons.prems(4) True by simp
    have "\<forall>i \<in> set js. i < n" using Cons.prems(4) by simp
    from Cons.IH [OF h p(5) Cons.prems(3) this r] obtain log' where l: "rest = concat (map snd log') @ items'"
        "handed accs ks vs domap n self aid old m ((log @ [(i, taken)]) @ log') sys'" "list_all small items'"
      by blast
    have "length items' \<le> length rest" using l(1) by simp
    moreover have "length rest < length items" if "items \<noteq> []" using p(2,4) that by (cases taken) auto
    ultimately have "items \<noteq> [] \<longrightarrow> length items' < length items" by fastforce
    then show ?thesis using l p(2) by (intro exI [of _ "(i, taken) # log'"]) (simp; blast)
  qed
qed

lemma map_send_handed:
  assumes "handed accs ks vs domap n self aid old m log sys" "list_all small items" "length fresh = 4096" "self < n"
    and acc: "accs aid = DMapReduce ks vs domap users"
  shows "\<exists>r. map_send cache accs ks vs cnt n self aid fresh rounds (sys, items, turns) = Ret r \<and>
    (\<forall>sys'. r = Some sys' \<longrightarrow> (\<exists>log'. items = concat (map snd log') \<and> handed accs ks vs domap n self aid old m (log @ log') sys')) \<and>
    (list_all (\<lambda>w. \<forall>i < n. i \<in> set w) rounds \<and> length items \<le> length rounds \<longrightarrow> r \<noteq> None)"
  using assms(1-4)
proof (induction rounds arbitrary: log sys items turns)
  case Nil
  then show ?case by (intro exI [of _ "if items = [] then Some sys else None"]) (auto intro: exI [of _ "[]"])
next
  case (Cons w rounds)
  let ?P = "\<lambda>log sys items r rounds. (\<forall>sys'. r = Some sys' \<longrightarrow> (\<exists>log'. items = concat (map snd log') \<and>
      handed accs ks vs domap n self aid old m (log @ log') sys')) \<and>
    (list_all (\<lambda>w. \<forall>i < n. i \<in> set w) rounds \<and> length items \<le> length rounds \<longrightarrow> r \<noteq> None)"
  consider "items = []" | "items \<noteq> []" "turns mod n = self" | "items \<noteq> []" "turns mod n \<noteq> self" by blast
  then show ?case
  proof cases
    case 1
    then show ?thesis using Cons.prems by (intro exI [of _ "Some sys"]) (auto intro: exI [of _ "[]"])
  next
    case 2
    obtain ws rest taken where p: "PrepareBuf ks vs cnt n items fresh = (ws, rest)" "items = taken @ rest"
        "packet_reads ks vs ws taken" "items \<noteq> [] \<longrightarrow> taken \<noteq> []" "list_all small rest"
      using PrepareBuf_small [OF Cons.prems(2,3)] .
    obtain sys1 where s1: "AcAccumulateMsg cache accs n sys self self aid 0 0 (TypeDense ws) = Ret sys1"
        "handed accs ks vs domap n self aid old m (log @ [(self, taken)]) sys1"
      using handed_local [OF Cons.prems(1) p(3) Cons.prems(4), where users = users, OF acc] by blast
    from Cons.IH [OF s1(2) p(5) Cons.prems(3,4)] obtain r where
        r: "map_send cache accs ks vs cnt n self aid fresh rounds (sys1, rest, turns + 1) = Ret r" "?P (log @ [(self, taken)]) sys1 rest r rounds"
      by blast
    have len: "length rest < length items" using p(2,4) 2(1) by (cases taken) auto
    have "?P log sys items r (w # rounds)"
    proof (intro conjI allI impI)
      fix sys' assume "r = Some sys'"
      with r(2) obtain log' where "rest = concat (map snd log')" "handed accs ks vs domap n self aid old m ((log @ [(self, taken)]) @ log') sys'"
        by blast
      then show "\<exists>log'. items = concat (map snd log') \<and> handed accs ks vs domap n self aid old m (log @ log') sys'"
        using p(2) by (intro exI [of _ "(self, taken) # log'"]) simp
    qed (use r(2) len in auto)
    moreover have "map_send cache accs ks vs cnt n self aid fresh (w # rounds) (sys, items, turns) = Ret r"
      using 2 p(1) s1(1) r(1) by simp
    ultimately show ?thesis by blast
  next
    case 3
    obtain sys1 items1 turns1 where m: "map_round ks vs cnt n self aid fresh w [0..<n] (sys, items, turns) = (sys1, items1, turns1)"
      by (metis prod_cases3)
    have "\<forall>i \<in> set [0..<n]. i < n" by simp
    from map_round_handed [OF Cons.prems(1-3) this m] obtain log1 where l1: "items = concat (map snd log1) @ items1"
        "handed accs ks vs domap n self aid old m (log @ log1) sys1" "list_all small items1"
        "items \<noteq> [] \<and> (\<exists>i \<in> set [0..<n]. i \<noteq> self \<and> i \<in> set w) \<longrightarrow> length items1 < length items"
      by blast
    from Cons.IH [OF l1(2,3) Cons.prems(3,4)] obtain r where
        r: "map_send cache accs ks vs cnt n self aid fresh rounds (sys1, items1, turns1) = Ret r" "?P (log @ log1) sys1 items1 r rounds"
      by blast
    have prog: "length items1 < length items" if "\<forall>i < n. i \<in> set w"
    proof -
      have "turns mod n < n" using Cons.prems(4) by simp
      then have "\<exists>i \<in> set [0..<n]. i \<noteq> self \<and> i \<in> set w" using 3(2) that by auto
      then show ?thesis using l1(4) 3(1) by blast
    qed
    have "?P log sys items r (w # rounds)"
    proof (intro conjI allI impI)
      fix sys' assume "r = Some sys'"
      with r(2) obtain log' where "items1 = concat (map snd log')" "handed accs ks vs domap n self aid old m ((log @ log1) @ log') sys'"
        by blast
      then show "\<exists>log'. items = concat (map snd log') \<and> handed accs ks vs domap n self aid old m (log @ log') sys'"
        using l1(1) by (intro exI [of _ "log1 @ log'"]) simp
    qed (use r(2) prog in auto)
    moreover have "map_send cache accs ks vs cnt n self aid fresh (w # rounds) (sys, items, turns) = Ret r"
      using 3 m r(1) by simp
    ultimately show ?thesis by blast
  qed
qed

lemma map_finish_handed:
  assumes acc: "accs aid = DMapReduce ks vs domap users" and "my_buf accs n aid self sys = Some m" "distinct js"
  shows "\<exists>sys'. map_finish cache accs n self aid tid js sys = Ret sys' \<and> my_buf accs n aid self sys' = Some m \<and>
    (\<forall>i. i \<noteq> self \<longrightarrow> acc_packs sys' self i = acc_packs sys self i @ (if i \<in> set js then [AcDataAccumulate aid tid 0 (TypeDense [])] else []))"
  using assms(2,3)
proof (induction js arbitrary: sys)
  case (Cons i js)
  show ?case
  proof (cases "i = self")
    case True
    obtain sys1 where s1: "AcAccumulateMsg cache accs n sys self self aid tid 0 (TypeDense []) = Ret sys1"
        "my_buf accs n aid self sys1 = Some m" "\<forall>i j. acc_packs sys1 i j = acc_packs sys i j"
      using last_packet [where accs = accs and aid = aid, OF acc Cons.prems(1)] by blast
    from Cons.IH [OF s1(2)] Cons.prems(2) show ?thesis using s1 True by auto
  next
    case False
    let ?sys = "ac_send sys self i (AcDataAccumulate aid tid 0 (TypeDense []))"
    have "my_buf accs n aid self ?sys = Some m" using Cons.prems(1) by simp
    from Cons.IH [OF this] Cons.prems(2) obtain sys' where "map_finish cache accs n self aid tid js ?sys = Ret sys'"
        "my_buf accs n aid self sys' = Some m"
        "\<forall>j. j \<noteq> self \<longrightarrow> acc_packs sys' self j = acc_packs ?sys self j @ (if j \<in> set js then [AcDataAccumulate aid tid 0 (TypeDense [])] else [])"
      by auto
    then show ?thesis using False Cons.prems(2) by (intro exI [of _ sys']) auto
  qed
qed simp

theorem MapPairs_spec:
  assumes items: "list_all small in_map" "length fresh = 4096" "self < n"
    and acc: "accs aid = DMapReduce ks vs domap users" and m: "my_buf accs n aid self sys = Some m"
  shows "\<exists>r. MapPairs cache accs ks vs n sys self aid tid in_map fresh rounds = Ret r \<and>
    (\<forall>sys'. r = Some sys' \<longrightarrow> (\<exists>log. in_map = concat (map snd log) \<and> (\<forall>c \<in> set log. fst c < n) \<and>
       my_buf accs n aid self sys' = Some (map_pairs domap (concat (sent_to self log)) m) \<and>
       (\<forall>i < n. i \<noteq> self \<longrightarrow> (\<exists>wss. list_all2 (packet_reads ks vs) wss (sent_to i log) \<and>
          acc_packs sys' self i = acc_packs sys self i @ data_packs aid wss @ [AcDataAccumulate aid tid 0 (TypeDense [])])))) \<and>
    (list_all (\<lambda>w. \<forall>i < n. i \<in> set w) rounds \<and> length in_map \<le> length rounds \<longrightarrow> r \<noteq> None)"
proof -
  have h0: "handed accs ks vs domap n self aid (acc_packs sys self) m [] sys"
    using m by (auto simp: handed_def data_packs_def)
  from map_send_handed [OF h0 items, where users = users, OF acc, of cache "length in_map" rounds 0] obtain r where
    r: "map_send cache accs ks vs (length in_map) n self aid fresh rounds (sys, in_map, 0) = Ret r"
      "\<forall>sys'. r = Some sys' \<longrightarrow> (\<exists>log. in_map = concat (map snd log) \<and> handed accs ks vs domap n self aid (acc_packs sys self) m ([] @ log) sys')"
      "list_all (\<lambda>w. \<forall>i < n. i \<in> set w) rounds \<and> length in_map \<le> length rounds \<longrightarrow> r \<noteq> None"
    by blast
  show ?thesis
  proof (cases r)
    case None
    then show ?thesis using r by (auto simp: MapPairs_def)
  next
    case (Some sys1)
    with r(2) obtain log where log: "in_map = concat (map snd log)" "handed accs ks vs domap n self aid (acc_packs sys self) m log sys1"
      by auto
    have b1: "my_buf accs n aid self sys1 = Some (map_pairs domap (concat (sent_to self log)) m)" using log(2) by (simp add: handed_def)
    obtain sys2 where s2: "map_finish cache accs n self aid tid [0..<n] sys1 = Ret sys2"
        "my_buf accs n aid self sys2 = Some (map_pairs domap (concat (sent_to self log)) m)"
        "\<forall>i. i \<noteq> self \<longrightarrow> acc_packs sys2 self i = acc_packs sys1 self i @ (if i \<in> set [0..<n] then [AcDataAccumulate aid tid 0 (TypeDense [])] else [])"
      using map_finish_handed [where accs = accs and aid = aid, OF acc b1 distinct_upt] by blast
    have "\<exists>wss. list_all2 (packet_reads ks vs) wss (sent_to i log) \<and>
        acc_packs sys2 self i = acc_packs sys self i @ data_packs aid wss @ [AcDataAccumulate aid tid 0 (TypeDense [])]"
      if i: "i < n" "i \<noteq> self" for i
    proof -
      obtain wss where "acc_packs sys1 self i = acc_packs sys self i @ data_packs aid wss" "list_all2 (packet_reads ks vs) wss (sent_to i log)"
        using log(2) i(2) unfolding handed_def by blast
      then show ?thesis using s2(3) i by auto
    qed
    moreover have "MapPairs cache accs ks vs n sys self aid tid in_map fresh rounds = Ret (Some sys2)"
      using r(1) Some s2(1) by (simp add: MapPairs_def)
    moreover have "\<forall>c \<in> set log. fst c < n" using log(2) by (simp add: handed_def)
    ultimately show ?thesis using log(1) s2(2) by auto
  qed
qed

end
end
