(* ===== verification/Dogee_AccumulatorSum.thy ===== *)
theory Dogee_AccumulatorSum
  imports Dogee_AccumulatorParts
begin

text \<open>
  The owner of a part: whatever the order in which the packets of the users arrive, it writes the
  sum of their vectors once, and then reports that its part is done.
\<close>

section \<open>What an owner receives\<close>

type_synonym ac_msg = "u32 \<times> u32 \<times> AcDataType"

text \<open>The packets of one user: they add the words \<open>p..<e\<close>, and only the last one has a thread id.\<close>

inductive feeds :: "(u32 list, 'o) DBaseAccumulator \<Rightarrow> u32 list \<Rightarrow> u32 \<Rightarrow> u32 \<Rightarrow> nat \<Rightarrow> nat \<Rightarrow> ac_msg list \<Rightarrow> bool"
  for accu vec base sz where
  feeds_last: "adds accu vec base sz p e offset data \<Longrightarrow> tid \<noteq> 0 \<Longrightarrow> feeds accu vec base sz p e [(tid, offset, data)]"
| feeds_more: "adds accu vec base sz p q offset data \<Longrightarrow> feeds accu vec base sz q e ms \<Longrightarrow>
    feeds accu vec base sz p e ((0, offset, data) # ms)"

inductive_cases feeds_NilE: "feeds accu vec base sz p e []"
inductive_cases feeds_ConsE: "feeds accu vec base sz p e (m # ms)"

lemma prepare_adds:
  assumes "AcAccumulatePrepareBuffer mode 0 vec (of_nat p) (of_nat e) = (n, data)"
    and "p < e" "e \<le> length vec" "e < 2147483648" "unat base \<le> p" "e \<le> unat base + unat sz"
  shows "adds (DAddAccumulator fresh arr len users) vec base sz p (p + unat n) (of_nat p) data"
proof -
  have un: "unat (of_nat p :: u32) = p" "unat (of_nat e :: u32) = e" using assms by (simp_all add: unat_of_nat_small)
  note pp = prepare_progress [OF assms(1-4)]
  show ?thesis
  proof (cases data)
    case (TypeDense ws)
    then have "ws = take (unat n) (drop p vec)"
      using assms(1) un by (auto simp: AcAccumulatePrepareBuffer_def Let_def split: if_splits prod.splits)
    then show ?thesis using adds_dense [of base p "unat n" sz vec] pp assms TypeDense by simp
  next
    case (TypeSparse es)
    then obtain i where i: "sparse_loop (take (e - p) (drop p vec)) 0 p 0 = (i, es)" "n = of_nat (i - p)"
      using assms(1) un by (auto simp: AcAccumulatePrepareBuffer_def MakeSparseArray_def Let_def split: if_splits prod.splits)
    have "p \<le> i" "i \<le> e" using sparse_loop_progress(1,2) [OF i(1)] assms(2,3) by simp_all
    moreover have "unat n = i - p" unfolding i(2) using \<open>i \<le> e\<close> assms(4) by (intro unat_of_nat_small) simp
    ultimately show ?thesis using adds_sparse [OF i(1), of base sz] assms TypeSparse by simp
  qed
qed

lemma ac_stream_feeds:
  assumes "ac_stream mode 0 vec tid p e ms" "tid \<noteq> 0" "e \<le> length vec" "e < 2147483648"
    and "unat base \<le> p" "e \<le> unat base + unat sz"
  shows "feeds (DAddAccumulator fresh arr len users) vec base sz p e ms"
  using assms
proof (induction rule: ac_stream.induct)
  case (ac_stream_empty p)
  then show ?case by (intro feeds_last adds_empty)
next
  case (ac_stream_last p e n data)
  then have "adds (DAddAccumulator fresh arr len users) vec base sz p (p + unat n) (of_nat p) data"
    by (intro prepare_adds [of mode _ _ e]) simp_all
  then show ?case using ac_stream_last by (intro feeds_last) simp_all
next
  case (ac_stream_more p e n data ms)
  then have "adds (DAddAccumulator fresh arr len users) vec base sz p (p + unat n) (of_nat p) data"
    by (intro prepare_adds [of mode _ _ e]) simp_all
  then show ?case using ac_stream_more by (intro feeds_more) simp_all
qed

text \<open>Packets of several users in the order in which they are handled; user \<open>u\<close> is the source of its packets.\<close>

inductive interleave :: "nat set \<Rightarrow> (nat \<Rightarrow> ac_msg list) \<Rightarrow> (nat \<times> ac_msg) list \<Rightarrow> bool" for U where
  interleave_Nil: "(\<And>u. u \<in> U \<Longrightarrow> R u = []) \<Longrightarrow> interleave U R []"
| interleave_Cons: "u \<in> U \<Longrightarrow> R u = m # rest \<Longrightarrow> interleave U (R(u := rest)) ms \<Longrightarrow> interleave U R ((u, m) # ms)"

fun ac_feed :: "'s DSMCache \<Rightarrow> (ObjectKey \<Rightarrow> ('b, 'o) DBaseAccumulator) \<Rightarrow> nat \<Rightarrow> nat \<Rightarrow> ObjectKey \<Rightarrow> (nat \<times> ac_msg) list
    \<Rightarrow> ('b, 's, 'o) AcSys \<Rightarrow> ('b, 's, 'o) AcSys cxx" where
  "ac_feed cache accs n self aid [] sys = Ret sys"
| "ac_feed cache accs n self aid ((src, tid, offset, data) # ms) sys =
     cxx_bind (AcAccumulateMsg cache accs n sys self src aid tid offset data) (ac_feed cache accs n self aid ms)"

text \<open>The sum of what has arrived: user \<open>u\<close> has sent the words up to \<open>pos u\<close>.\<close>

definition arrived :: "nat set \<Rightarrow> (nat \<Rightarrow> u32 list) \<Rightarrow> nat \<Rightarrow> (nat \<Rightarrow> nat) \<Rightarrow> nat \<Rightarrow> u32 list" where
  "arrived U vec base pos n = map (\<lambda>j. \<Sum>u\<in>U. if base + j < pos u then vec u ! (base + j) else 0) [0..<n]"

lemma length_arrived [simp]: "length (arrived U vec base pos n) = n"
  by (simp add: arrived_def)

lemma nth_arrived:
  "j < n \<Longrightarrow> arrived U vec base pos n ! j = (\<Sum>u\<in>U. if base + j < pos u then vec u ! (base + j) else 0)"
  by (simp add: arrived_def cong: if_cong)

lemma arrived_add:
  assumes "finite U" "u \<in> U" "base \<le> pos u" "pos u \<le> q"
  shows "add_slice (vec u) base (pos u) q (arrived U vec base pos n) = arrived U vec base (pos(u := q)) n"
proof (rule nth_equalityI)
  fix j assume "j < length (add_slice (vec u) base (pos u) q (arrived U vec base pos n))"
  then have j: "j < n" by simp
  let ?f = "\<lambda>pos w. if base + j < pos w then vec w ! (base + j) else 0"
  have rest: "(\<Sum>w\<in>U - {u}. ?f pos w) = (\<Sum>w\<in>U - {u}. ?f (pos(u := q)) w)" by (rule sum.cong) auto
  have "arrived U vec base pos n ! j = ?f pos u + (\<Sum>w\<in>U - {u}. ?f pos w)"
    using j assms(1,2) by (simp add: nth_arrived sum.remove)
  moreover have "arrived U vec base (pos(u := q)) n ! j = ?f (pos(u := q)) u + (\<Sum>w\<in>U - {u}. ?f (pos(u := q)) w)"
    using j assms(1,2) by (simp add: nth_arrived sum.remove)
  ultimately show "add_slice (vec u) base (pos u) q (arrived U vec base pos n) ! j = arrived U vec base (pos(u := q)) n ! j"
    using j assms(3,4) unfolding rest by (simp add: nth_add_slice)
qed simp

text \<open>
  The state of a part before the packets \<open>R\<close> arrive: every user in \<open>U\<close> with packets left has sent the
  words up to \<open>pos u\<close>, the others all of them.
\<close>

definition part_state :: "(u32 list, 'o) DBaseAccumulator \<Rightarrow> nat set \<Rightarrow> (nat \<Rightarrow> u32 list) \<Rightarrow> (nat \<Rightarrow> ac_msg list) \<Rightarrow> (nat \<Rightarrow> nat)
    \<Rightarrow> u32 list DataSyncNode \<Rightarrow> bool" where
  "part_state accu U vec R pos node \<longleftrightarrow>
     ds_buf node = Some (arrived U vec (unat (ds_base node)) pos (unat (ds_size node))) \<and>
     unat (ds_base node) + unat (ds_size node) < 2147483648 \<and>
     ds_count node = int (card U) \<and> ds_val node = int (card {u \<in> U. R u = []}) \<and>
     (\<forall>u \<in> U. unat (ds_base node) \<le> pos u \<and>
       (if R u = [] then pos u = unat (ds_base node) + unat (ds_size node)
        else feeds accu (vec u) (ds_base node) (ds_size node) (pos u) (unat (ds_base node) + unat (ds_size node)) (R u)))"

definition part_sum :: "nat set \<Rightarrow> (nat \<Rightarrow> u32 list) \<Rightarrow> nat \<Rightarrow> nat \<Rightarrow> u32 list" where
  "part_sum U vec base n = map (\<lambda>j. \<Sum>u\<in>U. vec u ! (base + j)) [0..<n]"

lemma length_part_sum [simp]: "length (part_sum U vec base n) = n"
  by (simp add: part_sum_def)

lemma arrived_all: "(\<And>u. u \<in> U \<Longrightarrow> pos u = base + n) \<Longrightarrow> arrived U vec base pos n = part_sum U vec base n"
  unfolding arrived_def part_sum_def by (rule map_cong [OF refl]) (auto intro!: sum.cong)

lemma part_state_waitlist [simp]:
  "part_state accu U vec R pos (node\<lparr> ds_waitlist := w \<rparr>) = part_state accu U vec R pos node"
  by (simp add: part_state_def)

lemma part_state_apply:
  assumes ps: "part_state accu U vec R pos node" and fin: "finite U" and u: "u \<in> U" "R u = (tid, offset, data) # rest"
  obtains q where "ac_apply accu node offset data = Ret (node\<lparr> ds_buf := Some (arrived U vec (unat (ds_base node)) (pos(u := q)) (unat (ds_size node))) \<rparr>)"
    "part_state accu U vec (R(u := rest)) (pos(u := q))
       (node\<lparr> ds_buf := Some (arrived U vec (unat (ds_base node)) (pos(u := q)) (unat (ds_size node))),
          ds_val := int (card {w \<in> U. (R(u := rest)) w = []}) \<rparr>)"
    "tid = 0 \<longleftrightarrow> rest \<noteq> []"
proof -
  let ?b = "unat (ds_base node)" and ?n = "unat (ds_size node)"
  have f: "feeds accu (vec u) (ds_base node) (ds_size node) (pos u) (?b + ?n) ((tid, offset, data) # rest)" "?b \<le> pos u"
    using ps u by (auto simp: part_state_def dest: bspec [of U _ u])
  obtain q where q: "adds accu (vec u) (ds_base node) (ds_size node) (pos u) q offset data" "tid = 0 \<longleftrightarrow> rest \<noteq> []"
      "rest = [] \<longrightarrow> q = ?b + ?n" "rest \<noteq> [] \<longrightarrow> feeds accu (vec u) (ds_base node) (ds_size node) q (?b + ?n) rest"
    using f(1) by (cases rule: feeds_ConsE) (auto elim: feeds_NilE)
  have le: "pos u \<le> q" using q(1) by (simp add: adds_def)
  have buf: "ds_buf node = Some (arrived U vec ?b pos ?n)" and ow: "owner_ok (arrived U vec ?b pos ?n) (ds_base node) (ds_size node)"
    using ps by (simp_all add: part_state_def owner_ok_def)
  have "ac_apply accu node offset data = Ret (node\<lparr> ds_buf := Some (add_slice (vec u) ?b (pos u) q (arrived U vec ?b pos ?n)) \<rparr>)"
    using q(1) buf ow by (simp add: adds_def)
  then have ap: "ac_apply accu node offset data = Ret (node\<lparr> ds_buf := Some (arrived U vec ?b (pos(u := q)) ?n) \<rparr>)"
    using arrived_add [of U u ?b pos q vec ?n] fin u(1) f(2) le by simp
  show thesis
  proof (rule that [OF ap _ q(2)])
    show "part_state accu U vec (R(u := rest)) (pos(u := q)) (node\<lparr> ds_buf := Some (arrived U vec ?b (pos(u := q)) ?n),
        ds_val := int (card {w \<in> U. (R(u := rest)) w = []}) \<rparr>)"
      using ps q(3,4) f(2) le by (auto simp: part_state_def)
  qed
qed

lemma set_data_node_again [simp]:
  "set_data_node (set_data_node sys self aid node) self aid node' = set_data_node sys self aid node'"
  "as_mem (set_data_node sys self aid node) = as_mem sys" "as_map (set_data_node sys self aid node) self aid = Some node"
  by (simp_all add: set_data_node_def)

lemma card_finished:
  assumes "finite U" "u \<in> U" "R u \<noteq> []"
  shows "card {w \<in> U. (R(u := rest)) w = []} = (if rest = [] then Suc (card {w \<in> U. R w = []}) else card {w \<in> U. R w = []})"
proof (cases "rest = []")
  case True
  then have "{w \<in> U. (R(u := rest)) w = []} = insert u {w \<in> U. R w = []}" using assms by auto
  then show ?thesis using assms True by simp
next
  case False
  then have "{w \<in> U. (R(u := rest)) w = []} = {w \<in> U. R w = []}" using assms by auto
  then show ?thesis using False by simp
qed

lemma interleave_done: "interleave U R ms \<Longrightarrow> (\<And>u. u \<in> U \<Longrightarrow> R u = []) \<Longrightarrow> ms = []"
  by (erule interleave.cases) auto

lemma all_finished:
  assumes "finite U" "\<not> card {w \<in> U. R w = []} < card U"
  shows "\<And>w. w \<in> U \<Longrightarrow> R w = []"
proof -
  have "{w \<in> U. R w = []} = U" using assms by (intro card_subset_eq) (auto simp: card_mono not_less le_antisym)
  then show "\<And>w. w \<in> U \<Longrightarrow> R w = []" by blast
qed

text \<open>The node after the last packet, with the wait list \<open>wl\<close>, and the memory then.\<close>

definition finish_part :: "u32 list DataSyncNode \<Rightarrow> SyncThreadNode list \<Rightarrow> u32 list DataSyncNode" where
  "finish_part node wl = node\<lparr> ds_val := 0, ds_buf := Some (replicate (unat (ds_size node)) 0), ds_waitlist := wl \<rparr>"

definition flush_part :: "'s DSMCache \<Rightarrow> u32 list DataSyncNode \<Rightarrow> u32 list \<Rightarrow> 's \<Rightarrow> 's" where
  "flush_part cache node ws s =
     (if ds_size node = 0 then s else fst (dc_putchunk32 cache s (ds_outarray node) (ds_base node) (ds_size node) ws))"

lemma finish_part_upd [simp]:
  "finish_part (node\<lparr> ds_buf := B \<rparr>) wl = finish_part node wl"
  "finish_part (node\<lparr> ds_val := v \<rparr>) wl = finish_part node wl"
  "finish_part (node\<lparr> ds_waitlist := w \<rparr>) wl = finish_part node wl"
  "flush_part cache (node\<lparr> ds_buf := B \<rparr>) ws s = flush_part cache node ws s"
  "flush_part cache (node\<lparr> ds_val := v \<rparr>) ws s = flush_part cache node ws s"
  "flush_part cache (node\<lparr> ds_waitlist := w \<rparr>) ws s = flush_part cache node ws s"
  by (cases node; simp add: finish_part_def flush_part_def)+

lemma ac_feed_sum:
  assumes "interleave U R ms" "finite U" "part_state (accs aid) U vec R pos node" "as_map sys self aid = Some node"
    and "card {w \<in> U. R w = []} < card U"
    and clr: "ab_words (accs aid) = (\<lambda>buf. buf)" "\<And>buf. ab_clear (accs aid) buf = replicate (length buf) 0"
  shows "\<exists>wl. ac_feed cache accs n self aid ms sys =
    Ret (ac_partial_done accs n ((set_data_node sys self aid (finish_part node wl))
      \<lparr> as_mem := flush_part cache node (part_sum U vec (unat (ds_base node)) (unat (ds_size node))) (as_mem sys) \<rparr>) self aid)"
  using assms(1,3,4,5)
proof (induction arbitrary: pos node sys rule: interleave.induct)
  case (interleave_Nil R)
  then have "{w \<in> U. R w = []} = U" by auto
  then show ?case using interleave_Nil by simp
next
  case (interleave_Cons u R m rest ms)
  obtain tid offset data where m: "m = (tid, offset, data)" by (cases m)
  let ?b = "unat (ds_base node)" and ?n = "unat (ds_size node)" and ?R = "R(u := rest)"
  obtain q where q: "ac_apply (accs aid) node offset data = Ret (node\<lparr> ds_buf := Some (arrived U vec ?b (pos(u := q)) ?n) \<rparr>)"
    "part_state (accs aid) U vec ?R (pos(u := q)) (node\<lparr> ds_buf := Some (arrived U vec ?b (pos(u := q)) ?n),
          ds_val := int (card {w \<in> U. ?R w = []}) \<rparr>)"
    "tid = 0 \<longleftrightarrow> rest \<noteq> []"
    by (rule part_state_apply [OF interleave_Cons(5) assms(2) interleave_Cons(1)]) (use interleave_Cons(2) m in simp_all)
  have find: "FindOrCreateDataSyncNode accs n sys self aid = node" using interleave_Cons(6) by (simp add: FindOrCreateDataSyncNode_def)
  have cnt: "ds_count node = int (card U)" "ds_val node = int (card {w \<in> U. R w = []})"
    using interleave_Cons(5) by (simp_all add: part_state_def)
  have cf: "card {w \<in> U. ?R w = []} = (if rest = [] then Suc (card {w \<in> U. R w = []}) else card {w \<in> U. R w = []})"
    using interleave_Cons(2) by (intro card_finished [OF assms(2) interleave_Cons(1)]) simp
  show ?case
  proof (cases "tid = 0")
    case True
    let ?node = "node\<lparr> ds_buf := Some (arrived U vec ?b (pos(u := q)) ?n) \<rparr>"
    have v: "int (card {w \<in> U. ?R w = []}) = ds_val node" using True q(3) cf cnt by simp
    have same: "node\<lparr> ds_buf := B, ds_val := ds_val node \<rparr> = node\<lparr> ds_buf := B \<rparr>" for B by (cases node) simp
    have ps: "part_state (accs aid) U vec ?R (pos(u := q)) ?node" using q(2) unfolding v same .
    have step: "AcAccumulateMsg cache accs n sys self u aid tid offset data = Ret (set_data_node sys self aid ?node)"
      using q(1) True by (simp add: AcAccumulateMsg_def find)
    have "card {w \<in> U. ?R w = []} < card U" using True q(3) cf interleave_Cons(7) by simp
    then show ?thesis using interleave_Cons.IH [OF ps, of "set_data_node sys self aid ?node"] step by (simp add: m)
  next
    case False
    let ?wl = "if self = 0 then ds_waitlist node @ [\<lparr> machine = u, thread_id = tid \<rparr>] else ds_waitlist node"
    let ?node = "node\<lparr> ds_buf := Some (arrived U vec ?b (pos(u := q)) ?n), ds_val := ds_val node + 1, ds_waitlist := ?wl \<rparr>"
    have v: "int (card {w \<in> U. ?R w = []}) = ds_val node + 1" using False q(3) cf cnt by simp
    have ps: "part_state (accs aid) U vec ?R (pos(u := q)) ?node" using q(2) unfolding v by simp
    show ?thesis
    proof (cases "card {w \<in> U. ?R w = []} < card U")
      case True
      then have "AcAccumulateMsg cache accs n sys self u aid tid offset data = Ret (set_data_node sys self aid ?node)"
        using q(1) False v cnt by (simp add: AcAccumulateMsg_def find Let_def)
      then show ?thesis using interleave_Cons.IH [OF ps, of "set_data_node sys self aid ?node"] True by (simp add: m)
    next
      case last: False
      then have fin: "\<And>w. w \<in> U \<Longrightarrow> ?R w = []" using all_finished [OF assms(2), of ?R] by blast
      then have "ms = []" by (rule interleave_done [OF interleave_Cons(3)])
      moreover have "arrived U vec ?b (pos(u := q)) ?n = part_sum U vec ?b ?n"
        using ps fin by (intro arrived_all) (auto simp: part_state_def)
      moreover have "\<not> ds_val node + 1 < ds_count node" using last v cnt by simp
      ultimately show ?thesis
        using q(1) False clr
        by (intro exI [of _ ?wl], cases node)
          (auto simp: m AcAccumulateMsg_def find Let_def not_less finish_part_def flush_part_def part_sum_def)
    qed
  qed
qed
end
