(* ===== verification/Dogee_AccumulatorFacts.thy ===== *)
theory Dogee_AccumulatorFacts
  imports Dogee_AccumulatorSend Dogee_AccumulatorSum Dogee_StorageFacts
begin

text \<open>
  Properties of the accumulators: the parts of the nodes tile the vector, packets fit in the buffer,
  the sender sends every part and ends, the owner of a part writes the sum of the users'
  vectors, and the master wakes all waiting threads after the last part. The exception is a sender whose
  own part is empty.
\<close>

section \<open>Evaluation\<close>

lemma AcAccumulatePrepareBuffer_code [code]:
  "AcAccumulatePrepareBuffer config_mode threshold src idx endi =
     (let mode = (if config_mode = AutoMode
           then if IsProfitableToCompress (take (unat (endi - idx)) (drop (unat idx) src)) threshold then SparseMode else DenseMode
           else config_mode)
      in if mode = DenseMode
         then let n = (if idx + 4096 > endi then endi - idx else 4096)
              in (n, TypeDense (take (unat n) (drop (unat idx) src)))
         else case MakeSparseArray src (unat idx) (unat endi) threshold of (n, es) \<Rightarrow> (of_nat n, TypeSparse es))"
proof -
  have "of_nat (BD_DATA_PROCESS_SIZE div 4) = (4096 :: u32)" by (simp add: BD_DATA_PROCESS_SIZE_def)
  then show ?thesis by (simp only: AcAccumulatePrepareBuffer_def)
qed

lemma profit_loop_code [code]:
  "profit_loop [] threshold zeros used i = (zeros, i)"
  "profit_loop (val # vec) threshold zeros used i =
     (if int used < 16384
      then if ac_small False threshold val then profit_loop vec threshold (zeros + 1) used (i + 1)
           else profit_loop vec threshold zeros (used + 8) (i + 1)
      else (zeros, i))"
proof -
  have "int used < 16384 \<longleftrightarrow> used < BD_DATA_PROCESS_SIZE" unfolding BD_DATA_PROCESS_SIZE_def by linarith
  then show "profit_loop (val # vec) threshold zeros used i =
     (if int used < 16384
      then if ac_small False threshold val then profit_loop vec threshold (zeros + 1) used (i + 1)
           else profit_loop vec threshold zeros (used + 8) (i + 1)
      else (zeros, i))" by (simp only: profit_loop.simps)
qed simp

lemma sparse_loop_code [code]:
  "sparse_loop [] threshold i used = (i, [])"
  "sparse_loop (val # vec) threshold i used =
     (if 16384 \<le> int used + 8 then (i, [])
      else if ac_small True threshold val \<or> val = 0 then sparse_loop vec threshold (i + 1) used
      else case sparse_loop vec threshold (i + 1) (used + 8) of
             (j, es) \<Rightarrow> (j, \<lparr> se_index = of_nat i, se_data = val \<rparr> # es))"
proof -
  have "16384 \<le> int used + 8 \<longleftrightarrow> BD_DATA_PROCESS_SIZE \<le> used + 8" unfolding BD_DATA_PROCESS_SIZE_def by linarith
  then show "sparse_loop (val # vec) threshold i used =
     (if 16384 \<le> int used + 8 then (i, [])
      else if ac_small True threshold val \<or> val = 0 then sparse_loop vec threshold (i + 1) used
      else case sparse_loop vec threshold (i + 1) (used + 8) of
             (j, es) \<Rightarrow> (j, \<lparr> se_index = of_nat i, se_data = val \<rparr> # es))" by (simp only: sparse_loop.simps)
qed simp

definition demo_cache :: "server DSMCache" where
  "demo_cache = DSMNoCache (SoStorageMemcached server_api)"

definition demo_accs :: "u32 \<Rightarrow> ObjectKey \<Rightarrow> (u32 list, nat) DBaseAccumulator" where
  "demo_accs len aid = DAddAccumulator 3 7 len 2"

definition demo_sys :: "(u32 list, server, nat) AcSys" where
  "demo_sys = \<lparr> as_map = (\<lambda>_ _. None), as_mem = Map.empty, as_net = (\<lambda>_ _. []), as_woken = [], as_reduced = [] \<rparr>"

section \<open>Parts and packets\<close>

text \<open>
  C34. Every word of the vector lies in the range the sender assigns to exactly one node, and the
  range of a node is the one its owner has allocated.
\<close>

theorem parts_partition_vector:
  assumes "part_ok n (ab_len accu)"
  shows "(\<forall>p < unat (ab_len accu). \<exists>!i. i < n \<and> unat (send_idx n (ab_len accu) i) \<le> p \<and> p < unat (send_size n (ab_len accu) i)) \<and>
    (\<forall>i < n. ds_base (init_data_node n i accu) = send_idx n (ab_len accu) i \<and>
       unat (ds_size (init_data_node n i accu)) = unat (send_size n (ab_len accu) i) - unat (send_idx n (ab_len accu) i))"
proof -
  let ?sz = "ab_len accu"
  have eq: "i < n \<and> unat (send_idx n ?sz i) \<le> p \<and> p < unat (send_size n ?sz i) \<longleftrightarrow>
      i < n \<and> part_lo n ?sz i \<le> p \<and> p < part_hi n ?sz i" for i p
    using send_idx_unat [OF assms] send_size_unat [OF assms] by auto
  show ?thesis
    unfolding eq using parts_tile [OF assms] init_data_node_part(1,2) [OF assms]
    by (auto simp: send_idx_unat [OF assms] send_size_unat [OF assms] word_unat_eq_iff [of "ds_base _"])
qed

theorem parts_partition_vector_witness:
  "\<exists>!i. i < 3 \<and> unat (send_idx 3 100 i) \<le> 70 \<and> 70 < unat (send_size 3 100 i)"
  using parts_partition_vector [of 3 "demo_accs 100 0"]
  by (simp add: part_ok_def demo_accs_def DAddAccumulator_def DFunctionalAccumulator_def)

text \<open>
  Whatever the mode and the threshold, the data of a packet fits in the buffer of
  \<^verbatim>\<open>BD_DATA_PROCESS_SIZE\<close> bytes on both sides.
\<close>

theorem packet_fits_buffer:
  assumes "AcAccumulatePrepareBuffer mode threshold vec idx endi = (n, data)" "idx \<le> endi" "unat endi < 2147483648"
  shows "case data of TypeDense ws \<Rightarrow> 4 * length ws \<le> BD_DATA_PROCESS_SIZE | TypeSparse es \<Rightarrow> 8 * length es \<le> BD_DATA_PROCESS_SIZE"
  by (rule prepare_bytes [OF assms])

theorem packet_fits_buffer_witness:
  "AcAccumulatePrepareBuffer SparseMode 0 [1, 0, 2] 0 3 = (3, TypeSparse [\<lparr> se_index = 0, se_data = 1 \<rparr>, \<lparr> se_index = 2, se_data = 2 \<rparr>]) \<and>
   8 * length [\<lparr> se_index = 0, se_data = 1 \<rparr>, \<lparr> se_index = 2, se_data = 2 \<rparr>] \<le> BD_DATA_PROCESS_SIZE"
proof -
  have e: "AcAccumulatePrepareBuffer SparseMode 0 [1, 0, 2] 0 3 =
      (3, TypeSparse [\<lparr> se_index = 0, se_data = 1 \<rparr>, \<lparr> se_index = 2, se_data = 2 \<rparr>])" by code_simp
  show ?thesis using packet_fits_buffer [OF e] e by simp
qed

section \<open>Sum of a part\<close>

lemma AcAccumulateMsg_create:
  assumes "as_map sys self aid = None"
  shows "AcAccumulateMsg cache accs n (set_data_node sys self aid (init_data_node n self (accs aid))) self src aid tid offset data =
    AcAccumulateMsg cache accs n sys self src aid tid offset data"
proof -
  have "FindOrCreateDataSyncNode accs n sys self aid = init_data_node n self (accs aid)"
    "FindOrCreateDataSyncNode accs n (set_data_node sys self aid (init_data_node n self (accs aid))) self aid = init_data_node n self (accs aid)"
    using assms by (simp_all add: FindOrCreateDataSyncNode_def)
  then show ?thesis by (simp only: AcAccumulateMsg_def set_data_node_again)
qed

lemma as_mem_done [simp]: "as_mem (ac_partial_done accs n sys self aid) = as_mem sys"
  by (simp add: ac_partial_done_def AcAccumulatePartialDoneMsg_def Let_def ac_send_def)

text \<open>What user \<open>u\<close> sends to the owner of part \<open>i\<close>: packets, or from the owner's own node the whole slice.\<close>

definition user_packets :: "nat \<Rightarrow> u32 \<Rightarrow> nat \<Rightarrow> AccumulatorMode \<Rightarrow> u32 list \<Rightarrow> u32 \<Rightarrow> ac_msg list \<Rightarrow> bool" where
  "user_packets n len i mode vec tid ms \<longleftrightarrow>
     ac_stream mode 0 vec tid (part_lo n len i) (max (part_lo n len i) (part_hi n len i)) ms \<or>
     ms = [(tid, of_nat (part_lo n len i), TypeDense (take (part_hi n len i - part_lo n len i) (drop (part_lo n len i) vec)))]"

lemma user_packets_feeds:
  assumes po: "part_ok n len" "i < n" and v: "unat len = length vec" "tid \<noteq> 0" and up: "user_packets n len i mode vec tid ms"
    and base: "unat base = part_lo n len i" "unat sz = part_hi n len i - part_lo n len i"
  shows "feeds (DAddAccumulator fresh arr len users) vec base sz (part_lo n len i) (unat base + unat sz) ms"
proof -
  let ?lo = "part_lo n len i" and ?hi = "part_hi n len i"
  have b: "?lo < 2147483648" "?hi \<le> length vec" "?hi < 2147483648" using part_bounds [OF po] v by simp_all
  have e: "unat base + unat sz = max ?lo ?hi" using base by simp
  show ?thesis
  proof (cases "ac_stream mode 0 vec tid ?lo (max ?lo ?hi) ms")
    case True
    show ?thesis
    proof (cases "?lo < ?hi")
      case lt: True
      then show ?thesis unfolding e using True b v base by (intro ac_stream_feeds [OF True]) simp_all
    next
      case False
      then have "ac_stream mode 0 vec tid ?lo ?lo ms" using True by (simp add: max_def split: if_splits)
      then have "ms = [(tid, 0, TypeDense [])]" by (cases rule: ac_stream.cases) simp_all
      then show ?thesis unfolding e using False v by (simp add: max_def) (intro feeds_last adds_empty)
    qed
  next
    case False
    then have ms: "ms = [(tid, of_nat ?lo, TypeDense (take (?hi - ?lo) (drop ?lo vec)))]" using up by (simp add: user_packets_def)
    show ?thesis
    proof (cases "?lo < ?hi")
      case True
      have "adds (DAddAccumulator fresh arr len users) vec base sz ?lo (?lo + (?hi - ?lo)) (of_nat ?lo) (TypeDense (take (?hi - ?lo) (drop ?lo vec)))"
        using True b base by (intro adds_dense) simp_all
      then show ?thesis unfolding e ms using True v by (intro feeds_last) simp_all
    next
      case False
      then show ?thesis unfolding e ms using v by (simp add: max_def) (intro feeds_last adds_empty)
    qed
  qed
qed


text \<open>
  C8. The owner of a part receives, in any interleaving, the packets of \<open>K\<close> users, dense or
  sparse, with threshold 0. It then has written the sum of their vectors on its part to the shared
  array, with one call.
\<close>

theorem part_sum_written:
  assumes po: "part_ok n len" "self < n" and acc: "accs aid = DAddAccumulator fresh arr len users"
    and users: "0 < K" "sint users = int K"
    and vec: "\<forall>u < K. length (vec u) = unat len \<and> tid u \<noteq> 0 \<and> user_packets n len self (mode u) (vec u) (tid u) (R u)"
    and ms: "interleave {0..<K} R ms" and new: "as_map sys self aid = None"
  shows "\<exists>sys'. ac_feed cache accs n self aid ms sys = Ret sys' \<and>
    as_mem sys' = (if part_lo n len self < part_hi n len self
      then fst (dc_putchunk32 cache (as_mem sys) arr (send_idx n len self) (send_size n len self - send_idx n len self)
        (part_sum {0..<K} vec (part_lo n len self) (part_hi n len self - part_lo n len self)))
      else as_mem sys)"
proof -
  let ?node = "init_data_node n self (accs aid)" and ?lo = "part_lo n len self" and ?hi = "part_hi n len self"
  let ?sys = "set_data_node sys self aid ?node"
  have po': "part_ok n (ab_len (accs aid))" using po acc by simp
  note nd = init_data_node_part [OF po' po(2)]
  have base: "unat (ds_base ?node) = ?lo" "unat (ds_size ?node) = ?hi - ?lo" using nd(1,2) acc by simp_all
  have cnt: "ds_count ?node = int K" "ds_val ?node = 0" "ds_outarray ?node = arr"
    using acc users by (simp_all add: init_data_node_def Let_def)
  have sz0: "ds_size ?node = 0 \<longleftrightarrow> unat (ds_size ?node) = 0" by (simp add: word_unat_eq_iff)
  have buf: "ds_buf ?node = Some (replicate (?hi - ?lo) 0)"
    unfolding nd(3) Let_def using acc sz0 base(2) by (auto simp: replicate_eq_replicate)
  have arr0: "arrived {0..<K} vec ?lo (\<lambda>u. ?lo) (?hi - ?lo) = replicate (?hi - ?lo) 0"
    by (rule nth_equalityI) (simp_all add: nth_arrived)
  have ne: "R u \<noteq> []" if "u < K" for u
  proof -
    have "user_packets n len self (mode u) (vec u) (tid u) (R u)" using vec that by simp
    then show ?thesis by (auto simp: user_packets_def elim: ac_stream.cases)
  qed
  have ps: "part_state (accs aid) {0..<K} vec R (\<lambda>u. ?lo) ?node"
  proof -
    have "{u \<in> {0..<K}. R u = []} = {}" using ne by auto
    moreover have "feeds (accs aid) (vec u) (ds_base ?node) (ds_size ?node) ?lo (unat (ds_base ?node) + unat (ds_size ?node)) (R u)"
      if "u < K" for u
      unfolding acc by (rule user_packets_feeds [OF po _ _ _ base [unfolded acc]]) (use vec that in auto)
    ultimately show ?thesis
      using part_bounds [OF po] ne cnt buf base arr0 by (simp add: part_state_def)
  qed
  have c: "card {u \<in> {0..<K}. R u = []} < card {0..<K}"
  proof -
    have e: "{u \<in> {0..<K}. R u = []} = {}" using ne by auto
    show ?thesis unfolding e using users by simp
  qed
  obtain wl where wl: "ac_feed cache accs n self aid ms ?sys =
    Ret (ac_partial_done accs n ((set_data_node ?sys self aid (finish_part ?node wl))
      \<lparr> as_mem := flush_part cache ?node (part_sum {0..<K} vec (unat (ds_base ?node)) (unat (ds_size ?node))) (as_mem ?sys) \<rparr>) self aid)"
    using ac_feed_sum [where accs = accs and aid = aid and sys = ?sys and self = self and node = ?node and cache = cache and n = n,
        OF ms _ ps _ c] acc by auto
  have "ms \<noteq> []" using ms by (cases rule: interleave.cases) (use ne users in auto)
  then have "ac_feed cache accs n self aid ms sys = ac_feed cache accs n self aid ms ?sys"
    using AcAccumulateMsg_create [OF new] by (cases ms) auto
  moreover have "ds_base ?node = send_idx n len self" "ds_size ?node = send_size n len self - send_idx n len self" if "?lo < ?hi"
    using base that send_idx_unat [OF po] send_size_unat [OF po] by (simp_all add: word_unat_eq_iff unat_sub_le)
  ultimately show ?thesis
    using wl sz0 base cnt(3) by (auto simp: flush_part_def)
qed

theorem part_sum_written_witness:
  "\<exists>sys'. ac_feed demo_cache (demo_accs 2) 1 0 5
      [(0, 9, 0, TypeDense [1, 2]), (1, 8, 0, TypeDense [10, 20])] demo_sys = Ret sys' \<and>
    as_mem sys' = fst (dc_putchunk32 demo_cache Map.empty 7 0 2 [11, 22])"
proof -
  let ?vec = "\<lambda>u :: nat. if u = 0 then [1, 2] else [10, 20 :: u32]" and ?tid = "\<lambda>u :: nat. if u = 0 then 9 else 8 :: u32"
  let ?R = "\<lambda>u. [(?tid u, 0 :: u32, TypeDense (?vec u))]"
  have w: "part_words (Suc 0) 2 = 32" by (simp add: part_words_def)
  have p: "part_lo (Suc 0) 2 0 = 0" "part_hi (Suc 0) 2 0 = 2" by (simp_all add: part_lo_def part_hi_def w)
  have il: "interleave {0..<2} ?R [(0, 9, 0, TypeDense [1, 2]), (1, 8, 0, TypeDense [10, 20])]"
    by (intro interleave_Cons interleave_Nil) auto
  have po: "part_ok 1 2" by (simp add: part_ok_def)
  have sum: "part_sum {0..<2} ?vec 0 2 = [11, 22]" by (simp add: part_sum_def numeral_2_eq_2)
  have s: "send_idx (Suc 0) 2 0 = 0" "send_size (Suc 0) 2 0 = 2" by code_simp+
  have "\<exists>sys'. ac_feed demo_cache (demo_accs 2) 1 0 5
      [(0, 9, 0, TypeDense [1, 2]), (1, 8, 0, TypeDense [10, 20])] demo_sys = Ret sys' \<and>
    as_mem sys' = (if part_lo 1 2 0 < part_hi 1 2 0
      then fst (dc_putchunk32 demo_cache (as_mem demo_sys) 7 (send_idx 1 2 0) (send_size 1 2 0 - send_idx 1 2 0)
        (part_sum {0..<2} ?vec (part_lo 1 2 0) (part_hi 1 2 0 - part_lo 1 2 0))) else as_mem demo_sys)"
    by (rule part_sum_written [where tid = ?tid and mode = "\<lambda>_. DenseMode", OF po _ _ _ _ _ il])
      (auto simp: demo_accs_def demo_sys_def user_packets_def p)
  then show ?thesis by (simp add: p s sum demo_sys_def)
qed

section \<open>Sending a vector\<close>





text \<open>
  A sender whose own part is empty counts itself twice: here node 1 of 2 accumulates a vector of 32 words,
  all in the part of node 0, sends nothing to node 0 and starts to wait.
\<close>

theorem empty_part_skips_send:
  "case DoAccumulateAndWait demo_cache (demo_accs 32) 2 DenseMode demo_sys 1 5 9 0 (replicate 32 1) [] of
     Ret (Some sys') \<Rightarrow> as_net sys' 1 0 = [] | _ \<Rightarrow> False"
  by code_simp

section \<open>Waking\<close>

text \<open>
  The master wakes nobody before the last of the \<open>n\<close> parts is done, and then every waiting
  thread, in order; the counter starts again.
\<close>

theorem last_part_wakes_all:
  fixes sys :: "('b, 's, 'o) AcSys"
  assumes "as_map sys 0 aid = Some node" "ds_done_node_cnt node = 0" "k \<le> n" "0 < n"
  shows "let sys' = ((\<lambda>s. AcAccumulatePartialDoneMsg accs n s 0 aid) ^^ k) sys
    in as_woken sys' = as_woken sys @ (if k = n then ds_waitlist node else []) \<and>
       as_map sys' 0 aid = Some (if k = n then node\<lparr> ds_done_node_cnt := 0, ds_waitlist := [] \<rparr> else node\<lparr> ds_done_node_cnt := int k \<rparr>)"
proof -
  define F :: "('b, 's, 'o) AcSys \<Rightarrow> ('b, 's, 'o) AcSys" where "F = (\<lambda>s. AcAccumulatePartialDoneMsg accs n s 0 aid)"
  have step: "F s = (if m + 1 < n then set_data_node s 0 aid (node\<lparr> ds_done_node_cnt := int (m + 1) \<rparr>)
      else (set_data_node s 0 aid (node\<lparr> ds_done_node_cnt := 0, ds_waitlist := [] \<rparr>))\<lparr> as_woken := as_woken s @ ds_waitlist node \<rparr>)"
    if "as_map s 0 aid = Some (node\<lparr> ds_done_node_cnt := int m \<rparr>)" for s m
    using that by (auto simp: F_def AcAccumulatePartialDoneMsg_def FindOrCreateDataSyncNode_def Let_def add.commute)
  have same: "node\<lparr> ds_done_node_cnt := 0 \<rparr> = node" using assms(2) by (cases node) simp
  have before: "as_woken ((F ^^ m) sys) = as_woken sys \<and> as_map ((F ^^ m) sys) 0 aid = Some (node\<lparr> ds_done_node_cnt := int m \<rparr>)"
    if "m < n" for m
    using that
  proof (induction m)
    case (Suc m)
    then show ?case using step [of "(F ^^ m) sys" m] by (simp add: set_data_node_def)
  qed (use assms(1) same in simp)
  show ?thesis
  proof (cases "k = n")
    case True
    then obtain j where j: "k = Suc j" "j < n" using assms(4) by (cases k) auto
    then have "(F ^^ k) sys = F ((F ^^ j) sys)" by simp
    then show ?thesis
      using True j step [of "(F ^^ j) sys" j] before [OF j(2)] by (simp add: Let_def set_data_node_def flip: F_def)
  next
    case False
    then show ?thesis using before [of k] assms(3) by (simp add: Let_def flip: F_def)
  qed
qed

theorem last_part_wakes_all_witness:
  "let node = (init_data_node 2 0 (demo_accs 40 5))\<lparr> ds_waitlist := [\<lparr> machine = 1, thread_id = 9 \<rparr>] \<rparr>;
       sys = set_data_node demo_sys 0 5 node;
       sys' = ((\<lambda>s. AcAccumulatePartialDoneMsg (demo_accs 40) 2 s 0 5) ^^ 2) sys
   in as_woken sys' = [\<lparr> machine = 1, thread_id = 9 \<rparr>]"
proof -
  let ?node = "(init_data_node 2 0 (demo_accs 40 5))\<lparr> ds_waitlist := [\<lparr> machine = 1, thread_id = 9 \<rparr>] \<rparr>"
  have "ds_done_node_cnt ?node = 0" by (simp add: init_data_node_def Let_def)
  then show ?thesis
    using last_part_wakes_all [of "set_data_node demo_sys 0 5 ?node" 5 ?node 2 2 "demo_accs 40"]
    by (simp add: Let_def set_data_node_def demo_sys_def)
qed

text \<open>
  A node finds the sender of a packet from the index of the connection: \<^verbatim>\<open>idx2nodeid\<close> inverts
  \<^verbatim>\<open>nodeid2idx\<close> for every other node.
\<close>

theorem connection_index_round_trip:
  assumes "self < num_nodes" "node_id < num_nodes" "node_id \<noteq> self"
  shows "cxx_bind (nodeid2idx num_nodes self node_id) (idx2nodeid num_nodes self) = Ret node_id"
  using assms by (auto simp: nodeid2idx_def idx2nodeid_def)

theorem connection_index_round_trip_witness: "cxx_bind (nodeid2idx 4 2 0) (idx2nodeid 4 2) = Ret 0"
  by (rule connection_index_round_trip) simp_all

end
