(* ===== verification/Dogee_MapReduceFacts.thy ===== *)
theory Dogee_MapReduceFacts
  imports Dogee_MapPairs Dogee_AccumulatorFacts
begin

text \<open>
  Properties of map-reduce: serialised vectors of strings are read back, \<^verbatim>\<open>_Map\<close> hands every pair to
  exactly one node and ends, and a pair that is larger than a packet keeps it from ending.
\<close>

interpretation string_int: pair_serializers StringSerializer string_valid IntSerializer "\<lambda>x. True" ..

section \<open>Serialisers\<close>

text \<open>
  C25. A vector of strings without 0 bytes that fits in the buffer is read back as it was written, with the number
  of words that \<^verbatim>\<open>GetSize\<close> announces, and the rest of the buffer is as before.
\<close>

theorem strings_round_trip:
  assumes "\<forall>s \<in> set xs. 0 \<notin> set s \<and> length s < 2147483648" "(\<Sum>s\<leftarrow>xs. length s div 4 + 2) < length buf" "length buf \<le> 2147483647"
  shows "case Serialize (VectorSerializer StringSerializer) xs buf of (buf', n) \<Rightarrow>
    Deserialize (VectorSerializer StringSerializer) buf' = Ret (n, xs) \<and> n = GetSize (VectorSerializer StringSerializer) xs \<and>
    unat n = Suc (\<Sum>s\<leftarrow>xs. length s div 4 + 2) \<and> drop (unat n) buf' = drop (unat n) buf"
proof -
  have sum: "(\<Sum>s\<leftarrow>xs. unat (GetSize StringSerializer s)) = (\<Sum>s\<leftarrow>xs. length s div 4 + 2)"
    using assms(1) by (intro arg_cong [where f = sum_list] map_cong) (auto simp: StringSerializer_def string_size_eq)
  have v: "vector_valid StringSerializer string_valid xs"
    using assms by (auto simp: vector_valid_def string_valid_def list_all_iff sum)
  have g: "GetSize (VectorSerializer StringSerializer) xs = vec_size StringSerializer xs" by (simp add: VectorSerializer_def)
  have "(\<Sum>s\<leftarrow>xs. unat (GetSize StringSerializer s)) < 4294967295" using assms unfolding sum by linarith
  from string_ser.vec_size_eq [OF this]
  have sz: "unat (vec_size StringSerializer xs) = Suc (\<Sum>s\<leftarrow>xs. length s div 4 + 2)" unfolding sum .
  have "unat (GetSize (VectorSerializer StringSerializer) xs) \<le> length buf" using assms(2) by (simp only: g sz)
  from string_vec.round_trip [OF v this] show ?thesis using sz g by (auto simp: split_beta)
qed

theorem strings_round_trip_witness:
  "case Serialize (VectorSerializer StringSerializer) [[104, 105], []] (replicate 6 7) of (buf', n) \<Rightarrow>
    Deserialize (VectorSerializer StringSerializer) buf' = Ret (n, [[104, 105], []]) \<and>
    n = GetSize (VectorSerializer StringSerializer) [[104, 105], []] \<and>
    unat n = Suc (\<Sum>s\<leftarrow>[[104, 105], [] :: u8 list]. length s div 4 + 2) \<and> drop (unat n) buf' = drop (unat n) (replicate 6 7)"
  by (rule strings_round_trip) simp_all

section \<open>The map step\<close>

text \<open>
  C15. When the sending loop of \<^verbatim>\<open>_Map\<close> ends, the input is split into runs of consecutive pairs, each handed
  to one node: the caller's own runs have been mapped into its local result, and on every other
  connection there is one packet per run, which the receiver maps to exactly these pairs, then the packet that ends the
  thread's input.
\<close>

theorem map_delivers_pairs:
  assumes "serializer ks kvalid" "serializer vs vvalid"
    and "\<forall>kv \<in> set in_map. kvalid (fst kv) \<and> vvalid (snd kv) \<and> unat (GetSize ks (fst kv)) + unat (GetSize vs (snd kv)) \<le> 4096"
    and "length fresh = 4096" "self < n" "accs aid = DMapReduce ks vs domap users" "my_buf accs n aid self sys = Some m"
    and ret: "MapPairs cache accs ks vs n sys self aid tid in_map fresh rounds = Ret (Some sys')"
  shows "\<exists>log. in_map = concat (map snd log) \<and> (\<forall>c \<in> set log. fst c < n) \<and>
    my_buf accs n aid self sys' = Some (map_pairs domap (concat (sent_to self log)) m) \<and>
    (\<forall>i < n. i \<noteq> self \<longrightarrow> (\<exists>wss. acc_packs sys' self i = acc_packs sys self i @ data_packs aid wss @ [AcDataAccumulate aid tid 0 (TypeDense [])] \<and>
       list_all2 (\<lambda>ws kvs. length ws \<le> 4096 \<and> (\<forall>m. map_packet ks vs domap ws m = Ret (map_pairs domap kvs m))) wss (sent_to i log)))"
proof -
  have ps: "pair_serializers ks kvalid vs vvalid" using assms(1,2) by (rule pair_serializers.intro)
  have "list_all (\<lambda>kv. pair_ok ks kvalid vs vvalid kv \<and> pair_words ks vs kv \<le> 4096) in_map"
    using assms(3) by (auto simp: list_all_iff pair_ok_def pair_words_def)
  from pair_serializers.MapPairs_spec [where accs = accs and aid = aid, OF ps this assms(4-7), of cache tid rounds] ret obtain log where log:
      "in_map = concat (map snd log)" "\<forall>c \<in> set log. fst c < n" "my_buf accs n aid self sys' = Some (map_pairs domap (concat (sent_to self log)) m)"
      "\<forall>i < n. i \<noteq> self \<longrightarrow> (\<exists>wss. list_all2 (packet_reads ks vs) wss (sent_to i log) \<and>
          acc_packs sys' self i = acc_packs sys self i @ data_packs aid wss @ [AcDataAccumulate aid tid 0 (TypeDense [])])"
    by auto
  have "list_all2 (\<lambda>ws kvs. length ws \<le> 4096 \<and> (\<forall>m. map_packet ks vs domap ws m = Ret (map_pairs domap kvs m))) wss kvss"
    if "list_all2 (packet_reads ks vs) wss kvss" for wss kvss
    using that by (rule list_all2_mono) (simp add: map_packet_reads, simp add: packet_reads_def)
  with log show ?thesis by blast
qed

definition demo_domap :: "u8 list \<Rightarrow> u32 \<Rightarrow> (u8 list, u32) mr_map \<Rightarrow> (u8 list, u32) mr_map" where
  "demo_domap key val m = (key, [val]) # m"

definition demo_mr :: "ObjectKey \<Rightarrow> ((u8 list, u32) mr_map, u8 list \<times> u32 list) DBaseAccumulator" where
  "demo_mr aid = DMapReduce StringSerializer IntSerializer demo_domap 1"

definition demo_mr_sys :: "((u8 list, u32) mr_map, server, u8 list \<times> u32 list) AcSys" where
  "demo_mr_sys = \<lparr> as_map = (\<lambda>_ _. None), as_mem = Map.empty, as_net = (\<lambda>_ _. []), as_woken = [], as_reduced = [] \<rparr>"

lemma demo_mr_buf: "my_buf demo_mr 2 5 0 demo_mr_sys = Some []"
  by (simp add: my_buf_def FindOrCreateDataSyncNode_def demo_mr_sys_def demo_mr_def DMapReduce_def init_data_node_def ac_blocks_def Let_def)

lemma demo_pairs_ok:
  "\<forall>kv \<in> set [([104], 5), ([105], 6)]. string_valid (fst kv) \<and>
     unat (GetSize StringSerializer (fst kv)) + unat (GetSize IntSerializer (snd kv)) \<le> 4096"
  by (simp add: string_valid_def StringSerializer_def string_size_eq IntSerializer_def cell_divide_def)

theorem map_delivers_pairs_witness:
  "\<exists>sys' log. MapPairs demo_cache demo_mr StringSerializer IntSerializer 2 demo_mr_sys 0 5 9 [([104], 5), ([105], 6)]
      (replicate 4096 0) [[0, 1], [0, 1]] = Ret (Some sys') \<and>
    [([104], 5), ([105], 6)] = concat (map snd log) \<and> (\<forall>c \<in> set log. fst c < 2) \<and>
    my_buf demo_mr 2 5 0 sys' = Some (map_pairs demo_domap (concat (sent_to 0 log)) []) \<and>
    (\<forall>i < 2. i \<noteq> 0 \<longrightarrow> (\<exists>wss. acc_packs sys' 0 i = acc_packs demo_mr_sys 0 i @ data_packs 5 wss @ [AcDataAccumulate 5 9 0 (TypeDense [])] \<and>
       list_all2 (\<lambda>ws kvs. length ws \<le> 4096 \<and>
         (\<forall>m. map_packet StringSerializer IntSerializer demo_domap ws m = Ret (map_pairs demo_domap kvs m))) wss (sent_to i log)))"
proof -
  have small: "list_all (\<lambda>kv. pair_ok StringSerializer string_valid IntSerializer (\<lambda>x. True) kv \<and>
      pair_words StringSerializer IntSerializer kv \<le> 4096) [([104], 5), ([105], 6)]"
    using demo_pairs_ok by (auto simp: pair_ok_def pair_words_def)
  have acc: "demo_mr 5 = DMapReduce StringSerializer IntSerializer demo_domap 1" by (simp add: demo_mr_def)
  have l: "length (replicate 4096 (0 :: u32)) = 4096" "0 < (2 :: nat)" by simp_all
  obtain sys' where s: "MapPairs demo_cache demo_mr StringSerializer IntSerializer 2 demo_mr_sys 0 5 9 [([104], 5), ([105], 6)]
      (replicate 4096 0) [[0, 1], [0, 1]] = Ret (Some sys')"
    using string_int.MapPairs_spec [where accs = demo_mr, OF small _ _ acc demo_mr_buf, of "replicate 4096 0" demo_cache 9 "[[0, 1], [0, 1]]"]
    by (auto simp: less_2_cases_iff)
  have "\<forall>kv \<in> set [([104], 5), ([105], 6)]. string_valid (fst kv) \<and> True \<and>
     unat (GetSize StringSerializer (fst kv)) + unat (GetSize IntSerializer (snd kv)) \<le> 4096" using demo_pairs_ok by simp
  from map_delivers_pairs [where accs = demo_mr, OF string_ser.serializer_axioms int_ser.serializer_axioms this l acc demo_mr_buf s]
  show ?thesis using s by blast
qed

text \<open>
  C20. When every pair fits in a packet, the sending loop of \<^verbatim>\<open>_Map\<close> ends: with every socket writable it needs
  no more rounds than there are pairs.
\<close>

theorem map_ends:
  assumes "serializer ks kvalid" "serializer vs vvalid"
    and "\<forall>kv \<in> set in_map. kvalid (fst kv) \<and> vvalid (snd kv) \<and> unat (GetSize ks (fst kv)) + unat (GetSize vs (snd kv)) \<le> 4096"
    and "length fresh = 4096" "self < n" "accs aid = DMapReduce ks vs domap users" "my_buf accs n aid self sys = Some m"
    and "length in_map \<le> length rounds" "\<forall>w \<in> set rounds. \<forall>i < n. i \<in> set w"
  shows "\<exists>sys'. MapPairs cache accs ks vs n sys self aid tid in_map fresh rounds = Ret (Some sys')"
proof -
  have ps: "pair_serializers ks kvalid vs vvalid" using assms(1,2) by (rule pair_serializers.intro)
  have "list_all (\<lambda>kv. pair_ok ks kvalid vs vvalid kv \<and> pair_words ks vs kv \<le> 4096) in_map"
    using assms(3) by (auto simp: list_all_iff pair_ok_def pair_words_def)
  from pair_serializers.MapPairs_spec [where accs = accs and aid = aid, OF ps this assms(4-7), of cache tid rounds] assms(8,9)
  show ?thesis by (auto simp: list_all_iff)
qed

theorem map_ends_witness:
  "\<exists>sys'. MapPairs demo_cache demo_mr StringSerializer IntSerializer 2 demo_mr_sys 0 5 9 [([104], 5), ([105], 6)]
      (replicate 4096 0) [[0, 1], [0, 1]] = Ret (Some sys')"
proof (rule map_ends [OF string_ser.serializer_axioms int_ser.serializer_axioms])
  show "demo_mr 5 = DMapReduce StringSerializer IntSerializer demo_domap 1" by (simp add: demo_mr_def)
  show "my_buf demo_mr 2 5 0 demo_mr_sys = Some []" by (rule demo_mr_buf)
qed (use demo_pairs_ok in \<open>auto simp: less_2_cases_iff\<close>)

lemma PrepareBuf_oversize:
  assumes "4096 < GetSize ks key + GetSize vs val"
  shows "PrepareBuf ks vs cnt n ((key, val) # items) fresh = ([], (key, val) # items)"
  using assms by (simp add: PrepareBuf_def BD_DATA_PROCESS_SIZE_def not_le [symmetric])

lemma map_round_oversize:
  assumes "4096 < GetSize ks key + GetSize vs val"
  shows "\<exists>sys' turns'. map_round ks vs cnt n self aid fresh w js (sys, (key, val) # items, turns) = (sys', (key, val) # items, turns')"
  by (induction js arbitrary: sys turns) (simp_all add: PrepareBuf_oversize [OF assms])

lemma map_send_oversize:
  assumes "4096 < GetSize ks key + GetSize vs val"
  shows "map_send cache accs ks vs cnt n self aid fresh rounds (sys, (key, val) # items, turns) = Ret None"
proof (induction rounds arbitrary: sys turns)
  case (Cons w rounds)
  obtain sys' turns' where "map_round ks vs cnt n self aid fresh w [0..<n] (sys, (key, val) # items, turns) = (sys', (key, val) # items, turns')"
    using map_round_oversize [OF assms] by blast
  then show ?case by (simp add: PrepareBuf_oversize [OF assms] AcAccumulateMsg_def ac_apply_def Cons.IH)
qed simp

text \<open>
  A pair that takes more than a packet is never serialised: \<^verbatim>\<open>PrepareBuf\<close> stops in front of it with an
  empty packet, and the loop of \<^verbatim>\<open>_Map\<close> goes on for ever once it is the next one.
\<close>

theorem oversize_pair_never_ends:
  assumes "4096 < GetSize ks key + GetSize vs val"
  shows "\<forall>rounds. MapPairs cache accs ks vs n sys self aid tid ((key, val) # items) fresh rounds = Ret None"
  by (simp add: MapPairs_def map_send_oversize [OF assms])

theorem oversize_pair_never_ends_witness:
  "4096 < GetSize StringSerializer (replicate 20000 65) + GetSize IntSerializer 1 \<and>
   (\<forall>rounds. MapPairs demo_cache demo_mr StringSerializer IntSerializer 2 demo_mr_sys 0 5 9 [(replicate 20000 65, 1)] (replicate 4096 0) rounds = Ret None)"
proof -
  have "4096 < GetSize StringSerializer (replicate 20000 65) + GetSize IntSerializer 1"
    by (simp add: StringSerializer_def string_size_def IntSerializer_def cell_divide_def)
  with oversize_pair_never_ends [OF this] show ?thesis by blast
qed

end
