(* ===== verification/Dogee_DMap.thy ===== *)
theory Dogee_DMap
  imports Dogee_Prelude
begin

text \<open>
  The red-black tree of \<^verbatim>\<open>include/DMap.h\<close>: a map whose nodes are shared objects. A reference is an object key, 0 is
  \<^verbatim>\<open>nullptr\<close>. The fields of the nodes are a function from references, as the shared memory is:
  a field of any object can be read and written, \<^verbatim>\<open>nullptr\<close> included. Every assignment of the
  source is one update, in the order of the source. Loops and recursions that could follow a cyclic
  structure for ever are partial functions with the value \<open>None\<close> there. \<^verbatim>\<open>remove\<close> and
  \<^verbatim>\<open>removeFixUp\<close> are not modelled: their bodies are ill-typed (a pointer to a reference is
  used as a reference) and cannot be instantiated.
\<close>

section \<open>Nodes\<close>

datatype RBTColor = RED | BLACK

record ('k, 'v) RBTNode =
  rb_key :: 'k
  rb_value :: 'v
  rb_color :: RBTColor
  rb_left :: ObjectKey
  rb_right :: ObjectKey
  rb_parent :: ObjectKey

record ('k, 'v) DMap =
  dm_nodes :: "ObjectKey \<Rightarrow> ('k, 'v) RBTNode"
  mRoot :: ObjectKey

definition set_color :: "('k, 'v) DMap \<Rightarrow> ObjectKey \<Rightarrow> RBTColor \<Rightarrow> ('k, 'v) DMap" where
  "set_color m x c = m\<lparr> dm_nodes := (dm_nodes m)(x := (dm_nodes m x)\<lparr> rb_color := c \<rparr>) \<rparr>"

definition set_left :: "('k, 'v) DMap \<Rightarrow> ObjectKey \<Rightarrow> ObjectKey \<Rightarrow> ('k, 'v) DMap" where
  "set_left m x p = m\<lparr> dm_nodes := (dm_nodes m)(x := (dm_nodes m x)\<lparr> rb_left := p \<rparr>) \<rparr>"

definition set_right :: "('k, 'v) DMap \<Rightarrow> ObjectKey \<Rightarrow> ObjectKey \<Rightarrow> ('k, 'v) DMap" where
  "set_right m x p = m\<lparr> dm_nodes := (dm_nodes m)(x := (dm_nodes m x)\<lparr> rb_right := p \<rparr>) \<rparr>"

definition set_parent :: "('k, 'v) DMap \<Rightarrow> ObjectKey \<Rightarrow> ObjectKey \<Rightarrow> ('k, 'v) DMap" where
  "set_parent m x p = m\<lparr> dm_nodes := (dm_nodes m)(x := (dm_nodes m x)\<lparr> rb_parent := p \<rparr>) \<rparr>"

definition rb_is_red :: "('k, 'v) DMap \<Rightarrow> ObjectKey \<Rightarrow> bool" where
  "rb_is_red m x \<longleftrightarrow> rb_color (dm_nodes m x) = RED"

definition DMap_new :: "('k, 'v) DMap \<Rightarrow> ('k, 'v) DMap" where
  "DMap_new m = m\<lparr> mRoot := 0 \<rparr>"

section \<open>Queries\<close>

partial_function (option) search_at :: "('k::linorder, 'v) DMap \<Rightarrow> ObjectKey \<Rightarrow> 'k \<Rightarrow> ObjectKey option" where
  "search_at m x key =
     (if x = 0 \<or> rb_key (dm_nodes m x) = key then Some x
      else if key < rb_key (dm_nodes m x) then search_at m (rb_left (dm_nodes m x)) key
      else search_at m (rb_right (dm_nodes m x)) key)"

definition DMap_search :: "('k::linorder, 'v) DMap \<Rightarrow> 'k \<Rightarrow> ObjectKey option" where
  "DMap_search m key = search_at m (mRoot m) key"

partial_function (option) upperBound_at :: "('k::linorder, 'v) DMap \<Rightarrow> ObjectKey \<Rightarrow> 'k \<Rightarrow> ObjectKey \<Rightarrow> ObjectKey option" where
  "upperBound_at m root key ub =
     (if root = 0 then Some ub
      else if rb_key (dm_nodes m root) > key then upperBound_at m (rb_left (dm_nodes m root)) key root
      else upperBound_at m (rb_right (dm_nodes m root)) key ub)"

partial_function (option) lowerBound_at :: "('k::linorder, 'v) DMap \<Rightarrow> ObjectKey \<Rightarrow> 'k \<Rightarrow> ObjectKey \<Rightarrow> ObjectKey option" where
  "lowerBound_at m root key lb =
     (if root = 0 then Some lb
      else if rb_key (dm_nodes m root) \<ge> key then lowerBound_at m (rb_left (dm_nodes m root)) key root
      else lowerBound_at m (rb_right (dm_nodes m root)) key lb)"

definition upperBound :: "('k::linorder, 'v) DMap \<Rightarrow> 'k \<Rightarrow> ObjectKey option" where
  "upperBound m key = upperBound_at m (mRoot m) key 0"

definition lowerBound :: "('k::linorder, 'v) DMap \<Rightarrow> 'k \<Rightarrow> ObjectKey option" where
  "lowerBound m key = lowerBound_at m (mRoot m) key 0"

partial_function (option) minimum_loop :: "('k, 'v) DMap \<Rightarrow> ObjectKey \<Rightarrow> ObjectKey option" where
  "minimum_loop m tree = (if rb_left (dm_nodes m tree) \<noteq> 0 then minimum_loop m (rb_left (dm_nodes m tree)) else Some tree)"

definition minimum_at :: "('k, 'v) DMap \<Rightarrow> ObjectKey \<Rightarrow> ObjectKey option" where
  "minimum_at m tree = (if tree = 0 then Some 0 else minimum_loop m tree)"

partial_function (option) maximum_loop :: "('k, 'v) DMap \<Rightarrow> ObjectKey \<Rightarrow> ObjectKey option" where
  "maximum_loop m tree = (if rb_right (dm_nodes m tree) \<noteq> 0 then maximum_loop m (rb_right (dm_nodes m tree)) else Some tree)"

definition maximum_at :: "('k, 'v) DMap \<Rightarrow> ObjectKey \<Rightarrow> ObjectKey option" where
  "maximum_at m tree = (if tree = 0 then Some 0 else maximum_loop m tree)"

definition DMap_minimum :: "('k, 'v) DMap \<Rightarrow> ObjectKey option" where
  "DMap_minimum m = minimum_at m (mRoot m)"

definition DMap_maximum :: "('k, 'v) DMap \<Rightarrow> ObjectKey option" where
  "DMap_maximum m = maximum_at m (mRoot m)"

partial_function (option) successor_loop :: "('k, 'v) DMap \<Rightarrow> ObjectKey \<Rightarrow> ObjectKey \<Rightarrow> ObjectKey option" where
  "successor_loop m x y =
     (if y \<noteq> 0 \<and> x = rb_right (dm_nodes m y) then successor_loop m y (rb_parent (dm_nodes m y)) else Some y)"

definition successor :: "('k, 'v) DMap \<Rightarrow> ObjectKey \<Rightarrow> ObjectKey option" where
  "successor m x =
     (if rb_right (dm_nodes m x) \<noteq> 0 then minimum_at m (rb_right (dm_nodes m x))
      else successor_loop m x (rb_parent (dm_nodes m x)))"

partial_function (option) predecessor_loop :: "('k, 'v) DMap \<Rightarrow> ObjectKey \<Rightarrow> ObjectKey \<Rightarrow> ObjectKey option" where
  "predecessor_loop m x y =
     (if y \<noteq> 0 \<and> x = rb_left (dm_nodes m y) then predecessor_loop m y (rb_parent (dm_nodes m y)) else Some y)"

definition predecessor :: "('k, 'v) DMap \<Rightarrow> ObjectKey \<Rightarrow> ObjectKey option" where
  "predecessor m x =
     (if rb_left (dm_nodes m x) \<noteq> 0 then maximum_at m (rb_left (dm_nodes m x))
      else predecessor_loop m x (rb_parent (dm_nodes m x)))"

section \<open>Insertion\<close>

text \<open>The rotations change the local \<^verbatim>\<open>root\<close> of their caller and the shared \<^verbatim>\<open>mRoot\<close>.\<close>

definition leftRotate :: "('k, 'v) DMap \<Rightarrow> ObjectKey \<Rightarrow> ObjectKey \<Rightarrow> ('k, 'v) DMap \<times> ObjectKey" where
  "leftRotate m root x =
     (let y = rb_right (dm_nodes m x);
          yv = rb_left (dm_nodes m y);
          m1 = set_right m x yv;
          yl = rb_left (dm_nodes m1 y);
          m2 = (if yl \<noteq> 0 then set_parent m1 yl x else m1);
          xv = rb_parent (dm_nodes m2 x);
          m3 = set_parent m2 y xv;
          (m4, root') = (if xv = 0 then (m3\<lparr> mRoot := y \<rparr>, y)
             else if rb_left (dm_nodes m3 xv) = x then (set_left m3 xv y, root) else (set_right m3 xv y, root));
          m5 = set_left m4 y x
      in (set_parent m5 x y, root'))"

definition rightRotate :: "('k, 'v) DMap \<Rightarrow> ObjectKey \<Rightarrow> ObjectKey \<Rightarrow> ('k, 'v) DMap \<times> ObjectKey" where
  "rightRotate m root y =
     (let x = rb_left (dm_nodes m y);
          tempv = rb_right (dm_nodes m x);
          m1 = set_left m y tempv;
          xr = rb_right (dm_nodes m1 x);
          m2 = (if xr \<noteq> 0 then set_parent m1 xr y else m1);
          yv = rb_parent (dm_nodes m2 y);
          m3 = set_parent m2 x yv;
          (m4, root') = (if yv = 0 then (m3\<lparr> mRoot := x \<rparr>, x)
             else if y = rb_right (dm_nodes m3 yv) then (set_right m3 yv x, root) else (set_left m3 yv x, root));
          m5 = set_right m4 x y
      in (set_parent m5 y x, root'))"

partial_function (option) fixup_loop :: "('k, 'v) DMap \<Rightarrow> ObjectKey \<Rightarrow> ObjectKey \<Rightarrow> (('k, 'v) DMap \<times> ObjectKey) option" where
  "fixup_loop m root node =
     (let parent = rb_parent (dm_nodes m node)
      in if parent \<noteq> 0 \<and> rb_is_red m parent
         then let gparent = rb_parent (dm_nodes m parent)
           in if parent = rb_left (dm_nodes m gparent)
              then let uncle = rb_right (dm_nodes m gparent)
                in if uncle \<noteq> 0 \<and> rb_is_red m uncle
                   then fixup_loop (set_color (set_color (set_color m uncle BLACK) parent BLACK) gparent RED) root gparent
                   else let (m1, root1, parent1, node1) =
                            (if rb_right (dm_nodes m parent) = node
                             then case leftRotate m root parent of (m', root') \<Rightarrow> (m', root', node, parent)
                             else (m, root, parent, node));
                          (m2, root2) = rightRotate (set_color (set_color m1 parent1 BLACK) gparent RED) root1 gparent
                     in fixup_loop m2 root2 node1
              else let uncle = rb_left (dm_nodes m gparent)
                in if uncle \<noteq> 0 \<and> rb_is_red m uncle
                   then fixup_loop (set_color (set_color (set_color m uncle BLACK) parent BLACK) gparent RED) root gparent
                   else let (m1, root1, parent1, node1) =
                            (if rb_left (dm_nodes m parent) = node
                             then case rightRotate m root parent of (m', root') \<Rightarrow> (m', root', node, parent)
                             else (m, root, parent, node));
                          (m2, root2) = leftRotate (set_color (set_color m1 parent1 BLACK) gparent RED) root1 gparent
                     in fixup_loop m2 root2 node1
         else Some (m, root))"

definition insertFixUp :: "('k, 'v) DMap \<Rightarrow> ObjectKey \<Rightarrow> ObjectKey \<Rightarrow> (('k, 'v) DMap \<times> ObjectKey) option" where
  "insertFixUp m root node =
     (case fixup_loop m root node of None \<Rightarrow> None | Some (m', root') \<Rightarrow> Some (set_color m' root' BLACK, root'))"

partial_function (option) insert_descend :: "('k::linorder, 'v) DMap \<Rightarrow> 'k \<Rightarrow> ObjectKey \<Rightarrow> ObjectKey \<Rightarrow> ObjectKey option" where
  "insert_descend m key y x =
     (if x \<noteq> 0
      then if key < rb_key (dm_nodes m x) then insert_descend m key x (rb_left (dm_nodes m x))
           else insert_descend m key x (rb_right (dm_nodes m x))
      else Some y)"

definition insertNode :: "('k::linorder, 'v) DMap \<Rightarrow> ObjectKey \<Rightarrow> ObjectKey \<Rightarrow> (('k, 'v) DMap \<times> ObjectKey) option" where
  "insertNode m root node =
     (case insert_descend m (rb_key (dm_nodes m node)) 0 root of
        None \<Rightarrow> None
      | Some y \<Rightarrow>
          let m1 = set_parent m node y;
              (m2, root1) = (if y \<noteq> 0
                then if rb_key (dm_nodes m1 node) < rb_key (dm_nodes m1 y) then (set_left m1 y node, root) else (set_right m1 y node, root)
                else (m1, node))
          in insertFixUp (set_color m2 node RED) root1 node)"

text \<open>\<open>z\<close> is the object \<^verbatim>\<open>NewObj\<close> has allocated.\<close>

definition DMap_insert :: "('k::linorder, 'v) DMap \<Rightarrow> ObjectKey \<Rightarrow> 'k \<Rightarrow> 'v \<Rightarrow> ('k, 'v) DMap option" where
  "DMap_insert m z key val =
     (let node = \<lparr> rb_key = key, rb_value = val, rb_color = BLACK, rb_left = 0, rb_right = 0, rb_parent = 0 \<rparr>;
          m1 = m\<lparr> dm_nodes := (dm_nodes m)(z := node) \<rparr>
      in case insertNode m1 (mRoot m1) z of
           None \<Rightarrow> None
         | Some (m2, outroot) \<Rightarrow> Some (m2\<lparr> mRoot := outroot \<rparr>))"

section \<open>Destruction\<close>

text \<open>The references whose objects are deleted.\<close>

partial_function (option) destroy_at :: "('k, 'v) DMap \<Rightarrow> ObjectKey \<Rightarrow> ObjectKey list option" where
  "destroy_at m tree =
     (if tree = 0 then Some []
      else if rb_left (dm_nodes m tree) \<noteq> 0 then destroy_at m (rb_left (dm_nodes m tree))
      else if rb_right (dm_nodes m tree) \<noteq> 0 then destroy_at m (rb_right (dm_nodes m tree))
      else Some [tree])"

definition DMap_destroy :: "('k, 'v) DMap \<Rightarrow> ObjectKey list option" where
  "DMap_destroy m = destroy_at m (mRoot m)"

declare search_at.simps [code] upperBound_at.simps [code] lowerBound_at.simps [code] minimum_loop.simps [code] maximum_loop.simps [code]
  successor_loop.simps [code] predecessor_loop.simps [code] fixup_loop.simps [code] insert_descend.simps [code] destroy_at.simps [code]

end
