(* ===== verification/Dogee_DMapTree.thy ===== *)
theory Dogee_DMapTree
  imports Dogee_DMap
begin

text \<open>
  The heap structure of the red-black tree: shapes (trees of references), contexts (a path to the root with the
  subtrees beside it), the predicates that tie them to the links of the nodes, the red-black condition, and
  the mirror image that exchanges left and right.
\<close>

section \<open>Shapes and contexts\<close>

type_synonym ('k, 'v) heap = "ObjectKey \<Rightarrow> ('k, 'v) RBTNode"

datatype shape = Lf | Br shape ObjectKey shape

datatype frame = InL ObjectKey shape | InR shape ObjectKey

primrec refs :: "shape \<Rightarrow> ObjectKey list" where
  "refs Lf = []"
| "refs (Br l x r) = refs l @ x # refs r"

fun plug :: "frame list \<Rightarrow> shape \<Rightarrow> shape" where
  "plug [] t = t"
| "plug (InL x r # c) t = plug c (Br t x r)"
| "plug (InR l x # c) t = plug c (Br l x t)"

fun ctx_pre :: "frame list \<Rightarrow> ObjectKey list" where
  "ctx_pre [] = []"
| "ctx_pre (InL x r # c) = ctx_pre c"
| "ctx_pre (InR l x # c) = ctx_pre c @ refs l @ [x]"

fun ctx_post :: "frame list \<Rightarrow> ObjectKey list" where
  "ctx_post [] = []"
| "ctx_post (InL x r # c) = x # refs r @ ctx_post c"
| "ctx_post (InR l x # c) = ctx_post c"

lemma refs_plug: "refs (plug c t) = ctx_pre c @ refs t @ ctx_post c"
  by (induction c t rule: plug.induct) simp_all

primrec tree_at :: "('k, 'v) heap \<Rightarrow> ObjectKey \<Rightarrow> ObjectKey \<Rightarrow> shape \<Rightarrow> bool" where
  "tree_at h par p Lf \<longleftrightarrow> p = 0"
| "tree_at h par p (Br l x r) \<longleftrightarrow> p = x \<and> x \<noteq> 0 \<and> rb_parent (h x) = par \<and>
     tree_at h x (rb_left (h x)) l \<and> tree_at h x (rb_right (h x)) r"

fun ctx_at :: "('k, 'v) heap \<Rightarrow> ObjectKey \<Rightarrow> ObjectKey \<Rightarrow> ObjectKey \<Rightarrow> frame list \<Rightarrow> bool" where
  "ctx_at h root p par [] \<longleftrightarrow> root = p \<and> par = 0"
| "ctx_at h root p par (InL x r # c) \<longleftrightarrow> par = x \<and> x \<noteq> 0 \<and> rb_left (h x) = p \<and>
     tree_at h x (rb_right (h x)) r \<and> ctx_at h root x (rb_parent (h x)) c"
| "ctx_at h root p par (InR l x # c) \<longleftrightarrow> par = x \<and> x \<noteq> 0 \<and> rb_right (h x) = p \<and>
     tree_at h x (rb_left (h x)) l \<and> ctx_at h root x (rb_parent (h x)) c"

lemma tree_at_plug: "tree_at h 0 root (plug c t) \<longleftrightarrow> (\<exists>p par. ctx_at h root p par c \<and> tree_at h par p t)"
  by (induction c t rule: plug.induct) auto

lemma tree_at_0 [simp]: "tree_at h par 0 t \<longleftrightarrow> t = Lf"
  by (cases t) auto

lemma tree_at_root: "tree_at h par p t \<Longrightarrow> p \<noteq> 0 \<Longrightarrow> p \<in> set (refs t)"
  by (cases t) auto

lemma tree_at_nonzero: "tree_at h par p t \<Longrightarrow> 0 \<notin> set (refs t)"
  by (induction t arbitrary: par p) auto

definition same_links :: "('k, 'v) heap \<Rightarrow> ('k, 'v) heap \<Rightarrow> ObjectKey set \<Rightarrow> bool" where
  "same_links h h' S \<longleftrightarrow> (\<forall>z \<in> S. rb_left (h' z) = rb_left (h z) \<and> rb_right (h' z) = rb_right (h z) \<and> rb_parent (h' z) = rb_parent (h z))"

lemma tree_at_same:
  assumes "tree_at h par p t" "same_links h h' (set (refs t))"
  shows "tree_at h' par p t"
  using assms by (induction t arbitrary: par p) (auto simp: same_links_def)

lemma same_links_mono: "same_links h h' S \<Longrightarrow> T \<subseteq> S \<Longrightarrow> same_links h h' T"
  by (auto simp: same_links_def)

lemma tree_at_frame:
  assumes "tree_at h par p t" "distinct (refs t)" "same_links h h' (set (refs t) - {p})"
    and "p \<noteq> 0 \<longrightarrow> rb_left (h' p) = rb_left (h p) \<and> rb_right (h' p) = rb_right (h p) \<and> rb_parent (h' p) = par'"
  shows "tree_at h' par' p t"
proof (cases t)
  case (Br l x r)
  have x: "p = x" "x \<noteq> 0" "tree_at h x (rb_left (h x)) l" "tree_at h x (rb_right (h x)) r" using assms(1) Br by auto
  have "same_links h h' (set (refs l))" "same_links h h' (set (refs r))"
    using assms(2) Br x(1) by (auto intro!: same_links_mono [OF assms(3)])
  with x show ?thesis using assms(4) Br by (auto intro: tree_at_same)
qed (use assms in auto)

lemma ctx_at_same:
  assumes "ctx_at h root p par c" "same_links h h' (set (ctx_pre c) \<union> set (ctx_post c))"
  shows "ctx_at h' root p par c"
  using assms
proof (induction c arbitrary: p par rule: ctx_pre.induct)
  case (2 x r c)
  from 2 have "ctx_at h' root x (rb_parent (h x)) c" by (auto intro: same_links_mono)
  with 2 show ?case by (auto simp: same_links_def intro!: tree_at_same [of h])
next
  case (3 l x c)
  from 3 have "ctx_at h' root x (rb_parent (h x)) c" by (auto intro: same_links_mono)
  with 3 show ?case by (auto simp: same_links_def intro!: tree_at_same [of h])
qed auto

text \<open>A context with another subtree in its hole: only the child link of the innermost node changes.\<close>

lemma ctx_at_new_hole:
  assumes "ctx_at h root p par c" "distinct (ctx_pre c @ ctx_post c)"
    and "same_links h h' (set (ctx_pre c) \<union> set (ctx_post c) - {par})"
    and "case c of [] \<Rightarrow> root' = p' | InL x r # c' \<Rightarrow> root' = root \<and> rb_left (h' x) = p' \<and> rb_right (h' x) = rb_right (h x) \<and> rb_parent (h' x) = rb_parent (h x)
      | InR l x # c' \<Rightarrow> root' = root \<and> rb_right (h' x) = p' \<and> rb_left (h' x) = rb_left (h x) \<and> rb_parent (h' x) = rb_parent (h x)"
  shows "ctx_at h' root' p' par c"
proof (cases c)
  case (Cons f c')
  show ?thesis
  proof (cases f)
    case (InL x r)
    note c = Cons InL
    have x: "par = x" "x \<notin> set (refs r)" "x \<notin> set (ctx_pre c') \<union> set (ctx_post c')" using assms(1,2) c by auto
    have "same_links h h' (set (refs r))" "same_links h h' (set (ctx_pre c') \<union> set (ctx_post c'))"
      using x by (auto intro!: same_links_mono [OF assms(3)] simp: c)
    moreover have "tree_at h x (rb_right (h x)) r" "ctx_at h root x (rb_parent (h x)) c'" using assms(1) c by simp_all
    ultimately have "tree_at h' x (rb_right (h x)) r" "ctx_at h' root x (rb_parent (h x)) c'"
      by (blast intro: tree_at_same ctx_at_same)+
    then show ?thesis using assms(1,4) c by simp
  next
    case (InR l x)
    note c = Cons InR
    have x: "par = x" "x \<notin> set (refs l)" "x \<notin> set (ctx_pre c') \<union> set (ctx_post c')" using assms(1,2) c by auto
    have "same_links h h' (set (refs l))" "same_links h h' (set (ctx_pre c') \<union> set (ctx_post c'))"
      using x by (auto intro!: same_links_mono [OF assms(3)] simp: c)
    moreover have "tree_at h x (rb_left (h x)) l" "ctx_at h root x (rb_parent (h x)) c'" using assms(1) c by simp_all
    ultimately have "tree_at h' x (rb_left (h x)) l" "ctx_at h' root x (rb_parent (h x)) c'"
      by (blast intro: tree_at_same ctx_at_same)+
    then show ?thesis using assms(1,4) c by simp
  qed
qed (use assms in auto)

lemma ctx_at_par: "ctx_at h root p par c \<Longrightarrow> par \<noteq> 0 \<Longrightarrow> par \<in> set (ctx_pre c) \<union> set (ctx_post c)"
  by (cases c rule: ctx_pre.cases) auto

section \<open>Updates\<close>

lemma dm_nodes_set [simp]:
  "dm_nodes (set_color m x c) = (dm_nodes m)(x := (dm_nodes m x)\<lparr> rb_color := c \<rparr>)"
  "dm_nodes (set_left m x p) = (dm_nodes m)(x := (dm_nodes m x)\<lparr> rb_left := p \<rparr>)"
  "dm_nodes (set_right m x p) = (dm_nodes m)(x := (dm_nodes m x)\<lparr> rb_right := p \<rparr>)"
  "dm_nodes (set_parent m x p) = (dm_nodes m)(x := (dm_nodes m x)\<lparr> rb_parent := p \<rparr>)"
  by (simp_all add: set_color_def set_left_def set_right_def set_parent_def)

definition same_data :: "('k, 'v) heap \<Rightarrow> ('k, 'v) heap \<Rightarrow> bool" where
  "same_data h h' \<longleftrightarrow> (\<forall>z. rb_key (h' z) = rb_key (h z) \<and> rb_value (h' z) = rb_value (h z))"

definition same_colors :: "('k, 'v) heap \<Rightarrow> ('k, 'v) heap \<Rightarrow> bool" where
  "same_colors h h' \<longleftrightarrow> (\<forall>z. rb_color (h' z) = rb_color (h z))"

lemma same_data_refl [simp]: "same_data h h" and same_data_trans: "same_data h h' \<Longrightarrow> same_data h' h'' \<Longrightarrow> same_data h h''"
  by (simp_all add: same_data_def)

lemma same_data_color [simp]: "same_data h (h'(x := (h' x)\<lparr> rb_color := c \<rparr>)) = same_data h h'"
  by (auto simp: same_data_def)

definition only_links :: "('k, 'v) heap \<Rightarrow> ('k, 'v) DMap \<Rightarrow> bool" where
  "only_links h m \<longleftrightarrow> same_data h (dm_nodes m) \<and> same_colors h (dm_nodes m)"

lemma only_links_set:
  "only_links h (set_left m x p) = only_links h m" "only_links h (set_right m x p) = only_links h m"
  "only_links h (set_parent m x p) = only_links h m" "only_links h (m\<lparr> mRoot := r \<rparr>) = only_links h m"
  "only_links h (if b then m1 else m2) = (if b then only_links h m1 else only_links h m2)"
  "only_links h (fst (if b then u else v)) = (if b then only_links h (fst u) else only_links h (fst v))"
  by (auto simp: only_links_def same_data_def same_colors_def)

lemma leftRotate_data:
  assumes "leftRotate m root x = (m', root')"
  shows "same_data (dm_nodes m) (dm_nodes m')" "same_colors (dm_nodes m) (dm_nodes m')"
proof -
  have "only_links (dm_nodes m) m" by (simp add: only_links_def same_colors_def)
  then have "only_links (dm_nodes m) (fst (leftRotate m root x))"
    unfolding leftRotate_def Let_def split_beta fst_conv only_links_set by simp
  then show "same_data (dm_nodes m) (dm_nodes m')" "same_colors (dm_nodes m) (dm_nodes m')"
    using assms by (simp_all add: only_links_def)
qed

text \<open>The links after a rotation.\<close>

lemma leftRotate_links:
  fixes m :: "('k, 'v) DMap"
  defines "h \<equiv> dm_nodes m"
  assumes y: "rb_right (h x) = y" and yl: "rb_left (h y) = yl" and xv: "rb_parent (h x) = xv"
    and ne: "x \<noteq> y" "yl \<noteq> x" "yl \<noteq> y" "xv \<noteq> x" "xv \<noteq> y" "xv \<noteq> 0 \<longrightarrow> xv \<noteq> yl"
    and rot: "leftRotate m root x = (m', root')"
  shows "rb_left (dm_nodes m' x) = rb_left (h x)" "rb_right (dm_nodes m' x) = yl" "rb_parent (dm_nodes m' x) = y"
    "rb_left (dm_nodes m' y) = x" "rb_right (dm_nodes m' y) = rb_right (h y)" "rb_parent (dm_nodes m' y) = xv"
    "yl \<noteq> 0 \<Longrightarrow> rb_left (dm_nodes m' yl) = rb_left (h yl)" "yl \<noteq> 0 \<Longrightarrow> rb_right (dm_nodes m' yl) = rb_right (h yl)"
    "yl \<noteq> 0 \<Longrightarrow> rb_parent (dm_nodes m' yl) = x"
    "xv \<noteq> 0 \<Longrightarrow> rb_left (dm_nodes m' xv) = (if rb_left (h xv) = x then y else rb_left (h xv))"
    "xv \<noteq> 0 \<Longrightarrow> rb_right (dm_nodes m' xv) = (if rb_left (h xv) = x then rb_right (h xv) else y)"
    "xv \<noteq> 0 \<Longrightarrow> rb_parent (dm_nodes m' xv) = rb_parent (h xv)"
    "same_links h (dm_nodes m') {z. z \<noteq> x \<and> z \<noteq> y \<and> (yl \<noteq> 0 \<longrightarrow> z \<noteq> yl) \<and> (xv \<noteq> 0 \<longrightarrow> z \<noteq> xv)}"
    "root' = (if xv = 0 then y else root)"
proof -
  have m': "m' = fst (leftRotate m root x)" "root' = snd (leftRotate m root x)" using rot by simp_all
  show "rb_left (dm_nodes m' x) = rb_left (h x)" "rb_right (dm_nodes m' x) = yl" "rb_parent (dm_nodes m' x) = y"
    "rb_left (dm_nodes m' y) = x" "rb_right (dm_nodes m' y) = rb_right (h y)" "rb_parent (dm_nodes m' y) = xv"
    "yl \<noteq> 0 \<Longrightarrow> rb_left (dm_nodes m' yl) = rb_left (h yl)" "yl \<noteq> 0 \<Longrightarrow> rb_right (dm_nodes m' yl) = rb_right (h yl)"
    "yl \<noteq> 0 \<Longrightarrow> rb_parent (dm_nodes m' yl) = x"
    "xv \<noteq> 0 \<Longrightarrow> rb_left (dm_nodes m' xv) = (if rb_left (h xv) = x then y else rb_left (h xv))"
    "xv \<noteq> 0 \<Longrightarrow> rb_right (dm_nodes m' xv) = (if rb_left (h xv) = x then rb_right (h xv) else y)"
    "xv \<noteq> 0 \<Longrightarrow> rb_parent (dm_nodes m' xv) = rb_parent (h xv)"
    "same_links h (dm_nodes m') {z. z \<noteq> x \<and> z \<noteq> y \<and> (yl \<noteq> 0 \<longrightarrow> z \<noteq> yl) \<and> (xv \<noteq> 0 \<longrightarrow> z \<noteq> xv)}"
    "root' = (if xv = 0 then y else root)"
    using y yl xv ne by (simp_all add: m' leftRotate_def Let_def h_def same_links_def split_beta) auto
qed

text \<open>A left rotation in a context.\<close>

lemma leftRotate_tree:
  assumes tree: "tree_at (dm_nodes m) 0 root (plug c (Br a x (Br b y d)))" "distinct (refs (plug c (Br a x (Br b y d))))"
    and rot: "leftRotate m root x = (m', root')"
  shows "tree_at (dm_nodes m') 0 root' (plug c (Br (Br a x b) y d))"
proof -
  let ?h = "dm_nodes m" and ?h' = "dm_nodes m'"
  obtain par where c: "ctx_at ?h root x par c" and t: "tree_at ?h par x (Br a x (Br b y d))"
    using tree(1) unfolding tree_at_plug by auto
  let ?C = "set (ctx_pre c) \<union> set (ctx_post c)" and ?yl = "rb_left (?h y)"
  have dist: "distinct (ctx_pre c @ ctx_post c)" "distinct (refs a)" "distinct (refs b)" "distinct (refs d)" "x \<noteq> y"
    "x \<notin> ?C \<union> set (refs a) \<union> set (refs b) \<union> set (refs d)" "y \<notin> ?C \<union> set (refs a) \<union> set (refs b) \<union> set (refs d)"
    "?C \<inter> (set (refs a) \<union> set (refs b) \<union> set (refs d)) = {}" "set (refs a) \<inter> set (refs b) = {}" "set (refs b) \<inter> set (refs d) = {}"
    using tree(2) unfolding refs_plug by auto
  have x: "x \<noteq> 0" "y \<noteq> 0" "rb_parent (?h x) = par" "rb_right (?h x) = y" "rb_parent (?h y) = x"
    "tree_at ?h x (rb_left (?h x)) a" "tree_at ?h y ?yl b" "tree_at ?h y (rb_right (?h y)) d"
    using t by auto
  have yl: "?yl \<noteq> 0 \<Longrightarrow> ?yl \<in> set (refs b)" by (rule tree_at_root [OF x(7)])
  have par: "par \<noteq> 0 \<Longrightarrow> par \<in> ?C" by (rule ctx_at_par [OF c])
  have ne: "?yl \<noteq> x" "?yl \<noteq> y" "par \<noteq> x" "par \<noteq> y" "par \<noteq> 0 \<longrightarrow> par \<noteq> ?yl"
    using yl par dist(6-8) x(1,2) by (metis Un_iff, metis Un_iff, metis Un_iff, metis Un_iff, force)
  note links = leftRotate_links [OF x(4) refl x(3) dist(5) ne rot]
  let ?S = "{z. z \<noteq> x \<and> z \<noteq> y \<and> (?yl \<noteq> 0 \<longrightarrow> z \<noteq> ?yl) \<and> (par \<noteq> 0 \<longrightarrow> z \<noteq> par)}"
  have Sa: "set (refs a) \<subseteq> ?S" and Sd: "set (refs d) \<subseteq> ?S" and Sb: "set (refs b) - {?yl} \<subseteq> ?S" and SC: "?C - {par} \<subseteq> ?S"
    using yl par dist(6-10) by blast+
  have "tree_at ?h' x (rb_left (?h x)) a" by (rule tree_at_same [OF x(6) same_links_mono [OF links(13) Sa]])
  moreover have "tree_at ?h' y (rb_right (?h y)) d" by (rule tree_at_same [OF x(8) same_links_mono [OF links(13) Sd]])
  moreover have "tree_at ?h' x ?yl b"
    by (rule tree_at_frame [OF x(7) dist(3) same_links_mono [OF links(13) Sb]]) (use links(7-9) in blast)
  ultimately have "tree_at ?h' par y (Br (Br a x b) y d)" using links(1-6) x(1,2) by simp
  moreover have "ctx_at ?h' root' y par c"
  proof (rule ctx_at_new_hole [OF c dist(1) same_links_mono [OF links(13) SC]])
    show "case c of [] \<Rightarrow> root' = y | InL z r # c' \<Rightarrow> root' = root \<and> rb_left (?h' z) = y \<and> rb_right (?h' z) = rb_right (?h z) \<and> rb_parent (?h' z) = rb_parent (?h z)
      | InR l z # c' \<Rightarrow> root' = root \<and> rb_right (?h' z) = y \<and> rb_left (?h' z) = rb_left (?h z) \<and> rb_parent (?h' z) = rb_parent (?h z)"
    proof (cases c rule: ctx_pre.cases)
      case (3 l z c')
      have z: "par = z" "z \<noteq> 0" "tree_at ?h z (rb_left (?h z)) l" using c 3 by auto
      have "rb_left (?h z) \<noteq> x" using tree_at_root [OF z(3)] dist(6) x(1) 3 by auto
      then show ?thesis using 3 z links(10-12,14) by simp
    qed (use c links(10-12,14) in auto)
  qed
  ultimately show ?thesis unfolding tree_at_plug by blast
qed

end
