(* ===== verification/Dogee_DMapInsert.thy ===== *)
theory Dogee_DMapInsert
  imports Dogee_DMapTree
begin

text \<open>
  The insertion: the red-black condition on shapes and contexts, the loop of \<^verbatim>\<open>insertFixUp\<close> and the
  descent of \<^verbatim>\<open>insertNode\<close>.
\<close>

section \<open>The red-black condition\<close>

primrec is_black :: "('k, 'v) heap \<Rightarrow> shape \<Rightarrow> bool" where
  "is_black h Lf \<longleftrightarrow> True"
| "is_black h (Br l x r) \<longleftrightarrow> rb_color (h x) = BLACK"

text \<open>\<open>n\<close> black nodes on every path, and no red node with a red child.\<close>

primrec rb_ok :: "('k, 'v) heap \<Rightarrow> shape \<Rightarrow> nat \<Rightarrow> bool" where
  "rb_ok h Lf n \<longleftrightarrow> n = 0"
| "rb_ok h (Br l x r) n \<longleftrightarrow>
     (if rb_color (h x) = RED then is_black h l \<and> is_black h r \<and> rb_ok h l n \<and> rb_ok h r n
      else 0 < n \<and> rb_ok h l (n - 1) \<and> rb_ok h r (n - 1))"

fun top_color :: "('k, 'v) heap \<Rightarrow> frame list \<Rightarrow> RBTColor" where
  "top_color h [] = BLACK"
| "top_color h (InL x r # c) = rb_color (h x)"
| "top_color h (InR l x # c) = rb_color (h x)"

fun ctx_ok :: "('k, 'v) heap \<Rightarrow> frame list \<Rightarrow> nat \<Rightarrow> bool" where
  "ctx_ok h [] n \<longleftrightarrow> True"
| "ctx_ok h (InL x s # c) n \<longleftrightarrow> rb_ok h s n \<and>
     (if rb_color (h x) = RED then is_black h s \<and> c \<noteq> [] \<and> top_color h c = BLACK \<and> ctx_ok h c n else ctx_ok h c (Suc n))"
| "ctx_ok h (InR s x # c) n \<longleftrightarrow> rb_ok h s n \<and>
     (if rb_color (h x) = RED then is_black h s \<and> c \<noteq> [] \<and> top_color h c = BLACK \<and> ctx_ok h c n else ctx_ok h c (Suc n))"

lemma not_RED [simp]: "c \<noteq> RED \<longleftrightarrow> c = BLACK" and not_BLACK [simp]: "c \<noteq> BLACK \<longleftrightarrow> c = RED"
  by (cases c; simp)+

lemma rb_plug:
  "rb_ok h t n \<Longrightarrow> ctx_ok h c n \<Longrightarrow> top_color h c = RED \<longrightarrow> is_black h t \<Longrightarrow> \<exists>N. rb_ok h (plug c t) N"
proof (induction c t arbitrary: n rule: plug.induct)
  case (2 x s c t)
  show ?case
  proof (cases "rb_color (h x)")
    case RED
    with 2 show ?thesis by (simp, intro "2.IH" [of n]) auto
  next
    case BLACK
    with 2 show ?thesis by (simp, intro "2.IH" [of "Suc n"]) auto
  qed
next
  case (3 s x c t)
  show ?case
  proof (cases "rb_color (h x)")
    case RED
    with 3 show ?thesis by (simp, intro "3.IH" [of n]) auto
  next
    case BLACK
    with 3 show ?thesis by (simp, intro "3.IH" [of "Suc n"]) auto
  qed
qed auto

lemma rb_unplug:
  "rb_ok h (plug c t) N \<Longrightarrow> is_black h (plug c t) \<Longrightarrow> \<exists>n. rb_ok h t n \<and> ctx_ok h c n \<and> (top_color h c = RED \<longrightarrow> is_black h t)"
proof (induction c t arbitrary: N rule: plug.induct)
  case (2 x s c t)
  from "2.IH" "2.prems" obtain n where n: "rb_ok h (Br t x s) n" "ctx_ok h c n" "top_color h c = RED \<longrightarrow> rb_color (h x) = BLACK" by auto
  have c: "rb_color (h x) = RED \<longrightarrow> c \<noteq> []" using "2.prems"(2) by auto
  show ?case
  proof (cases "rb_color (h x)")
    case RED
    with n c show ?thesis by (intro exI [of _ n]) (cases "top_color h c"; auto)
  next
    case BLACK
    with n show ?thesis by (intro exI [of _ "n - 1"]) auto
  qed
next
  case (3 s x c t)
  from "3.IH" "3.prems" obtain n where n: "rb_ok h (Br s x t) n" "ctx_ok h c n" "top_color h c = RED \<longrightarrow> rb_color (h x) = BLACK" by auto
  have c: "rb_color (h x) = RED \<longrightarrow> c \<noteq> []" using "3.prems"(2) by auto
  show ?case
  proof (cases "rb_color (h x)")
    case RED
    with n c show ?thesis by (intro exI [of _ n]) (cases "top_color h c"; auto)
  next
    case BLACK
    with n show ?thesis by (intro exI [of _ "n - 1"]) auto
  qed
qed auto

definition colors_on :: "('k, 'v) heap \<Rightarrow> ('k, 'v) heap \<Rightarrow> ObjectKey set \<Rightarrow> bool" where
  "colors_on h h' S \<longleftrightarrow> (\<forall>z \<in> S. rb_color (h' z) = rb_color (h z))"

lemma is_black_cong: "colors_on h h' (set (refs t)) \<Longrightarrow> is_black h' t = is_black h t"
  by (cases t) (auto simp: colors_on_def)

lemma rb_ok_cong: "colors_on h h' (set (refs t)) \<Longrightarrow> rb_ok h' t n = rb_ok h t n"
proof (induction t arbitrary: n)
  case (Br l x r)
  then have "colors_on h h' (set (refs l))" "colors_on h h' (set (refs r))" "rb_color (h' x) = rb_color (h x)"
    by (auto simp: colors_on_def)
  with Br.IH show ?case by (simp add: is_black_cong)
qed simp

lemma top_color_cong: "colors_on h h' (set (ctx_pre c) \<union> set (ctx_post c)) \<Longrightarrow> top_color h' c = top_color h c"
  by (cases c rule: ctx_pre.cases) (auto simp: colors_on_def)

lemma ctx_ok_cong: "colors_on h h' (set (ctx_pre c) \<union> set (ctx_post c)) \<Longrightarrow> ctx_ok h' c n = ctx_ok h c n"
proof (induction c arbitrary: n rule: ctx_pre.induct)
  case (2 x s c)
  then have "colors_on h h' (set (ctx_pre c) \<union> set (ctx_post c))" "colors_on h h' (set (refs s))" "rb_color (h' x) = rb_color (h x)"
    by (auto simp: colors_on_def)
  with "2.IH" show ?case by (simp add: is_black_cong rb_ok_cong top_color_cong)
next
  case (3 s x c)
  then have "colors_on h h' (set (ctx_pre c) \<union> set (ctx_post c))" "colors_on h h' (set (refs s))" "rb_color (h' x) = rb_color (h x)"
    by (auto simp: colors_on_def)
  with "3.IH" show ?case by (simp add: is_black_cong rb_ok_cong top_color_cong)
qed simp

lemma same_colors_on: "same_colors h h' \<Longrightarrow> colors_on h h' S"
  by (simp add: same_colors_def colors_on_def)

section \<open>The mirror image\<close>

definition flip_node :: "('k, 'v) RBTNode \<Rightarrow> ('k, 'v) RBTNode" where
  "flip_node nd = nd\<lparr> rb_left := rb_right nd, rb_right := rb_left nd \<rparr>"

definition mirror :: "('k, 'v) DMap \<Rightarrow> ('k, 'v) DMap" where
  "mirror m = m\<lparr> dm_nodes := (\<lambda>z. flip_node (dm_nodes m z)) \<rparr>"

primrec flip :: "shape \<Rightarrow> shape" where
  "flip Lf = Lf"
| "flip (Br l x r) = Br (flip r) x (flip l)"

primrec flip_frame :: "frame \<Rightarrow> frame" where
  "flip_frame (InL x s) = InR (flip s) x"
| "flip_frame (InR s x) = InL x (flip s)"

abbreviation "flip_ctx \<equiv> map flip_frame"

lemma flip_node_sel [simp]:
  "rb_left (flip_node nd) = rb_right nd" "rb_right (flip_node nd) = rb_left nd" "rb_parent (flip_node nd) = rb_parent nd"
  "rb_color (flip_node nd) = rb_color nd" "rb_key (flip_node nd) = rb_key nd" "rb_value (flip_node nd) = rb_value nd"
  by (simp_all add: flip_node_def)

lemma dm_nodes_mirror [simp]: "dm_nodes (mirror m) z = flip_node (dm_nodes m z)"
  by (simp add: mirror_def)

lemma mirror_mirror [simp]: "mirror (mirror m) = m"
  by (simp add: mirror_def flip_node_def)

lemma flip_flip [simp]: "flip (flip t) = t"
  by (induction t) simp_all

lemma flip_frame_flip [simp]: "flip_frame (flip_frame f) = f"
  by (cases f) simp_all

lemma flip_ctx_flip [simp]: "flip_ctx (flip_ctx c) = c"
  by (induction c) simp_all

lemma refs_flip: "refs (flip t) = rev (refs t)"
  by (induction t) simp_all

lemma flip_plug: "plug (flip_ctx c) (flip t) = flip (plug c t)"
  by (induction c t rule: plug.induct) simp_all

lemma mirror_tree [simp]: "tree_at (dm_nodes (mirror m)) par p (flip t) = tree_at (dm_nodes m) par p t"
  by (induction t arbitrary: par p) auto

lemma mirror_black [simp]: "is_black (dm_nodes (mirror m)) (flip t) = is_black (dm_nodes m) t"
  by (cases t) simp_all

lemma mirror_rb [simp]: "rb_ok (dm_nodes (mirror m)) (flip t) n = rb_ok (dm_nodes m) t n"
  by (induction t arbitrary: n) auto

lemma mirror_top [simp]: "top_color (dm_nodes (mirror m)) (flip_ctx c) = top_color (dm_nodes m) c"
  by (cases c rule: ctx_pre.cases) simp_all

lemma mirror_ctx [simp]: "ctx_ok (dm_nodes (mirror m)) (flip_ctx c) n = ctx_ok (dm_nodes m) c n"
  by (induction c arbitrary: n rule: ctx_pre.induct) simp_all

lemma mirror_set:
  "mirror (set_color m x c) = set_color (mirror m) x c" "mirror (set_left m x p) = set_right (mirror m) x p"
  "mirror (set_right m x p) = set_left (mirror m) x p" "mirror (set_parent m x p) = set_parent (mirror m) x p"
  "mirror (m\<lparr> mRoot := r \<rparr>) = (mirror m)\<lparr> mRoot := r \<rparr>" "mirror (if b then m1 else m2) = (if b then mirror m1 else mirror m2)"
  by (auto simp: mirror_def set_color_def set_left_def set_right_def set_parent_def flip_node_def fun_eq_iff)

lemma rightRotate_mirror: "rightRotate m root y = map_prod mirror id (leftRotate (mirror m) root y)"
proof -
  have if_pair: "map_prod mirror id (if b then u else v) = (if b then map_prod mirror id u else map_prod mirror id v)" for b u v
    by simp
  show ?thesis
    unfolding leftRotate_def rightRotate_def Let_def split_beta
    by (simp add: if_pair eq_commute [of y] del: dm_nodes_set flip: mirror_set)
qed

lemma leftRotate_mirror: "leftRotate m root x = map_prod mirror id (rightRotate (mirror m) root x)"
  by (cases "leftRotate m root x") (simp add: rightRotate_mirror)

lemma rightRotate_data:
  assumes "rightRotate m root x = (m', root')"
  shows "same_data (dm_nodes m) (dm_nodes m')" "same_colors (dm_nodes m) (dm_nodes m')"
proof -
  obtain m1 where m1: "leftRotate (mirror m) root x = (m1, root')" "m' = mirror m1"
    using assms by (cases "leftRotate (mirror m) root x") (simp add: rightRotate_mirror)
  show "same_data (dm_nodes m) (dm_nodes m')" "same_colors (dm_nodes m) (dm_nodes m')"
    using leftRotate_data [OF m1(1)] by (simp_all add: m1(2) same_data_def same_colors_def)
qed

lemma rightRotate_tree:
  assumes "tree_at (dm_nodes m) 0 root (plug c (Br (Br a x b) y d))" "distinct (refs (plug c (Br (Br a x b) y d)))"
    and "rightRotate m root y = (m', root')"
  shows "tree_at (dm_nodes m') 0 root' (plug c (Br a x (Br b y d)))"
proof -
  obtain m1 where m1: "leftRotate (mirror m) root y = (m1, root')" "m' = mirror m1"
    using assms(3) by (cases "leftRotate (mirror m) root y") (simp add: rightRotate_mirror)
  have fl: "plug (flip_ctx c) (Br (flip d) y (Br (flip b) x (flip a))) = flip (plug c (Br (Br a x b) y d))"
    "flip (plug (flip_ctx c) (Br (Br (flip d) y (flip b)) x (flip a))) = plug c (Br a x (Br b y d))"
    using flip_plug [of c "Br (Br a x b) y d"] flip_plug [of c "Br a x (Br b y d)"] by simp_all
  have "tree_at (dm_nodes m1) 0 root' (plug (flip_ctx c) (Br (Br (flip d) y (flip b)) x (flip a)))"
    by (rule leftRotate_tree [OF _ _ m1(1)]) (use assms(1,2) in \<open>simp_all add: fl(1) refs_flip\<close>)
  then show ?thesis unfolding m1(2) by (subst fl(2) [symmetric]) simp
qed

section \<open>The loop of insertFixUp\<close>

definition left_step :: "('k, 'v) DMap \<Rightarrow> ObjectKey \<Rightarrow> ObjectKey \<Rightarrow> ('k, 'v) DMap \<times> ObjectKey \<times> ObjectKey" where
  "left_step m root node =
     (let parent = rb_parent (dm_nodes m node); gparent = rb_parent (dm_nodes m parent); uncle = rb_right (dm_nodes m gparent)
      in if uncle \<noteq> 0 \<and> rb_is_red m uncle
         then (set_color (set_color (set_color m uncle BLACK) parent BLACK) gparent RED, root, gparent)
         else let (m1, root1, parent1, node1) =
                  (if rb_right (dm_nodes m parent) = node
                   then case leftRotate m root parent of (m', root') \<Rightarrow> (m', root', node, parent)
                   else (m, root, parent, node));
                (m2, root2) = rightRotate (set_color (set_color m1 parent1 BLACK) gparent RED) root1 gparent
              in (m2, root2, node1))"

definition right_step :: "('k, 'v) DMap \<Rightarrow> ObjectKey \<Rightarrow> ObjectKey \<Rightarrow> ('k, 'v) DMap \<times> ObjectKey \<times> ObjectKey" where
  "right_step m root node = map_prod mirror id (left_step (mirror m) root node)"

lemma fixup_loop_step:
  "fixup_loop m root node =
     (let parent = rb_parent (dm_nodes m node)
      in if parent \<noteq> 0 \<and> rb_is_red m parent
         then case (if parent = rb_left (dm_nodes m (rb_parent (dm_nodes m parent))) then left_step m root node else right_step m root node) of
                (m', root', node') \<Rightarrow> fixup_loop m' root' node'
         else Some (m, root))"
proof -
  have red: "rb_is_red (mirror m) x = rb_is_red m x" for x by (simp add: rb_is_red_def)
  have md: "map_prod mirror id (if b then u else v) = (if b then map_prod mirror id u else map_prod mirror id v)" for b u v
    by simp
  have rot: "leftRotate m' r x = (mirror (fst (rightRotate (mirror m') r x)), snd (rightRotate (mirror m') r x))"
    "rightRotate m' r x = (mirror (fst (leftRotate (mirror m') r x)), snd (leftRotate (mirror m') r x))" for m' :: "('a, 'b) DMap" and r x
    by (simp_all add: leftRotate_mirror [of m'] rightRotate_mirror [of m'] prod_eq_iff)
  show ?thesis
    apply (subst fixup_loop.simps)
    apply (simp only: Let_def red right_step_def left_step_def split_beta)
    apply (simp add: red split_beta rot(2) [of m] rot(2) [of "set_color m' x c" for m' x c] mirror_set del: dm_nodes_set)
    done
qed

text \<open>
  Between two rounds: the only violation is that the red \<open>node\<close> may have a red parent. \<open>c\<close> is the
  context of \<open>node\<close>, \<open>l\<close> and \<open>r\<close> are its subtrees.
\<close>

definition fix_inv :: "('k, 'v) DMap \<Rightarrow> ObjectKey \<Rightarrow> ObjectKey \<Rightarrow> frame list \<Rightarrow> shape \<Rightarrow> shape \<Rightarrow> nat \<Rightarrow> bool" where
  "fix_inv m root node c l r n \<longleftrightarrow>
     tree_at (dm_nodes m) 0 root (plug c (Br l node r)) \<and> distinct (refs (plug c (Br l node r))) \<and>
     rb_color (dm_nodes m node) = RED \<and> is_black (dm_nodes m) l \<and> is_black (dm_nodes m) r \<and>
     rb_ok (dm_nodes m) l n \<and> rb_ok (dm_nodes m) r n \<and> ctx_ok (dm_nodes m) c n"

lemma fix_inv_mirror: "fix_inv (mirror m) root node (flip_ctx c) (flip r) (flip l) n = fix_inv m root node c l r n"
proof -
  have "plug (flip_ctx c) (Br (flip r) node (flip l)) = flip (plug c (Br l node r))" using flip_plug [of c "Br l node r"] by simp
  then show ?thesis by (auto simp: fix_inv_def refs_flip)
qed

definition step_ok :: "('k, 'v) DMap \<Rightarrow> frame list \<Rightarrow> ObjectKey list \<Rightarrow> ('k, 'v) DMap \<Rightarrow> ObjectKey \<Rightarrow> ObjectKey \<Rightarrow> bool" where
  "step_ok m c zs m' root' node' \<longleftrightarrow> same_data (dm_nodes m) (dm_nodes m') \<and>
     (\<exists>c' l' r' n'. fix_inv m' root' node' c' l' r' n' \<and> refs (plug c' (Br l' node' r')) = zs \<and>
        (length c' < length c \<or> top_color (dm_nodes m') c' = BLACK))"

lemma tree_at_colors: "same_links h h' (set (refs t)) \<Longrightarrow> tree_at h par p t \<Longrightarrow> tree_at h' par p t"
  by (rule tree_at_same)

text \<open>The node, its parent, its grandparent and its uncle.\<close>

lemma fix_inv_family:
  assumes inv: "fix_inv m root node (f # InL g u # c) l r n" and f: "f = InL p s \<or> f = InR s p" and red: "rb_color (dm_nodes m p) = RED"
  shows "node \<noteq> 0" "p \<noteq> 0" "g \<noteq> 0" "rb_parent (dm_nodes m node) = p" "rb_parent (dm_nodes m p) = g" "rb_left (dm_nodes m g) = p"
    "tree_at (dm_nodes m) g (rb_right (dm_nodes m g)) u" "(rb_right (dm_nodes m p) = node) = (f = InR s p)"
    "rb_color (dm_nodes m g) = BLACK" "rb_ok (dm_nodes m) s n" "is_black (dm_nodes m) s" "rb_ok (dm_nodes m) u n" "ctx_ok (dm_nodes m) c (Suc n)"
    "distinct [node, p, g]" "{node, p, g} \<inter> (set (refs l) \<union> set (refs r) \<union> set (refs s) \<union> set (refs u) \<union> set (ctx_pre c) \<union> set (ctx_post c)) = {}"
    "set (refs u) \<inter> (set (refs l) \<union> set (refs r) \<union> set (refs s) \<union> set (ctx_pre c) \<union> set (ctx_post c)) = {}"
proof -
  let ?h = "dm_nodes m"
  obtain q par where t: "ctx_at ?h root q par (f # InL g u # c)" "tree_at ?h par q (Br l node r)"
    using inv unfolding fix_inv_def tree_at_plug by blast
  show "node \<noteq> 0" "p \<noteq> 0" "g \<noteq> 0" "rb_parent (?h node) = p" "rb_parent (?h p) = g" "rb_left (?h g) = p" "tree_at ?h g (rb_right (?h g)) u"
    using t f by auto
  show d: "distinct [node, p, g]" "{node, p, g} \<inter> (set (refs l) \<union> set (refs r) \<union> set (refs s) \<union> set (refs u) \<union> set (ctx_pre c) \<union> set (ctx_post c)) = {}"
    "set (refs u) \<inter> (set (refs l) \<union> set (refs r) \<union> set (refs s) \<union> set (ctx_pre c) \<union> set (ctx_post c)) = {}"
    using inv f unfolding fix_inv_def refs_plug by auto
  show "rb_color (?h g) = BLACK" "rb_ok ?h s n" "is_black ?h s" "rb_ok ?h u n" "ctx_ok ?h c (Suc n)"
    using inv f red unfolding fix_inv_def by auto
  show "(rb_right (?h p) = node) = (f = InR s p)"
  proof (cases "f = InR s p")
    case False
    then have "f = InL p s" using f by simp
    then have "tree_at ?h p (rb_right (?h p)) s" using t by simp
    then have "rb_right (?h p) \<noteq> node" using tree_at_root [of ?h p "rb_right (?h p)" s] d(2) \<open>node \<noteq> 0\<close> by auto
    then show ?thesis using False by simp
  qed (use t in auto)
qed

lemmas color_cong = is_black_cong rb_ok_cong ctx_ok_cong top_color_cong

lemma left_step_uncle_red:
  assumes inv: "fix_inv m root node (f # InL g u # c) l r n" and f: "f = InL p s \<or> f = InR s p" and red: "rb_color (dm_nodes m p) = RED"
    and w: "rb_right (dm_nodes m g) = w" "w \<noteq> 0" "rb_color (dm_nodes m w) = RED"
  shows "step_ok m (f # InL g u # c) (refs (plug (f # InL g u # c) (Br l node r)))
    (set_color (set_color (set_color m w BLACK) p BLACK) g RED) root g"
proof -
  note fam = fix_inv_family [OF inv f red]
  let ?h = "dm_nodes m" and ?m = "set_color (set_color (set_color m w BLACK) p BLACK) g RED"
  let ?h' = "dm_nodes ?m" and ?L = "plug [f] (Br l node r)"
  obtain ul ur where u: "u = Br ul w ur" using fam(7) w(1,2) by (cases u) auto
  have "distinct (refs u)" using inv unfolding fix_inv_def refs_plug by (cases f) auto
  then have wu: "w \<notin> set (refs ul)" "w \<notin> set (refs ur)" "w \<in> set (refs u)" using u by auto
  have d: "w \<notin> {node, p, g}" using fam(15) wu(3) by auto
  have cols: "colors_on ?h ?h' (set (refs l))" "colors_on ?h ?h' (set (refs r))" "colors_on ?h ?h' (set (refs s))"
    "colors_on ?h ?h' (set (refs ul))" "colors_on ?h ?h' (set (refs ur))" "colors_on ?h ?h' (set (ctx_pre c) \<union> set (ctx_post c))"
    using fam(15,16) wu u by (auto simp: colors_on_def)
  have col: "rb_color (?h' node) = RED" "rb_color (?h' p) = BLACK" "rb_color (?h' g) = RED" "rb_color (?h' w) = BLACK"
    using fam(14) d inv by (auto simp: fix_inv_def)
  have pl: "plug (f # InL g u # c) (Br l node r) = plug c (Br ?L g u)" by (cases f) simp_all
  have "same_links ?h ?h' (set (refs (plug c (Br ?L g u))))" by (auto simp: same_links_def)
  with inv have "tree_at ?h' 0 root (plug c (Br ?L g u))" unfolding fix_inv_def pl by (blast intro: tree_at_same)
  moreover have "rb_ok ?h' ?L (Suc n)" "is_black ?h' ?L"
    using inv f col fam(10) cols by (auto simp: fix_inv_def color_cong)
  moreover have "rb_ok ?h' u (Suc n)" "is_black ?h' u" using fam(12) u w(3) col cols by (auto simp: color_cong)
  moreover have "ctx_ok ?h' c (Suc n)" using fam(13) cols by (simp add: color_cong)
  moreover have "distinct (refs (plug c (Br ?L g u)))" using inv unfolding fix_inv_def pl by blast
  ultimately have "fix_inv ?m root g c ?L u (Suc n)" using col unfolding fix_inv_def by blast
  moreover have "same_data ?h ?h'" by (auto simp: same_data_def)
  ultimately show ?thesis unfolding step_ok_def pl by force
qed

text \<open>The last rotation, with the red node on the outside.\<close>

lemma left_step_rotate:
  assumes tree: "tree_at (dm_nodes m) 0 root (plug c (Br (Br (Br l node r) p s) g u))" "distinct (refs (plug c (Br (Br (Br l node r) p s) g u)))"
    and col: "rb_color (dm_nodes m node) = RED" and ok: "is_black (dm_nodes m) l" "is_black (dm_nodes m) r" "is_black (dm_nodes m) s" "is_black (dm_nodes m) u"
    "rb_ok (dm_nodes m) l n" "rb_ok (dm_nodes m) r n" "rb_ok (dm_nodes m) s n" "rb_ok (dm_nodes m) u n" "ctx_ok (dm_nodes m) c (Suc n)"
    and rot: "rightRotate (set_color (set_color m p BLACK) g RED) root g = (m', root')"
  shows "same_data (dm_nodes m) (dm_nodes m') \<and> fix_inv m' root' node (InL p (Br s g u) # c) l r n \<and>
    refs (plug (InL p (Br s g u) # c) (Br l node r)) = refs (plug c (Br (Br (Br l node r) p s) g u)) \<and>
    top_color (dm_nodes m') (InL p (Br s g u) # c) = BLACK"
proof -
  let ?h = "dm_nodes m" and ?m = "set_color (set_color m p BLACK) g RED" and ?h' = "dm_nodes m'"
  note data = rightRotate_data [OF rot]
  have d: "distinct [node, p, g]"
    "{node, p, g} \<inter> (set (refs l) \<union> set (refs r) \<union> set (refs s) \<union> set (refs u) \<union> set (ctx_pre c) \<union> set (ctx_post c)) = {}"
    using tree(2) unfolding refs_plug by auto
  have sc: "rb_color (?h' z) = rb_color (dm_nodes ?m z)" for z using data(2) by (simp add: same_colors_def)
  have colors: "rb_color (?h' node) = RED" "rb_color (?h' p) = BLACK" "rb_color (?h' g) = RED" unfolding sc using d(1) col by auto
  have cols: "colors_on ?h ?h' (set (refs l))" "colors_on ?h ?h' (set (refs r))" "colors_on ?h ?h' (set (refs s))"
    "colors_on ?h ?h' (set (refs u))" "colors_on ?h ?h' (set (ctx_pre c) \<union> set (ctx_post c))"
    unfolding colors_on_def sc using d(2) by auto
  have "same_links ?h (dm_nodes ?m) (set (refs (plug c (Br (Br (Br l node r) p s) g u))))" by (auto simp: same_links_def)
  with tree(1) have "tree_at (dm_nodes ?m) 0 root (plug c (Br (Br (Br l node r) p s) g u))" by (rule tree_at_same)
  from rightRotate_tree [OF this tree(2) rot] have "tree_at ?h' 0 root' (plug (InL p (Br s g u) # c) (Br l node r))" by simp
  moreover have re: "refs (plug (InL p (Br s g u) # c) (Br l node r)) = refs (plug c (Br (Br (Br l node r) p s) g u))" by (simp add: refs_plug)
  moreover have "ctx_ok ?h' (InL p (Br s g u) # c) n" using colors cols ok by (simp add: color_cong)
  moreover have "is_black ?h' l" "is_black ?h' r" "rb_ok ?h' l n" "rb_ok ?h' r n" using cols ok by (simp_all add: color_cong)
  moreover have "same_data ?h ?h'" using data(1) by (rule same_data_trans [rotated]) (auto simp: same_data_def)
  ultimately show ?thesis using colors tree(2) unfolding fix_inv_def by simp
qed

lemma left_step_ok:
  assumes inv: "fix_inv m root node (f # InL g u # c) l r n" and f: "f = InL p s \<or> f = InR s p" and red: "rb_color (dm_nodes m p) = RED"
    and step: "left_step m root node = (m', root', node')"
  shows "step_ok m (f # InL g u # c) (refs (plug (f # InL g u # c) (Br l node r))) m' root' node'"
proof -
  note fam = fix_inv_family [OF inv f red]
  let ?h = "dm_nodes m" and ?w = "rb_right (dm_nodes m g)"
  note i = inv [unfolded fix_inv_def]
  show ?thesis
  proof (cases "?w \<noteq> 0 \<and> rb_is_red m ?w")
    case True
    then have "m' = set_color (set_color (set_color m ?w BLACK) p BLACK) g RED" "root' = root" "node' = g"
      using step fam(4,5) by (auto simp: left_step_def Let_def)
    then show ?thesis using left_step_uncle_red [OF inv f red refl] True by (simp add: rb_is_red_def)
  next
    case False
    have bu: "is_black ?h u" using fam(7) False by (cases u) (auto simp: rb_is_red_def)
    show ?thesis
    proof (cases "f = InR s p")
      case False
      then have f: "f = InL p s" using f by simp
      have step': "rightRotate (set_color (set_color m p BLACK) g RED) root g = (m', root')" "node' = node"
        using step fam(4,5,8) False \<open>\<not> (?w \<noteq> 0 \<and> rb_is_red m ?w)\<close> by (auto simp: left_step_def Let_def split_beta prod_eq_iff)
      have "tree_at ?h 0 root (plug c (Br (Br (Br l node r) p s) g u))" "distinct (refs (plug c (Br (Br (Br l node r) p s) g u)))"
        using i f by simp_all
      from left_step_rotate [OF this _ _ _ fam(11) bu _ _ fam(10,12,13) step'(1)] i
      have *: "same_data ?h (dm_nodes m') \<and> fix_inv m' root' node (InL p (Br s g u) # c) l r n \<and>
          refs (plug (InL p (Br s g u) # c) (Br l node r)) = refs (plug c (Br (Br (Br l node r) p s) g u)) \<and>
          top_color (dm_nodes m') (InL p (Br s g u) # c) = BLACK"
        by blast
      have "refs (plug (f # InL g u # c) (Br l node r)) = refs (plug c (Br (Br (Br l node r) p s) g u))" using f by simp
      with * show ?thesis unfolding step_ok_def step'(2) by metis
    next
      case True
      obtain m1 root1 where m1: "leftRotate m root p = (m1, root1)" by fastforce
      have step': "rightRotate (set_color (set_color m1 node BLACK) g RED) root1 g = (m', root')" "node' = p"
        using step fam(4,5,8) True m1 \<open>\<not> (?w \<noteq> 0 \<and> rb_is_red m ?w)\<close> by (auto simp: left_step_def Let_def split_beta prod_eq_iff)
      have "tree_at ?h 0 root (plug (InL g u # c) (Br s p (Br l node r)))" "distinct (refs (plug (InL g u # c) (Br s p (Br l node r))))"
        using i True by simp_all
      from leftRotate_tree [OF this m1]
      have t1: "tree_at (dm_nodes m1) 0 root1 (plug c (Br (Br (Br s p l) node r) g u))" by simp
      have re: "refs (plug c (Br (Br (Br s p l) node r) g u)) = refs (plug (f # InL g u # c) (Br l node r))" using True by (simp add: refs_plug)
      have d1: "distinct (refs (plug c (Br (Br (Br s p l) node r) g u)))" unfolding re using i by blast
      note data = leftRotate_data [OF m1]
      have co: "colors_on ?h (dm_nodes m1) S" for S using data(2) by (rule same_colors_on)
      have rp: "rb_color (dm_nodes m1 p) = RED" using red data(2) by (simp add: same_colors_def)
      from left_step_rotate [OF t1 d1 rp _ _ _ _ _ _ _ _ _ step'(1), of n] i fam(10-13) bu
      have *: "same_data (dm_nodes m1) (dm_nodes m') \<and> fix_inv m' root' p (InL node (Br r g u) # c) s l n \<and>
          refs (plug (InL node (Br r g u) # c) (Br s p l)) = refs (plug c (Br (Br (Br s p l) node r) g u)) \<and>
          top_color (dm_nodes m') (InL node (Br r g u) # c) = BLACK"
        by (simp add: color_cong [OF co])
      then have "same_data ?h (dm_nodes m')" using data(1) same_data_trans by blast
      with * show ?thesis unfolding step_ok_def step'(2) re by blast
    qed
  qed
qed

lemma step_ok_mirror: "step_ok (mirror m) (flip_ctx c) (rev zs) m' root' node' \<Longrightarrow> step_ok m c zs (mirror m') root' node'"
proof -
  assume "step_ok (mirror m) (flip_ctx c) (rev zs) m' root' node'"
  then obtain c' l' r' n' where s: "same_data (dm_nodes (mirror m)) (dm_nodes m')" "fix_inv m' root' node' c' l' r' n'"
      "refs (plug c' (Br l' node' r')) = rev zs" "length c' < length c \<or> top_color (dm_nodes m') c' = BLACK"
    unfolding step_ok_def by auto
  have "plug (flip_ctx c') (Br (flip r') node' (flip l')) = flip (plug c' (Br l' node' r'))" using flip_plug [of c' "Br l' node' r'"] by simp
  then have "refs (plug (flip_ctx c') (Br (flip r') node' (flip l'))) = zs" using s(3) by (simp add: refs_flip)
  moreover have "fix_inv (mirror m') root' node' (flip_ctx c') (flip r') (flip l') n'" using s(2) by (simp add: fix_inv_mirror)
  moreover have "length (flip_ctx c') < length c \<or> top_color (dm_nodes (mirror m')) (flip_ctx c') = BLACK" using s(4) by simp
  moreover have "same_data (dm_nodes m) (dm_nodes (mirror m'))" using s(1) by (simp add: same_data_def)
  ultimately show ?thesis unfolding step_ok_def by blast
qed

lemma right_step_ok:
  assumes inv: "fix_inv m root node (f # InR u g # c) l r n" and f: "f = InL p s \<or> f = InR s p" and red: "rb_color (dm_nodes m p) = RED"
    and step: "right_step m root node = (m', root', node')"
  shows "step_ok m (f # InR u g # c) (refs (plug (f # InR u g # c) (Br l node r))) m' root' node'"
proof -
  obtain m1 where m1: "left_step (mirror m) root node = (m1, root', node')" "m' = mirror m1"
    using step by (cases "left_step (mirror m) root node") (auto simp: right_step_def)
  have "fix_inv (mirror m) root node (flip_frame f # InL g (flip u) # flip_ctx c) (flip r) (flip l) n"
    using inv fix_inv_mirror [of m root node "f # InR u g # c" r l n] by simp
  from left_step_ok [OF this _ _ m1(1), of p "flip s"] f red
  have "step_ok (mirror m) (flip_ctx (f # InR u g # c)) (refs (plug (flip_ctx (f # InR u g # c)) (Br (flip r) node (flip l)))) m1 root' node'"
    by auto
  moreover have "refs (plug (flip_ctx (f # InR u g # c)) (Br (flip r) node (flip l))) = rev (refs (plug (f # InR u g # c) (Br l node r)))"
    using flip_plug [of "f # InR u g # c" "Br l node r"] by (simp add: refs_flip)
  ultimately show ?thesis unfolding m1(2) by (intro step_ok_mirror) simp
qed

lemma fixup_stop:
  assumes inv: "fix_inv m root node c l r n" and top: "top_color (dm_nodes m) c = BLACK"
  shows "fixup_loop m root node = Some (m, root) \<and> (\<exists>N. rb_ok (dm_nodes m) (plug c (Br l node r)) N)"
proof -
  note i = inv [unfolded fix_inv_def]
  obtain q par where t: "ctx_at (dm_nodes m) root q par c" "tree_at (dm_nodes m) par q (Br l node r)"
    using i unfolding tree_at_plug by blast
  have "rb_parent (dm_nodes m node) = par" using t(2) by simp
  moreover have "par \<noteq> 0 \<longrightarrow> rb_color (dm_nodes m par) = BLACK" using t(1) top by (cases c rule: ctx_pre.cases) auto
  ultimately have "fixup_loop m root node = Some (m, root)" by (subst fixup_loop_step) (auto simp: Let_def rb_is_red_def)
  moreover have "\<exists>N. rb_ok (dm_nodes m) (plug c (Br l node r)) N" using i top by (intro rb_plug [of _ _ n]) auto
  ultimately show ?thesis by blast
qed

lemma fixup_step:
  assumes inv: "fix_inv m root node c l r n" and top: "top_color (dm_nodes m) c = RED"
  shows "\<exists>m' root' node'. fixup_loop m root node = fixup_loop m' root' node' \<and> step_ok m c (refs (plug c (Br l node r))) m' root' node'"
proof -
  note i = inv [unfolded fix_inv_def]
  obtain f c1 where c: "c = f # c1" using top by (cases c) auto
  obtain p s where f: "f = InL p s \<or> f = InR s p" by (cases f) auto
  have p: "rb_color (dm_nodes m p) = RED" "c1 \<noteq> []" using top i c f by auto
  obtain q par where t: "ctx_at (dm_nodes m) root q par (f # c1)" "tree_at (dm_nodes m) par q (Br l node r)"
    using i unfolding tree_at_plug c by blast
  have par: "rb_parent (dm_nodes m node) = p" "p \<noteq> 0" "rb_is_red m p" using t f p(1) by (auto simp: rb_is_red_def)
  let ?g = "rb_parent (dm_nodes m p)"
  consider g u c2 where "c1 = InL g u # c2" | u g c2 where "c1 = InR u g # c2" using p(2) by (metis ctx_pre.cases)
  then show ?thesis
  proof cases
    case 1
    have "p = rb_left (dm_nodes m ?g)" using t f 1 by auto
    moreover obtain m' root' node' where s: "left_step m root node = (m', root', node')" by (metis prod_cases3)
    ultimately have "fixup_loop m root node = fixup_loop m' root' node'" using par by (subst fixup_loop_step) (simp add: Let_def)
    with left_step_ok [OF inv [unfolded c 1] f p(1) s] show ?thesis unfolding c 1 by blast
  next
    case 2
    have gp: "?g = g" "g \<noteq> 0" "tree_at (dm_nodes m) g (rb_left (dm_nodes m g)) u" using t f 2 by auto
    have "p \<notin> set (refs u)" using i f unfolding refs_plug c 2 by auto
    then have "p \<noteq> rb_left (dm_nodes m ?g)" using tree_at_root [OF gp(3)] par(2) gp(1) by auto
    moreover obtain m' root' node' where s: "right_step m root node = (m', root', node')" by (metis prod_cases3)
    ultimately have "fixup_loop m root node = fixup_loop m' root' node'" using par by (subst fixup_loop_step) (simp add: Let_def)
    with right_step_ok [OF inv [unfolded c 2] f p(1) s] show ?thesis unfolding c 2 by blast
  qed
qed

definition balanced :: "('k, 'v) DMap \<Rightarrow> ObjectKey \<Rightarrow> ObjectKey list \<Rightarrow> bool" where
  "balanced m root zs \<longleftrightarrow> (\<exists>t N. tree_at (dm_nodes m) 0 root t \<and> refs t = zs \<and> rb_ok (dm_nodes m) t N)"

lemma fixup_loop_ok:
  assumes "fix_inv m root node c l r n"
  shows "\<exists>m' root'. fixup_loop m root node = Some (m', root') \<and> same_data (dm_nodes m) (dm_nodes m') \<and> balanced m' root' (refs (plug c (Br l node r)))"
  using assms
proof (induction "length c" arbitrary: m root node c l r n rule: less_induct)
  case less
  show ?case
  proof (cases "top_color (dm_nodes m) c")
    case BLACK
    with fixup_stop [OF less.prems] less.prems show ?thesis unfolding balanced_def fix_inv_def by auto
  next
    case RED
    obtain m1 root1 node1 where s: "fixup_loop m root node = fixup_loop m1 root1 node1" "step_ok m c (refs (plug c (Br l node r))) m1 root1 node1"
      using fixup_step [OF less.prems RED] by blast
    then obtain c1 l1 r1 n1 where inv: "same_data (dm_nodes m) (dm_nodes m1)" "fix_inv m1 root1 node1 c1 l1 r1 n1"
        "refs (plug c1 (Br l1 node1 r1)) = refs (plug c (Br l node r))" "length c1 < length c \<or> top_color (dm_nodes m1) c1 = BLACK"
      unfolding step_ok_def by blast
    have "\<exists>m' root'. fixup_loop m1 root1 node1 = Some (m', root') \<and> same_data (dm_nodes m1) (dm_nodes m') \<and> balanced m' root' (refs (plug c1 (Br l1 node1 r1)))"
    proof (cases "top_color (dm_nodes m1) c1")
      case BLACK
      with fixup_stop [OF inv(2)] inv(2) show ?thesis unfolding balanced_def fix_inv_def by auto
    next
      case RED
      with inv(4) show ?thesis using less.hyps [OF _ inv(2)] by simp
    qed
    then show ?thesis using s(1) inv(1,3) same_data_trans by metis
  qed
qed

end
