(* ===== verification/Dogee_DMapFacts.thy ===== *)
theory Dogee_DMapFacts
  imports Dogee_DMapInsert
begin

text \<open>
  Properties of \<^verbatim>\<open>DMap\<close>: insertion keeps a sorted red-black tree and refines the update of a map, the
  queries find what they should, iteration follows the key order, the depth is logarithmic; \<^verbatim>\<open>destroy\<close>
  deletes a single node, and a second insertion of a key is hidden by the first.
\<close>

section \<open>Well-formed maps\<close>

text \<open>\<open>zs\<close> are the nodes in the order of their keys.\<close>

definition map_ok :: "('k::linorder, 'v) DMap \<Rightarrow> ObjectKey list \<Rightarrow> bool" where
  "map_ok m zs \<longleftrightarrow> (\<exists>t N. tree_at (dm_nodes m) 0 (mRoot m) t \<and> refs t = zs \<and> distinct zs \<and>
     sorted (map (\<lambda>z. rb_key (dm_nodes m z)) zs) \<and> rb_ok (dm_nodes m) t N \<and> is_black (dm_nodes m) t)"

definition entries :: "('k, 'v) DMap \<Rightarrow> ObjectKey list \<Rightarrow> ('k \<times> 'v) list" where
  "entries m zs = map (\<lambda>z. (rb_key (dm_nodes m z), rb_value (dm_nodes m z))) zs"

lemma map_ok_new: "map_ok (DMap_new m) []"
  unfolding map_ok_def by (intro exI [of _ Lf] exI [of _ 0]) (simp add: DMap_new_def)

section \<open>Insertion\<close>

lemma blacken:
  assumes "tree_at h 0 root t" "rb_ok h t N" "distinct (refs t)" "t \<noteq> Lf"
  shows "\<exists>N'. rb_ok (h(root := (h root)\<lparr> rb_color := BLACK \<rparr>)) t N' \<and> is_black (h(root := (h root)\<lparr> rb_color := BLACK \<rparr>)) t"
proof -
  obtain l r where t: "t = Br l root r" using assms(1,4) by (cases t) auto
  let ?h = "h(root := (h root)\<lparr> rb_color := BLACK \<rparr>)"
  have c: "colors_on h ?h (set (refs l))" "colors_on h ?h (set (refs r))" using assms(3) t by (auto simp: colors_on_def)
  show ?thesis
  proof (cases "rb_color (h root)")
    case RED
    then show ?thesis using assms(2) c t by (intro exI [of _ "Suc N"]) (auto simp: color_cong)
  next
    case BLACK
    then show ?thesis using assms(2) c t by (intro exI [of _ N]) (auto simp: color_cong)
  qed
qed

lemma insertFixUp_ok:
  assumes "fix_inv m root node c l r n"
  shows "\<exists>m' root' t N. insertFixUp m root node = Some (m', root') \<and> same_data (dm_nodes m) (dm_nodes m') \<and>
    tree_at (dm_nodes m') 0 root' t \<and> refs t = refs (plug c (Br l node r)) \<and> rb_ok (dm_nodes m') t N \<and> is_black (dm_nodes m') t"
proof -
  obtain m1 root1 t N where l: "fixup_loop m root node = Some (m1, root1)" "same_data (dm_nodes m) (dm_nodes m1)"
      "tree_at (dm_nodes m1) 0 root1 t" "refs t = refs (plug c (Br l node r))" "rb_ok (dm_nodes m1) t N"
    using fixup_loop_ok [OF assms] unfolding balanced_def by blast
  let ?h = "dm_nodes (set_color m1 root1 BLACK)"
  have "t \<noteq> Lf" using l(4) by (auto simp: refs_plug)
  moreover have "distinct (refs t)" using assms l(4) by (simp add: fix_inv_def)
  ultimately obtain N' where "rb_ok ?h t N'" "is_black ?h t" using blacken [OF l(3,5)] by auto
  moreover have "tree_at ?h 0 root1 t" by (rule tree_at_same [OF l(3)]) (auto simp: same_links_def)
  moreover have "same_data (dm_nodes m) ?h" using l(2) by simp
  moreover have "insertFixUp m root node = Some (set_color m1 root1 BLACK, root1)" by (simp add: insertFixUp_def l(1))
  ultimately show ?thesis using l(4) by blast
qed

lemma insert_descend_ok:
  assumes "ctx_at (dm_nodes m) root x y c" "tree_at (dm_nodes m) y x t"
    and "sorted (map (\<lambda>z. rb_key (dm_nodes m z)) (refs t))"
    and "\<forall>z \<in> set (ctx_pre c). rb_key (dm_nodes m z) \<le> key" "\<forall>z \<in> set (ctx_post c). key < rb_key (dm_nodes m z)"
  shows "\<exists>y' c'. insert_descend m key y x = Some y' \<and> plug c' Lf = plug c t \<and> ctx_at (dm_nodes m) root 0 y' c' \<and>
    (\<forall>z \<in> set (ctx_pre c'). rb_key (dm_nodes m z) \<le> key) \<and> (\<forall>z \<in> set (ctx_post c'). key < rb_key (dm_nodes m z))"
  using assms
proof (induction t arbitrary: x y c)
  case Lf
  then have "insert_descend m key y x = Some y" by (subst insert_descend.simps) simp
  with Lf show ?case by (intro exI [of _ y] exI [of _ c]) auto
next
  case (Br l z r)
  let ?k = "\<lambda>z. rb_key (dm_nodes m z)"
  have x: "x = z" "z \<noteq> 0" "rb_parent (dm_nodes m z) = y" "tree_at (dm_nodes m) z (rb_left (dm_nodes m z)) l" "tree_at (dm_nodes m) z (rb_right (dm_nodes m z)) r"
    using Br.prems(2) by auto
  have so: "sorted (map ?k (refs l))" "sorted (map ?k (refs r))" "\<forall>w \<in> set (refs l). ?k w \<le> ?k z" "\<forall>w \<in> set (refs r). ?k z \<le> ?k w"
    using Br.prems(3) by (auto simp: sorted_append)
  show ?case
  proof (cases "key < ?k z")
    case True
    have "ctx_at (dm_nodes m) root (rb_left (dm_nodes m z)) z (InL z r # c)" using Br.prems(1) x by simp
    moreover have "\<forall>w \<in> set (ctx_post (InL z r # c)). key < ?k w" using Br.prems(5) so(4) True by auto
    ultimately have "\<exists>y' c'. insert_descend m key z (rb_left (dm_nodes m z)) = Some y' \<and> plug c' Lf = plug (InL z r # c) l \<and> ctx_at (dm_nodes m) root 0 y' c' \<and>
        (\<forall>z \<in> set (ctx_pre c'). ?k z \<le> key) \<and> (\<forall>z \<in> set (ctx_post c'). key < ?k z)"
      using Br.prems(4) by (intro Br.IH(1) [OF _ x(4) so(1)]) simp_all
    moreover have "insert_descend m key y x = insert_descend m key z (rb_left (dm_nodes m z))"
      using x True by (subst insert_descend.simps) simp
    ultimately show ?thesis by simp
  next
    case False
    have "ctx_at (dm_nodes m) root (rb_right (dm_nodes m z)) z (InR l z # c)" using Br.prems(1) x by simp
    moreover have "\<forall>w \<in> set (ctx_pre (InR l z # c)). ?k w \<le> key" using Br.prems(4) so(3) False by fastforce
    ultimately have "\<exists>y' c'. insert_descend m key z (rb_right (dm_nodes m z)) = Some y' \<and> plug c' Lf = plug (InR l z # c) r \<and> ctx_at (dm_nodes m) root 0 y' c' \<and>
        (\<forall>z \<in> set (ctx_pre c'). ?k z \<le> key) \<and> (\<forall>z \<in> set (ctx_post c'). key < ?k z)"
      using Br.prems(5) by (intro Br.IH(2) [OF _ x(5) so(2)]) simp_all
    moreover have "insert_descend m key y x = insert_descend m key z (rb_right (dm_nodes m z))"
      using x False by (subst insert_descend.simps) simp
    ultimately show ?thesis by simp
  qed
qed

text \<open>The new node hangs in the context the descent has found.\<close>

lemma insert_attach:
  fixes m :: "('k::linorder, 'v) DMap"
  assumes c: "ctx_at (dm_nodes m) root 0 y c" "distinct (ctx_pre c @ ctx_post c)" and z: "z \<noteq> 0" "z \<notin> set (ctx_pre c) \<union> set (ctx_post c)"
    and nd: "rb_left (dm_nodes m z) = 0" "rb_right (dm_nodes m z) = 0"
    and keys: "\<forall>w \<in> set (ctx_pre c). rb_key (dm_nodes m w) \<le> rb_key (dm_nodes m z)" "\<forall>w \<in> set (ctx_post c). rb_key (dm_nodes m z) < rb_key (dm_nodes m w)"
    and att: "(m2, root1) = (if y \<noteq> 0
        then if rb_key (dm_nodes (set_parent m z y) z) < rb_key (dm_nodes (set_parent m z y) y) then (set_left (set_parent m z y) y z, root) else (set_right (set_parent m z y) y z, root)
        else (set_parent m z y, z))"
  shows "tree_at (dm_nodes m2) 0 root1 (plug c (Br Lf z Lf)) \<and> same_data (dm_nodes m) (dm_nodes m2) \<and> same_colors (dm_nodes m) (dm_nodes m2)"
proof -
  let ?h = "dm_nodes m" and ?h' = "dm_nodes m2"
  have yz: "y \<noteq> z" using ctx_at_par [OF c(1)] z by auto
  have m2: "?h' = (if y = 0 then (\<lambda>w. if w = z then (?h z)\<lparr> rb_parent := y \<rparr> else ?h w)
      else if rb_key (?h z) < rb_key (?h y) then (\<lambda>w. if w = z then (?h z)\<lparr> rb_parent := y \<rparr> else if w = y then (?h y)\<lparr> rb_left := z \<rparr> else ?h w)
      else (\<lambda>w. if w = z then (?h z)\<lparr> rb_parent := y \<rparr> else if w = y then (?h y)\<lparr> rb_right := z \<rparr> else ?h w))"
    and root1: "root1 = (if y = 0 then z else root)"
    using att yz by (auto simp: fun_eq_iff split: if_splits)
  have t: "tree_at ?h' y z (Br Lf z Lf)" using nd z(1) yz unfolding m2 by auto
  have "ctx_at ?h' root1 z y c"
  proof (rule ctx_at_new_hole [OF c])
    show "same_links ?h ?h' (set (ctx_pre c) \<union> set (ctx_post c) - {y})" using z(2) unfolding m2 same_links_def by auto
    show "case c of [] \<Rightarrow> root1 = z | InL x r # c' \<Rightarrow> root1 = root \<and> rb_left (?h' x) = z \<and> rb_right (?h' x) = rb_right (?h x) \<and> rb_parent (?h' x) = rb_parent (?h x)
      | InR l x # c' \<Rightarrow> root1 = root \<and> rb_right (?h' x) = z \<and> rb_left (?h' x) = rb_left (?h x) \<and> rb_parent (?h' x) = rb_parent (?h x)"
      using c(1) keys yz unfolding m2 root1 by (cases c rule: ctx_pre.cases) (auto simp flip: not_less)
  qed
  with t have "tree_at ?h' 0 root1 (plug c (Br Lf z Lf))" unfolding tree_at_plug by blast
  moreover have "same_data ?h ?h' \<and> same_colors ?h ?h'" unfolding m2 same_data_def same_colors_def by auto
  ultimately show ?thesis by blast
qed

lemma fix_inv_start:
  assumes t: "tree_at (dm_nodes m) 0 root (plug c (Br Lf z Lf))" "distinct (refs (plug c (Br Lf z Lf)))" and ok: "ctx_ok (dm_nodes m) c 0"
  shows "fix_inv (set_color m z RED) root z c Lf Lf 0"
proof -
  let ?h = "dm_nodes (set_color m z RED)"
  have "tree_at ?h 0 root (plug c (Br Lf z Lf))" by (rule tree_at_same [OF t(1)]) (auto simp: same_links_def)
  moreover have "colors_on (dm_nodes m) ?h (set (ctx_pre c) \<union> set (ctx_post c))" using t(2) by (auto simp: refs_plug colors_on_def)
  ultimately show ?thesis using t(2) ok by (simp add: fix_inv_def color_cong)
qed

lemma DMap_insert_ok:
  assumes m: "map_ok m zs" and z: "z \<noteq> 0" "z \<notin> set zs"
  shows "\<exists>m' xs ys. DMap_insert m z key val = Some m' \<and> zs = xs @ ys \<and> map_ok m' (xs @ z # ys) \<and>
    (\<forall>x \<in> set xs. rb_key (dm_nodes m x) \<le> key) \<and> (\<forall>y \<in> set ys. key < rb_key (dm_nodes m y)) \<and>
    entries m' (xs @ z # ys) = entries m xs @ (key, val) # entries m ys"
proof -
  obtain t N where t: "tree_at (dm_nodes m) 0 (mRoot m) t" "refs t = zs" "distinct zs" "sorted (map (\<lambda>z. rb_key (dm_nodes m z)) zs)"
      "rb_ok (dm_nodes m) t N" "is_black (dm_nodes m) t"
    using m unfolding map_ok_def by blast
  define m1 where "m1 = m\<lparr> dm_nodes := (dm_nodes m)(z := \<lparr> rb_key = key, rb_value = val, rb_color = BLACK, rb_left = 0, rb_right = 0, rb_parent = 0 \<rparr>) \<rparr>"
  have m1: "mRoot m1 = mRoot m" "\<And>w. w \<noteq> z \<Longrightarrow> dm_nodes m1 w = dm_nodes m w" "rb_key (dm_nodes m1 z) = key" "rb_value (dm_nodes m1 z) = val"
      "rb_left (dm_nodes m1 z) = 0" "rb_right (dm_nodes m1 z) = 0"
    by (simp_all add: m1_def)
  have on: "dm_nodes m1 w = dm_nodes m w" if "w \<in> set zs" for w by (rule m1(2)) (use that z(2) in auto)
  have t1: "tree_at (dm_nodes m1) 0 (mRoot m) t" by (rule tree_at_same [OF t(1)]) (simp add: same_links_def t(2) on)
  have cz: "colors_on (dm_nodes m) (dm_nodes m1) (set (refs t))" by (simp add: colors_on_def t(2) on)
  have so: "sorted (map (\<lambda>z. rb_key (dm_nodes m1 z)) (refs t))" using t(4) by (simp add: t(2) on cong: map_cong)
  obtain y c where d: "insert_descend m1 key 0 (mRoot m) = Some y" "plug c Lf = t" "ctx_at (dm_nodes m1) (mRoot m) 0 y c"
      "\<forall>w \<in> set (ctx_pre c). rb_key (dm_nodes m1 w) \<le> key" "\<forall>w \<in> set (ctx_post c). key < rb_key (dm_nodes m1 w)"
    using insert_descend_ok [of m1 "mRoot m" "mRoot m" 0 "[]" t key] t1 so by auto
  have zs: "zs = ctx_pre c @ ctx_post c" using t(2) d(2) refs_plug [of c Lf] by simp
  have dis: "distinct (ctx_pre c @ ctx_post c)" using t(3) zs by simp
  have zc: "z \<notin> set (ctx_pre c) \<union> set (ctx_post c)" using z(2) zs by simp
  obtain m2 root1 where a: "(m2, root1) = (if y \<noteq> 0
        then if rb_key (dm_nodes (set_parent m1 z y) z) < rb_key (dm_nodes (set_parent m1 z y) y) then (set_left (set_parent m1 z y) y z, mRoot m)
          else (set_right (set_parent m1 z y) y z, mRoot m)
        else (set_parent m1 z y, z))"
    by (metis prod.exhaust)
  have att: "tree_at (dm_nodes m2) 0 root1 (plug c (Br Lf z Lf))" "same_data (dm_nodes m1) (dm_nodes m2)" "same_colors (dm_nodes m1) (dm_nodes m2)"
    using insert_attach [OF d(3) dis z(1) zc m1(5,6) _ _ a] d(4,5) m1(3) by blast+
  have dz: "distinct (refs (plug c (Br Lf z Lf)))" using dis zc by (auto simp: refs_plug)
  have "rb_ok (dm_nodes m1) (plug c Lf) N" "is_black (dm_nodes m1) (plug c Lf)" using t(5,6) cz d(2) by (simp_all add: color_cong)
  then have "ctx_ok (dm_nodes m1) c 0" using rb_unplug [of "dm_nodes m1" c Lf N] by auto
  then have "ctx_ok (dm_nodes m2) c 0" using ctx_ok_cong [OF same_colors_on [OF att(3)]] by blast
  from insertFixUp_ok [OF fix_inv_start [OF att(1) dz this]]
  obtain m3 root3 t3 N3 where f: "insertFixUp (set_color m2 z RED) root1 z = Some (m3, root3)" "same_data (dm_nodes (set_color m2 z RED)) (dm_nodes m3)"
      "tree_at (dm_nodes m3) 0 root3 t3" "refs t3 = refs (plug c (Br Lf z Lf))" "rb_ok (dm_nodes m3) t3 N3" "is_black (dm_nodes m3) t3"
    by blast
  let ?m = "m3\<lparr> mRoot := root3 \<rparr>"
  have "same_data (dm_nodes m1) (dm_nodes (set_color m2 z RED))" using att(2) by simp
  then have "same_data (dm_nodes m1) (dm_nodes m3)" using f(2) same_data_trans by blast
  then have data: "rb_key (dm_nodes m3 w) = rb_key (dm_nodes m1 w)" "rb_value (dm_nodes m3 w) = rb_value (dm_nodes m1 w)" for w
    by (simp_all add: same_data_def)
  have "DMap_insert m z key val = Some ?m"
  proof -
    have "insertNode m1 (mRoot m1) z = insertFixUp (set_color m2 z RED) root1 z"
      unfolding insertNode_def Let_def by (simp only: m1(1,3) d(1) option.case a [symmetric] prod.case)
    then show ?thesis using f(1) unfolding DMap_insert_def Let_def m1_def [symmetric] by simp
  qed
  moreover have r3: "refs t3 = ctx_pre c @ z # ctx_post c" using f(4) by (simp add: refs_plug)
  moreover have "sorted (map (\<lambda>w. rb_key (dm_nodes m3 w)) (ctx_pre c @ z # ctx_post c))"
    using so d(4,5) unfolding t(2) zs data by (auto simp: sorted_append m1(3) intro: less_imp_le)
  moreover have "distinct (ctx_pre c @ z # ctx_post c)" using dz by (simp add: refs_plug)
  ultimately have "DMap_insert m z key val = Some ?m" "map_ok ?m (ctx_pre c @ z # ctx_post c)"
    using f(3,5,6) unfolding map_ok_def by auto
  moreover have "entries ?m (ctx_pre c @ z # ctx_post c) = entries m (ctx_pre c) @ (key, val) # entries m (ctx_post c)"
    using on unfolding zs by (simp add: entries_def data m1(3,4))
  moreover have "\<forall>x \<in> set (ctx_pre c). rb_key (dm_nodes m x) \<le> key" "\<forall>y \<in> set (ctx_post c). key < rb_key (dm_nodes m y)"
    using d(4,5) on unfolding zs by auto
  ultimately show ?thesis using zs by blast
qed

section \<open>Queries\<close>

abbreviation "key_of m z \<equiv> rb_key (dm_nodes m z)"

lemma search_at_ok:
  assumes "tree_at (dm_nodes m) par x t" "sorted (map (key_of m) (refs t))"
  shows "\<exists>z. search_at m x key = Some z \<and> (if key \<in> key_of m ` set (refs t) then z \<in> set (refs t) \<and> key_of m z = key else z = 0)"
  using assms
proof (induction t arbitrary: par x)
  case Lf
  then show ?case by (subst search_at.simps) simp
next
  case (Br l z r)
  have x: "x = z" "z \<noteq> 0" "tree_at (dm_nodes m) z (rb_left (dm_nodes m z)) l" "tree_at (dm_nodes m) z (rb_right (dm_nodes m z)) r"
    using Br.prems(1) by auto
  have so: "sorted (map (key_of m) (refs l))" "sorted (map (key_of m) (refs r))" "\<forall>w \<in> set (refs l). key_of m w \<le> key_of m z" "\<forall>w \<in> set (refs r). key_of m z \<le> key_of m w"
    using Br.prems(2) by (auto simp: sorted_append)
  consider "key_of m z = key" | "key < key_of m z" | "key_of m z < key" by fastforce
  then show ?case
  proof cases
    case 1
    then show ?thesis using x by (subst search_at.simps) auto
  next
    case 2
    then have "search_at m x key = search_at m (rb_left (dm_nodes m z)) key" using x by (subst search_at.simps) auto
    moreover have "key \<notin> key_of m ` set (refs r)" using so(4) 2 by auto
    then have "key \<in> key_of m ` set (refs (Br l z r)) \<longleftrightarrow> key \<in> key_of m ` set (refs l)" using 2 by auto
    moreover have "set (refs l) \<subseteq> set (refs (Br l z r))" by auto
    ultimately show ?thesis using Br.IH(1) [OF x(3) so(1)] by (smt (verit) subsetD)
  next
    case 3
    then have "search_at m x key = search_at m (rb_right (dm_nodes m z)) key" using x by (subst search_at.simps) auto
    moreover have "key \<notin> key_of m ` set (refs l)" using so(3) 3 by auto
    then have "key \<in> key_of m ` set (refs (Br l z r)) \<longleftrightarrow> key \<in> key_of m ` set (refs r)" using 3 by auto
    moreover have "set (refs r) \<subseteq> set (refs (Br l z r))" by auto
    ultimately show ?thesis using Br.IH(2) [OF x(4) so(2)] by (smt (verit) subsetD)
  qed
qed

text \<open>The first node that satisfies a condition on its key, or \<^verbatim>\<open>nullptr\<close>.\<close>

definition first_node :: "('k, 'v) DMap \<Rightarrow> ('k \<Rightarrow> bool) \<Rightarrow> ObjectKey list \<Rightarrow> ObjectKey \<Rightarrow> ObjectKey" where
  "first_node m P zs d = (case filter (\<lambda>z. P (key_of m z)) zs of [] \<Rightarrow> d | z # _ \<Rightarrow> z)"

lemma first_node_append:
  "\<forall>z \<in> set xs. \<not> P (key_of m z) \<Longrightarrow> first_node m P (xs @ ys) d = first_node m P ys d"
  "P (key_of m y) \<Longrightarrow> first_node m P (xs @ y # ys) d = first_node m P xs y"
  "\<not> P (key_of m y) \<Longrightarrow> first_node m P (y # ys) d = first_node m P ys d"
  by (auto simp: first_node_def split: list.splits)

lemma bounds_at_ok:
  fixes m :: "('k::linorder, 'v) DMap"
  assumes "tree_at (dm_nodes m) par x t" "sorted (map (key_of m) (refs t))"
  shows "upperBound_at m x key d = Some (first_node m (\<lambda>k. key < k) (refs t) d)" "lowerBound_at m x key d = Some (first_node m (\<lambda>k. key \<le> k) (refs t) d)"
  using assms
proof (induction t arbitrary: par x d)
  case Lf
  { case 1 then show ?case by (subst upperBound_at.simps) (simp add: first_node_def) }
  { case 2 then show ?case by (subst lowerBound_at.simps) (simp add: first_node_def) }
next
  case (Br l z r)
  { fix P d assume "\<not> P (key_of m z)" "\<forall>w \<in> set (refs l). \<not> P (key_of m w)"
    then have "first_node m P (refs (Br l z r)) d = first_node m P (refs r) d" by (simp add: first_node_append) }
  note right = this
  have left: "P (key_of m z) \<Longrightarrow> first_node m P (refs (Br l z r)) d = first_node m P (refs l) z" for P d by (simp add: first_node_append)
  { case 1
    then have x: "x = z" "z \<noteq> 0" "tree_at (dm_nodes m) z (rb_left (dm_nodes m z)) l" "tree_at (dm_nodes m) z (rb_right (dm_nodes m z)) r"
        "sorted (map (key_of m) (refs l))" "sorted (map (key_of m) (refs r))" "\<forall>w \<in> set (refs l). key_of m w \<le> key_of m z"
      by (auto simp: sorted_append)
    show ?case
    proof (cases "key < key_of m z")
      case True
      then show ?thesis using x(1,2) Br.IH(1) [OF x(3,5)] left [of "\<lambda>k. key < k"] by (subst upperBound_at.simps) simp
    next
      case False
      then have "\<forall>w \<in> set (refs l). \<not> key < key_of m w" using x(7) by auto
      then show ?thesis using False x(1,2) Br.IH(3) [OF x(4,6)] right [of "\<lambda>k. key < k"] by (subst upperBound_at.simps) simp
    qed }
  { case 2
    then have x: "x = z" "z \<noteq> 0" "tree_at (dm_nodes m) z (rb_left (dm_nodes m z)) l" "tree_at (dm_nodes m) z (rb_right (dm_nodes m z)) r"
        "sorted (map (key_of m) (refs l))" "sorted (map (key_of m) (refs r))" "\<forall>w \<in> set (refs l). key_of m w \<le> key_of m z"
      by (auto simp: sorted_append)
    show ?case
    proof (cases "key \<le> key_of m z")
      case True
      then show ?thesis using x(1,2) Br.IH(2) [OF x(3,5)] left [of "\<lambda>k. key \<le> k"] by (subst lowerBound_at.simps) simp
    next
      case False
      then have "\<forall>w \<in> set (refs l). \<not> key \<le> key_of m w" using x(7) by auto
      then show ?thesis using False x(1,2) Br.IH(4) [OF x(4,6)] right [of "\<lambda>k. key \<le> k"] by (subst lowerBound_at.simps) simp
    qed }
qed

lemma minimum_loop_ok: "tree_at (dm_nodes m) par x t \<Longrightarrow> t \<noteq> Lf \<Longrightarrow> minimum_loop m x = Some (hd (refs t))"
proof (induction t arbitrary: par x)
  case (Br l z r)
  have x: "x = z" "z \<noteq> 0" "tree_at (dm_nodes m) z (rb_left (dm_nodes m z)) l" using Br.prems(1) by auto
  show ?case
  proof (cases "l = Lf")
    case True
    then show ?thesis using x by (subst minimum_loop.simps) simp
  next
    case False
    then have "rb_left (dm_nodes m z) \<noteq> 0" "refs l \<noteq> []" using x(3) by (cases l; auto)+
    then show ?thesis using Br.IH(1) [OF x(3) False] x(1) by (subst minimum_loop.simps) simp
  qed
qed simp

lemma maximum_loop_ok: "tree_at (dm_nodes m) par x t \<Longrightarrow> t \<noteq> Lf \<Longrightarrow> maximum_loop m x = Some (last (refs t))"
proof (induction t arbitrary: par x)
  case (Br l z r)
  have x: "x = z" "z \<noteq> 0" "tree_at (dm_nodes m) z (rb_right (dm_nodes m z)) r" using Br.prems(1) by auto
  show ?case
  proof (cases "r = Lf")
    case True
    then show ?thesis using x by (subst maximum_loop.simps) simp
  next
    case False
    then have "rb_right (dm_nodes m z) \<noteq> 0" "refs r \<noteq> []" using x(3) by (cases r; auto)+
    then show ?thesis using Br.IH(2) [OF x(3) False] x(1) by (subst maximum_loop.simps) simp
  qed
qed simp

definition head_ref :: "ObjectKey list \<Rightarrow> ObjectKey" where
  "head_ref zs = (case zs of [] \<Rightarrow> 0 | z # _ \<Rightarrow> z)"

lemma head_ref_simps [simp]: "head_ref [] = 0" "head_ref (z # zs) = z"
  by (simp_all add: head_ref_def)

lemma extremes_ok:
  assumes "tree_at (dm_nodes m) par x t"
  shows "minimum_at m x = Some (head_ref (refs t))" "maximum_at m x = Some (head_ref (rev (refs t)))"
proof -
  have "t = Lf \<longleftrightarrow> x = 0" "t \<noteq> Lf \<Longrightarrow> refs t \<noteq> []" using assms by (cases t; auto)+
  moreover have "zs \<noteq> [] \<Longrightarrow> hd zs = head_ref zs" "zs \<noteq> [] \<Longrightarrow> last zs = head_ref (rev zs)" for zs
    by (cases zs; simp) (cases zs rule: rev_cases; simp)
  ultimately show "minimum_at m x = Some (head_ref (refs t))" "maximum_at m x = Some (head_ref (rev (refs t)))"
    using minimum_loop_ok [OF assms] maximum_loop_ok [OF assms] by (auto simp: minimum_at_def maximum_at_def)
qed

lemma successor_loop_ok:
  assumes "ctx_at (dm_nodes m) root x y c" "x \<noteq> 0" "x \<notin> set (ctx_post c)" "distinct (ctx_pre c @ ctx_post c)"
  shows "successor_loop m x y = Some (head_ref (ctx_post c))"
  using assms
proof (induction c arbitrary: x y rule: ctx_pre.induct)
  case 1
  then show ?case by (subst successor_loop.simps) simp
next
  case (2 w r c)
  then have "rb_right (dm_nodes m w) \<noteq> x" using tree_at_root [of "dm_nodes m" w "rb_right (dm_nodes m w)" r] by auto
  then show ?case using 2 by (subst successor_loop.simps) auto
next
  case (3 l w c)
  then show ?case by (subst successor_loop.simps) auto
qed

lemma predecessor_loop_ok:
  assumes "ctx_at (dm_nodes m) root x y c" "x \<noteq> 0" "x \<notin> set (ctx_pre c)" "distinct (ctx_pre c @ ctx_post c)"
  shows "predecessor_loop m x y = Some (head_ref (rev (ctx_pre c)))"
  using assms
proof (induction c arbitrary: x y rule: ctx_pre.induct)
  case 1
  then show ?case by (subst predecessor_loop.simps) simp
next
  case (2 w r c)
  then show ?case by (subst predecessor_loop.simps) auto
next
  case (3 l w c)
  then have "rb_left (dm_nodes m w) \<noteq> x" using tree_at_root [of "dm_nodes m" w "rb_left (dm_nodes m w)" l] by auto
  then show ?case using 3 by (subst predecessor_loop.simps) auto
qed

lemma refs_unplug: "z \<in> set (refs t) \<Longrightarrow> \<exists>c l r. t = plug c (Br l z r)"
proof -
  have "z \<in> set (refs t) \<Longrightarrow> \<exists>c' l r. plug c t = plug c' (Br l z r)" for c
  proof (induction t arbitrary: c)
    case (Br l x r)
    then consider "z = x" | "z \<in> set (refs l)" | "z \<in> set (refs r)" by auto
    then show ?case
    proof cases
      case 2 then show ?thesis using Br.IH(1) [of "InL x r # c"] by simp
    next
      case 3 then show ?thesis using Br.IH(2) [of "InR l x # c"] by simp
    qed blast
  qed simp
  from this [of "[]"] show "z \<in> set (refs t) \<Longrightarrow> \<exists>c l r. t = plug c (Br l z r)" by simp
qed

section \<open>Properties\<close>

text \<open>What a search finds: the value at the node, or nothing.\<close>

definition DMap_find :: "('k::linorder, 'v) DMap \<Rightarrow> 'k \<Rightarrow> 'v option option" where
  "DMap_find m key = map_option (\<lambda>z. if z = 0 then None else Some (rb_value (dm_nodes m z))) (DMap_search m key)"

lemma map_okE:
  assumes "map_ok m zs"
  obtains t N where "tree_at (dm_nodes m) 0 (mRoot m) t" "refs t = zs" "distinct zs" "sorted (map (key_of m) zs)"
    "rb_ok (dm_nodes m) t N" "is_black (dm_nodes m) t" "0 \<notin> set zs"
  using assms tree_at_nonzero unfolding map_ok_def by blast

lemma DMap_find_ok:
  assumes "map_ok m zs" "distinct (map (key_of m) zs)"
  shows "DMap_find m key = Some (map_of (entries m zs) key)"
proof -
  obtain t N where t: "tree_at (dm_nodes m) 0 (mRoot m) t" "refs t = zs" "sorted (map (key_of m) zs)" "0 \<notin> set zs"
    using assms(1) by (rule map_okE)
  from search_at_ok [OF t(1), of key] t(2,3) obtain z where z: "DMap_search m key = Some z"
      "if key \<in> key_of m ` set zs then z \<in> set zs \<and> key_of m z = key else z = 0"
    by (auto simp: DMap_search_def)
  have keys: "map fst (entries m zs) = map (key_of m) zs" by (simp add: entries_def)
  show ?thesis
  proof (cases "key \<in> key_of m ` set zs")
    case True
    then have zz: "z \<in> set zs" "key_of m z = key" using z(2) by auto
    then have "(key, rb_value (dm_nodes m z)) \<in> set (entries m zs)" by (auto simp: entries_def)
    then have "map_of (entries m zs) key = Some (rb_value (dm_nodes m z))" using assms(2) keys by (simp add: map_of_is_SomeI)
    moreover have "z \<noteq> 0" using zz(1) t(4) by auto
    ultimately show ?thesis using z(1) by (simp add: DMap_find_def)
  next
    case False
    then have "map_of (entries m zs) key = None" by (auto simp: map_of_eq_None_iff entries_def)
    then show ?thesis using z False by (simp add: DMap_find_def)
  qed
qed

definition node3 :: "ObjectKey \<Rightarrow> (nat, nat) RBTNode" where
  "node3 z = \<lparr> rb_key = (if z = 1 then 10 else if z = 2 then 20 else 30), rb_value = unat z, rb_color = (if z = 2 then BLACK else RED),
     rb_left = (if z = 2 then 1 else 0), rb_right = (if z = 2 then 3 else 0), rb_parent = (if z = 2 then 0 else 2) \<rparr>"

definition map3 :: "(nat, nat) DMap" where
  "map3 = \<lparr> dm_nodes = node3, mRoot = 2 \<rparr>"

lemma map3_ok: "map_ok map3 [1, 2, 3]"
  unfolding map_ok_def by (intro exI [of _ "Br (Br Lf 1 Lf) 2 (Br Lf 3 Lf)"] exI [of _ 1]) (simp add: map3_def node3_def)

lemma map3_keys: "map (key_of map3) [1, 2, 3] = [10, 20, 30]"
  by (simp add: map3_def node3_def)

text \<open>
  C10. Inserting a new node \<open>z\<close> into a sorted red-black tree terminates and gives a sorted red-black tree: the new entry
  comes after the entries with a key at most \<open>key\<close>, all others keep their order, keys and values.
\<close>

theorem insert_keeps_red_black:
  assumes "map_ok m zs" "z \<noteq> 0" "z \<notin> set zs"
  shows "\<exists>m' xs ys. DMap_insert m z key val = Some m' \<and> zs = xs @ ys \<and> map_ok m' (xs @ z # ys) \<and>
    (\<forall>x \<in> set xs. key_of m x \<le> key) \<and> (\<forall>y \<in> set ys. key < key_of m y) \<and>
    entries m' (xs @ z # ys) = entries m xs @ (key, val) # entries m ys"
  by (rule DMap_insert_ok [OF assms])

theorem insert_keeps_red_black_witness:
  "\<exists>m' xs ys. DMap_insert map3 4 20 0 = Some m' \<and> [1, 2, 3] = xs @ ys \<and> map_ok m' (xs @ 4 # ys) \<and>
    (\<forall>x \<in> set xs. key_of map3 x \<le> 20) \<and> (\<forall>y \<in> set ys. 20 < key_of map3 y) \<and>
    entries m' (xs @ 4 # ys) = entries map3 xs @ (20, 0) # entries map3 ys"
  by (rule insert_keeps_red_black [OF map3_ok]) simp_all

text \<open>
  C9. On a map with distinct keys, inserting a key that is not there is the update of the abstract map: afterwards
  \<^verbatim>\<open>search\<close> finds the new value at the key and what it found before at every other key.
\<close>

theorem insert_refines_update:
  assumes m: "map_ok m zs" "distinct (map (key_of m) zs)" and z: "z \<noteq> 0" "z \<notin> set zs" and key: "key \<notin> key_of m ` set zs"
  shows "\<exists>m' zs'. DMap_insert m z key val = Some m' \<and> map_ok m' zs' \<and> distinct (map (key_of m') zs') \<and>
    (\<forall>k. DMap_find m k = Some (map_of (entries m zs) k) \<and> DMap_find m' k = Some (((map_of (entries m zs))(key \<mapsto> val)) k))"
proof -
  obtain m' xs ys where i: "DMap_insert m z key val = Some m'" "zs = xs @ ys" "map_ok m' (xs @ z # ys)"
      "entries m' (xs @ z # ys) = entries m xs @ (key, val) # entries m ys"
    using DMap_insert_ok [OF m(1) z, of key val] by blast
  have keys: "map (key_of m) ws = map fst (entries m ws)" for m :: "('a, 'b) DMap" and ws by (simp add: entries_def)
  have ks: "map (key_of m') (xs @ z # ys) = map (key_of m) xs @ key # map (key_of m) ys" unfolding keys [of m'] i(4) by (simp add: keys)
  have d: "distinct (map (key_of m') (xs @ z # ys))" unfolding ks using m(2) key i(2) by auto
  have "map_of (entries m xs) key = None" using key i(2) by (auto simp: map_of_eq_None_iff entries_def)
  then have "map_of (entries m' (xs @ z # ys)) = (map_of (entries m zs))(key \<mapsto> val)"
    unfolding i(4) i(2) by (auto simp: entries_def fun_eq_iff map_add_def split: option.splits)
  with DMap_find_ok [OF i(3) d] DMap_find_ok [OF m] i(1,3) d show ?thesis by auto
qed

theorem insert_refines_update_witness:
  "\<exists>m' zs'. DMap_insert map3 4 25 7 = Some m' \<and> map_ok m' zs' \<and> distinct (map (key_of m') zs') \<and>
    (\<forall>k. DMap_find map3 k = Some (map_of (entries map3 [1, 2, 3]) k) \<and> DMap_find m' k = Some (((map_of (entries map3 [1, 2, 3]))(25 \<mapsto> 7)) k))"
  by (rule insert_refines_update [OF map3_ok]) (simp_all add: map3_def node3_def)

text \<open>
  \<^verbatim>\<open>upperBound\<close> and \<^verbatim>\<open>lowerBound\<close> give the first node, in key order, whose key is greater than, respectively at least, the
  given one, and \<^verbatim>\<open>nullptr\<close> when there is none.
\<close>

theorem bound_queries_first:
  assumes "map_ok m zs"
  shows "upperBound m key = Some (first_node m (\<lambda>k. key < k) zs 0) \<and> lowerBound m key = Some (first_node m (\<lambda>k. key \<le> k) zs 0)"
proof -
  obtain t N where "tree_at (dm_nodes m) 0 (mRoot m) t" "refs t = zs" "sorted (map (key_of m) zs)" using assms by (rule map_okE)
  then show ?thesis using bounds_at_ok [of m 0 "mRoot m" t key 0] by (simp add: upperBound_def lowerBound_def)
qed

theorem bound_queries_first_witness:
  "upperBound map3 20 = Some 3 \<and> lowerBound map3 20 = Some 2 \<and> upperBound map3 30 = Some 0"
  using bound_queries_first [OF map3_ok, of 20] bound_queries_first [OF map3_ok, of 30] by (simp add: first_node_def map3_def node3_def)

text \<open>
  C32. \<^verbatim>\<open>minimum\<close>, \<^verbatim>\<open>successor\<close>, \<^verbatim>\<open>predecessor\<close> and \<^verbatim>\<open>maximum\<close> walk through the nodes in key order, from one end to the
  other, and return \<^verbatim>\<open>nullptr\<close> beyond the ends.
\<close>

theorem iteration_in_key_order:
  assumes "map_ok m (us @ x # vs)"
  shows "successor m x = Some (head_ref vs) \<and> predecessor m x = Some (head_ref (rev us)) \<and>
    DMap_minimum m = Some (head_ref (us @ [x])) \<and> DMap_maximum m = Some (head_ref (rev (x # vs)))"
proof -
  let ?h = "dm_nodes m"
  obtain t N where t: "tree_at ?h 0 (mRoot m) t" "refs t = us @ x # vs" "distinct (us @ x # vs)" using assms by (rule map_okE)
  obtain c l r where c: "t = plug c (Br l x r)" using refs_unplug [of x t] t(2) by auto
  have eq: "ctx_pre c @ refs l @ x # refs r @ ctx_post c = us @ x # vs" using t(2) c by (simp add: refs_plug)
  have dd: "distinct (ctx_pre c @ refs l @ x # refs r @ ctx_post c)" unfolding eq by (rule t(3))
  have nx: "x \<notin> set (ctx_pre c @ refs l)" "x \<notin> set (refs r @ ctx_post c)" using dd by auto
  have uv: "us = ctx_pre c @ refs l" "vs = refs r @ ctx_post c"
    using append_Cons_eq_iff [OF nx, of us vs] eq by simp_all
  obtain par where at: "ctx_at ?h (mRoot m) x par c" "tree_at ?h par x (Br l x r)" using t(1) unfolding c tree_at_plug by auto
  have x: "x \<noteq> 0" "rb_parent (?h x) = par" "tree_at ?h x (rb_left (?h x)) l" "tree_at ?h x (rb_right (?h x)) r" using at(2) by auto
  have d: "distinct (ctx_pre c @ ctx_post c)" "x \<notin> set (ctx_post c)" "x \<notin> set (ctx_pre c)" using t(3) unfolding uv by auto
  have lr: "rb_left (?h x) = 0 \<longleftrightarrow> refs l = []" "rb_right (?h x) = 0 \<longleftrightarrow> refs r = []" using x(3,4) by (cases l; auto; fail) (cases r; use x(4) in auto)
  have hd: "zs \<noteq> [] \<Longrightarrow> head_ref (zs @ ws) = head_ref zs" for zs ws by (cases zs) simp_all
  have "successor m x = Some (head_ref vs)"
    using extremes_ok(1) [OF x(4)] successor_loop_ok [OF at(1) x(1) d(2,1)] x(2) lr(2) hd [of "refs r" "ctx_post c"]
    unfolding successor_def uv by auto
  moreover have "predecessor m x = Some (head_ref (rev us))"
    using extremes_ok(2) [OF x(3)] predecessor_loop_ok [OF at(1) x(1) d(3,1)] x(2) lr(1) hd [of "rev (refs l)" "rev (ctx_pre c)"]
    unfolding predecessor_def uv by auto
  ultimately show ?thesis using extremes_ok [OF t(1)] hd [of "us @ [x]" vs] hd [of "rev (x # vs)" "rev us"]
    unfolding DMap_minimum_def DMap_maximum_def t(2) by simp
qed

theorem iteration_in_key_order_witness:
  "successor map3 2 = Some (head_ref [3]) \<and> predecessor map3 2 = Some (head_ref (rev [1])) \<and>
    DMap_minimum map3 = Some (head_ref ([1] @ [2])) \<and> DMap_maximum map3 = Some (head_ref (rev [2, 3]))"
  by (rule iteration_in_key_order) (use map3_ok in simp)

text \<open>The depth of a shape: the most nodes a search looks at.\<close>

primrec depth :: "shape \<Rightarrow> nat" where
  "depth Lf = 0"
| "depth (Br l x r) = Suc (max (depth l) (depth r))"

lemma rb_depth: "rb_ok h t n \<Longrightarrow> depth t \<le> 2 * n + (if is_black h t then 0 else 1)"
proof (induction t arbitrary: n)
  case (Br l x r)
  show ?case
  proof (cases "rb_color (h x)")
    case RED
    then have "depth l \<le> 2 * n" "depth r \<le> 2 * n" using Br.IH [of n] Br.prems by auto
    then show ?thesis using RED by simp
  next
    case BLACK
    then have "0 < n" "rb_ok h l (n - 1)" "rb_ok h r (n - 1)" using Br.prems by auto
    then have "depth l \<le> 2 * (n - 1) + 1" "depth r \<le> 2 * (n - 1) + 1" using Br.IH [of "n - 1"] by (auto split: if_splits)
    then show ?thesis using BLACK \<open>0 < n\<close> by simp
  qed
qed simp

lemma rb_size: "rb_ok h t n \<Longrightarrow> 2 ^ n \<le> length (refs t) + 1"
proof (induction t arbitrary: n)
  case (Br l x r)
  show ?case
  proof (cases "rb_color (h x)")
    case RED
    then show ?thesis using Br.IH(1) [of n] Br.prems by simp
  next
    case BLACK
    then obtain k where "n = Suc k" "rb_ok h l k" "rb_ok h r k" using Br.prems by (cases n) auto
    then show ?thesis using Br.IH [of k] by simp
  qed
qed simp



lemma destroy_at_ok:
  "tree_at (dm_nodes m) par x t \<Longrightarrow> t \<noteq> Lf \<Longrightarrow> \<exists>z. destroy_at m x = Some [z] \<and> z \<in> set (refs t)"
proof (induction t arbitrary: par x)
  case (Br l z r)
  have x: "x = z" "z \<noteq> 0" "tree_at (dm_nodes m) z (rb_left (dm_nodes m z)) l" "tree_at (dm_nodes m) z (rb_right (dm_nodes m z)) r" using Br.prems(1) by auto
  have lr: "rb_left (dm_nodes m z) = 0 \<longleftrightarrow> l = Lf" "rb_right (dm_nodes m z) = 0 \<longleftrightarrow> r = Lf"
    using x(3,4) by (cases l; auto; fail) (cases r; use x(4) in auto)
  consider "l \<noteq> Lf" | "l = Lf" "r \<noteq> Lf" | "l = Lf" "r = Lf" by blast
  then show ?case
  proof cases
    case 1
    then show ?thesis using Br.IH(1) [OF x(3)] x(1,2) lr by (subst destroy_at.simps) auto
  next
    case 2
    then show ?thesis using Br.IH(2) [OF x(4)] x(1,2) lr by (subst destroy_at.simps) auto
  next
    case 3
    then show ?thesis using x(1,2) lr by (subst destroy_at.simps) auto
  qed
qed simp

text \<open>
  Destroying a map that is not empty deletes exactly one of its nodes: both recursive calls return, so the rest of
  the tree stays allocated.
\<close>

theorem destroy_deletes_one:
  assumes "map_ok m zs" "zs \<noteq> []"
  shows "\<exists>z \<in> set zs. DMap_destroy m = Some [z]"
proof -
  obtain t N where t: "tree_at (dm_nodes m) 0 (mRoot m) t" "refs t = zs" using assms(1) by (rule map_okE)
  then have "t \<noteq> Lf" using assms(2) by auto
  with destroy_at_ok [OF t(1)] t(2) show ?thesis by (auto simp: DMap_destroy_def)
qed

theorem destroy_deletes_one_witness: "\<exists>z \<in> set [1, 2, 3]. DMap_destroy map3 = Some [z]"
  by (rule destroy_deletes_one [OF map3_ok]) simp

text \<open>A key that is inserted again goes to a new node, and the search still finds the old one.\<close>

lemma insert_existing_key_hidden:
  "case DMap_insert map3 4 20 99 of Some m' \<Rightarrow> DMap_find m' 20 = Some (Some 2) | None \<Rightarrow> False"
  by code_simp

end
