(* ===== verification/Dogee_Objects.thy ===== *)
theory Dogee_Objects
  imports Dogee_StorageFacts
begin

text \<open>
  Shared objects as the application sees them: the list of the objects a process has created and the
  allocation of object keys (\<^verbatim>\<open>Dogee/DogeeShared.cpp\<close>), typed access to fields and array elements
  (\<^verbatim>\<open>DSMInterface\<close>, \<^verbatim>\<open>ArrayElement\<close>, \<^verbatim>\<open>Value\<close>, \<^verbatim>\<open>Array\<close> in \<^verbatim>\<open>include/DogeeBase.h\<close>),
  shared strings (\<^verbatim>\<open>include/DogeeString.h\<close>) and shared constants (\<^verbatim>\<open>include/DogeeSharedConst.h\<close>).
  The locale \<open>dsm_cache\<close> is the contract between the typed layer and the cache behind it, the locale
  \<open>dsm_element\<close> what \<^verbatim>\<open>DSMInterface\<close> promises to the arrays; both are interpreted on the pass-through cache.
\<close>

section \<open>The objects of a process\<close>

text \<open>
  The part of a process's state the object layer keeps: the storage behind \<^verbatim>\<open>DogeeEnv::backend\<close>, the
  \<^verbatim>\<open>std::set\<close> of object keys as the ascending list of its elements, the number of fields of the
  global object, and the state of \<^verbatim>\<open>rand\<close>.
\<close>

record ('s, 'r) process =
  backend_state :: 's
  object_list :: "ObjectKey list"
  gloabl_fid :: FieldKey
  rand_state :: 'r

definition GetObjectNumber :: "('s, 'r) process \<Rightarrow> nat" where
  "GetObjectNumber p = length (object_list p)"

definition DeleteObject :: "ObjectKey \<Rightarrow> ('s, 'r) process \<Rightarrow> ('s, 'r) process" where
  "DeleteObject key p = p\<lparr>object_list := remove1 key (object_list p)\<rparr>"

definition PushObject :: "ObjectKey \<Rightarrow> ('s, 'r) process \<Rightarrow> ('s, 'r) process" where
  "PushObject key p = p\<lparr>object_list := insort_insert key (object_list p)\<rparr>"

definition ForEachObject :: "(ObjectKey \<Rightarrow> 'a \<Rightarrow> 'a) \<Rightarrow> ('s, 'r) process \<Rightarrow> 'a \<Rightarrow> 'a" where
  "ForEachObject func p = fold func (object_list p)"

text \<open>
  \<^verbatim>\<open>while (key == 0) key = rand ();\<close> ends only when \<^verbatim>\<open>rand\<close> returns something else than 0. \<open>rnd\<close> is
  the generator of the C library; \<open>None\<close> is the loop that does not end.
\<close>

type_synonym 'r rand = "'r \<Rightarrow> 'r \<times> u32"

partial_function (option) rand_key :: "'r rand \<Rightarrow> 'r \<Rightarrow> ObjectKey \<Rightarrow> ('r \<times> ObjectKey) option" where
  "rand_key rnd r key = (if key = 0 then (case rnd r of (r', k) \<Rightarrow> rand_key rnd r' k) else Some (r, key))"

declare rand_key.simps [code]

definition DOGEE_MAX_SHARED_KEY_TRIES :: nat where
  "DOGEE_MAX_SHARED_KEY_TRIES = 200"

fun alloc_tries :: "'s SoStorage \<Rightarrow> 'r rand \<Rightarrow> u32 \<Rightarrow> u32 \<Rightarrow> nat \<Rightarrow> ObjectKey \<Rightarrow> ('s, 'r) process \<Rightarrow>
    (('s, 'r) process \<times> ObjectKey cxx) option" where
  "alloc_tries S rnd cls_id sz 0 key p = Some (p, Trap)"
| "alloc_tries S rnd cls_id sz (Suc i) key p =
     (case rand_key rnd (rand_state p) key of
        None \<Rightarrow> None
      | Some (r, key) \<Rightarrow>
          (case so_newobj S (backend_state p) key cls_id sz of (s, status) \<Rightarrow>
             let p = p\<lparr>backend_state := s, rand_state := r\<rparr> in
             if status = SoOK then Some (PushObject key p, Ret key)
             else alloc_tries S rnd cls_id sz i key p))"

definition AllocObjectId :: "'s SoStorage \<Rightarrow> 'r rand \<Rightarrow> u32 \<Rightarrow> u32 \<Rightarrow> ('s, 'r) process \<Rightarrow>
    (('s, 'r) process \<times> ObjectKey cxx) option" where
  "AllocObjectId S rnd cls_id sz p = alloc_tries S rnd cls_id sz DOGEE_MAX_SHARED_KEY_TRIES 0 p"

text \<open>The key returned is the counter after the increment, so the first global variable has field 2.\<close>

definition RegisterGlobalVariable :: "('s, 'r) process \<Rightarrow> ('s, 'r) process \<times> FieldKey" where
  "RegisterGlobalVariable p = (let fid = gloabl_fid p + 2 in (p\<lparr>gloabl_fid := fid\<rparr>, fid))"

section \<open>Typed access to shared memory\<close>

text \<open>
  \<^verbatim>\<open>DSMInterface<T>\<close> and \<^verbatim>\<open>Array<T>::Copyer\<close> are chosen at compile time by the size of the element type.
  The record is the choice: a 4-byte type is handled as its word, an 8-byte type as its 64-bit value. The
  8-byte read fills a local variable; when the read fails, its value is indeterminate.
\<close>

record ('s, 't) DSMInterface =
  dsm_size_of :: u32
  get_value :: "'s DSMCache \<Rightarrow> 's \<Rightarrow> ObjectKey \<Rightarrow> FieldKey \<Rightarrow> 's \<times> 't cxx"
  set_value :: "'s DSMCache \<Rightarrow> 's \<Rightarrow> ObjectKey \<Rightarrow> FieldKey \<Rightarrow> 't \<Rightarrow> 's"
  getchunk_as :: "'s DSMCache \<Rightarrow> 's \<Rightarrow> ObjectKey \<Rightarrow> FieldKey \<Rightarrow> u32 \<Rightarrow> 't list \<Rightarrow> 's \<times> SoStatus option \<times> 't list"
  putchunk_as :: "'s DSMCache \<Rightarrow> 's \<Rightarrow> ObjectKey \<Rightarrow> FieldKey \<Rightarrow> u32 \<Rightarrow> 't list \<Rightarrow> 's \<times> SoStatus option"

definition DSMInterface32 :: "('s, u32) DSMInterface" where
  "DSMInterface32 = \<lparr>
     dsm_size_of = 1,
     get_value = (\<lambda>C s obj_id field_id. dc_get C s obj_id field_id),
     set_value = (\<lambda>C s obj_id field_id val. fst (dc_put32 C s obj_id field_id val)),
     getchunk_as = dc_getchunk32,
     putchunk_as = dc_putchunk32 \<rparr>"

definition DSMInterface64 :: "('s, u64) DSMInterface" where
  "DSMInterface64 = \<lparr>
     dsm_size_of = 2,
     get_value = (\<lambda>C s obj_id field_id.
       case dc_getchunk64 C s obj_id field_id 1 [0] of (s, status, ret) \<Rightarrow>
         (s, if status = Some SoOK then Ret (hd ret) else Indeterminate)),
     set_value = (\<lambda>C s obj_id field_id val. fst (dc_put64 C s obj_id field_id val)),
     getchunk_as = dc_getchunk64,
     putchunk_as = dc_putchunk64 \<rparr>"

text \<open>An element of an array, and a field of the object a reference was last used on.\<close>

definition ArrayAccess :: "('s, 't) DSMInterface \<Rightarrow> ObjectKey \<Rightarrow> u32 \<Rightarrow> ObjectKey \<times> FieldKey" where
  "ArrayAccess I object_id k = (object_id, k * dsm_size_of I)"

definition ArrayElement_get :: "('s, 't) DSMInterface \<Rightarrow> 's DSMCache \<Rightarrow> 's \<Rightarrow> ObjectKey \<times> FieldKey \<Rightarrow> 's \<times> 't cxx" where
  "ArrayElement_get I C s e = get_value I C s (fst e) (snd e)"

definition ArrayElement_set :: "('s, 't) DSMInterface \<Rightarrow> 's DSMCache \<Rightarrow> 's \<Rightarrow> ObjectKey \<times> FieldKey \<Rightarrow> 't \<Rightarrow> 's" where
  "ArrayElement_set I C s e x = set_value I C s (fst e) (snd e) x"

definition Value_get :: "('s, 't) DSMInterface \<Rightarrow> 's DSMCache \<Rightarrow> 's \<Rightarrow> ObjectKey option \<Rightarrow> FieldKey \<Rightarrow> 's \<times> 't cxx" where
  "Value_get I C s lastobject FieldId =
     (case lastobject of None \<Rightarrow> (s, Trap) | Some obj \<Rightarrow> get_value I C s obj FieldId)"

definition Value_set :: "('s, 't) DSMInterface \<Rightarrow> 's DSMCache \<Rightarrow> 's \<Rightarrow> ObjectKey option \<Rightarrow> FieldKey \<Rightarrow> 't \<Rightarrow> 's cxx" where
  "Value_set I C s lastobject FieldId x =
     (case lastobject of None \<Rightarrow> Trap | Some obj \<Rightarrow> Ret (set_value I C s obj FieldId x))"

text \<open>\<^verbatim>\<open>CopyTo\<close> and \<^verbatim>\<open>CopyFrom\<close> pass the index on as a field key, whatever the size of an element.\<close>

definition CopyTo :: "('s, 't) DSMInterface \<Rightarrow> 's DSMCache \<Rightarrow> 's \<Rightarrow> ObjectKey \<Rightarrow> 't list \<Rightarrow> u32 \<Rightarrow> u32 \<Rightarrow> 's \<times> 't list" where
  "CopyTo I C s object_id localarr start_index copy_len =
     (case getchunk_as I C s object_id start_index copy_len localarr of (s, _, buf) \<Rightarrow> (s, buf))"

definition CopyFrom :: "('s, 't) DSMInterface \<Rightarrow> 's DSMCache \<Rightarrow> 's \<Rightarrow> ObjectKey \<Rightarrow> 't list \<Rightarrow> u32 \<Rightarrow> u32 \<Rightarrow> 's" where
  "CopyFrom I C s object_id localarr start_index copy_len =
     fst (putchunk_as I C s object_id start_index copy_len localarr)"

text \<open>
  \<^verbatim>\<open>Fill\<close> computes 256 elements at a time in a local array. \<open>blk\<close> is what that array holds before it is
  written; \<open>n\<close> counts the full blocks that are left.
\<close>

fun Fill_blocks :: "('s, 't) DSMInterface \<Rightarrow> 's DSMCache \<Rightarrow> ObjectKey \<Rightarrow> (u32 \<Rightarrow> 't) \<Rightarrow> u32 \<Rightarrow> nat \<Rightarrow> u32 \<Rightarrow> 's \<times> 't list \<Rightarrow>
    's \<times> 't list" where
  "Fill_blocks I C object_id func start_index 0 i (s, blk) = (s, blk)"
| "Fill_blocks I C object_id func start_index (Suc n) i (s, blk) =
     (let blk = map (\<lambda>j. func (i * 256 + of_nat j)) [0..<DSM_CACHE_BLOCK_SIZE * 8];
          s = CopyFrom I C s object_id blk (start_index + i * 256) 256
      in Fill_blocks I C object_id func start_index n (i + 1) (s, blk))"

definition Fill :: "('s, 't) DSMInterface \<Rightarrow> 's DSMCache \<Rightarrow> 's \<Rightarrow> ObjectKey \<Rightarrow> (u32 \<Rightarrow> 't) \<Rightarrow> u32 \<Rightarrow> u32 \<Rightarrow> 't list \<Rightarrow> 's" where
  "Fill I C s object_id func start_index len blk =
     (case Fill_blocks I C object_id func start_index (unat (len div 256)) 0 (s, blk) of (s, blk) \<Rightarrow>
        let remain_start = len div 256 * 256;
            blk = overwrite blk 0 (map (\<lambda>j. func (remain_start + of_nat j)) [0..<unat (len - remain_start)])
        in CopyFrom I C s object_id blk (start_index + remain_start) (len - remain_start))"

definition NewArray :: "'s SoStorage \<Rightarrow> 'r rand \<Rightarrow> ('s, 't) DSMInterface \<Rightarrow> u32 \<Rightarrow> ('s, 'r) process \<Rightarrow>
    (('s, 'r) process \<times> ObjectKey cxx) option" where
  "NewArray S rnd I sz p = AllocObjectId S rnd 1 (sz * dsm_size_of I) p"

definition DelArray :: "'s SoStorage \<Rightarrow> ObjectKey \<Rightarrow> ('s, 'r) process \<Rightarrow> ('s, 'r) process cxx" where
  "DelArray S key p =
     (let p = DeleteObject key p in
      cxx_bind (so_del S (backend_state p) key) (\<lambda>(s, _). Ret (p\<lparr>backend_state := s\<rparr>)))"

text \<open>\<open>Destroy\<close> is the virtual member function of the object's class.\<close>

definition DelObj :: "'s SoStorage \<Rightarrow> (ObjectKey \<Rightarrow> ('s, 'r) process \<Rightarrow> ('s, 'r) process) \<Rightarrow> ObjectKey \<Rightarrow> ('s, 'r) process \<Rightarrow>
    ('s, 'r) process cxx" where
  "DelObj S Destroy key p = DelArray S key (Destroy key p)"

text \<open>\<^verbatim>\<open>NewObj\<close> gives every declared field of the class two words.\<close>

definition NewObj_alloc :: "'s SoStorage \<Rightarrow> 'r rand \<Rightarrow> u32 \<Rightarrow> u32 \<Rightarrow> (ObjectKey \<Rightarrow> ('s, 'r) process \<Rightarrow> ('s, 'r) process) \<Rightarrow>
    ('s, 'r) process \<Rightarrow> (('s, 'r) process \<times> ObjectKey cxx) option" where
  "NewObj_alloc S rnd cls_id LAST construct p =
     (case AllocObjectId S rnd cls_id (LAST * 2) p of
        None \<Rightarrow> None
      | Some (p, Ret ok) \<Rightarrow> Some (construct ok p, Ret ok)
      | Some (p, r) \<Rightarrow> Some (p, r))"

section \<open>Shared strings and constants\<close>

text \<open>
  The bytes of a string are copied by whole words, so up to three bytes behind the terminating 0 are
  copied too: \<open>behind\<close> is what the memory holds after the terminating 0.
\<close>

definition dstring_words :: "nat \<Rightarrow> nat" where
  "dstring_words n = n div 4 + (if n mod 4 \<noteq> 0 then 1 else 0)"

definition DString_Create :: "'s SoStorage \<Rightarrow> 's DSMCache \<Rightarrow> 'r rand \<Rightarrow> u32 \<Rightarrow> u8 list \<Rightarrow> u8 list \<Rightarrow> ('s, 'r) process \<Rightarrow>
    (('s, 'r) process \<times> ObjectKey cxx) option" where
  "DString_Create S C rnd cls_id str behind p =
     (let size = dstring_words (length str) in
      case AllocObjectId S rnd cls_id (1 + of_nat size) p of
        None \<Rightarrow> None
      | Some (p, Ret okey) \<Rightarrow>
          let ptr = words_of_bytes (str @ 0 # behind);
              s = fst (dc_putchunk32 C (backend_state p) okey 1 (of_nat size) ptr);
              s = fst (dc_put32 C s okey 0 (of_nat (length str)))
          in Some (p\<lparr>backend_state := s\<rparr>, Ret okey)
      | Some (p, r) \<Rightarrow> Some (p, r))"

text \<open>
  \<open>buffer n\<close> is what \<^verbatim>\<open>new char[]\<close> returns for \<open>n\<close> words, one more than the string needs;
  \<^verbatim>\<open>std::string (buffer)\<close> ends at the first 0.
\<close>

definition DString_fetch :: "'s DSMCache \<Rightarrow> 's \<Rightarrow> ObjectKey \<Rightarrow> (nat \<Rightarrow> u32 list) \<Rightarrow> 's \<times> u8 list cxx" where
  "DString_fetch C s obj_id buffer =
     (case Value_get DSMInterface32 C s (Some obj_id) 0 of
        (s, Ret sz) \<Rightarrow>
          (let size = dstring_words (unat sz);
               buf = buffer (size + 1) in
           case dc_getchunk32 C s obj_id 1 (of_nat size) (take size buf) of (s, _, ws) \<Rightarrow>
             (s, Ret (takeWhile (\<lambda>b. b \<noteq> 0) ((bytes_of_words (ws @ drop size buf))[unat sz := 0]))))
      | (s, Throw e) \<Rightarrow> (s, Throw e) | (s, Trap) \<Rightarrow> (s, Trap) | (s, Indeterminate) \<Rightarrow> (s, Indeterminate))"

text \<open>A \<^verbatim>\<open>DString\<close> keeps the string after the first read: the shared string never changes.\<close>

record DString =
  ds_obj :: ObjectKey
  ds_cached :: bool
  ds_string :: "u8 list"

definition DString_new :: "ObjectKey \<Rightarrow> DString" where
  "DString_new obj_id = \<lparr>ds_obj = obj_id, ds_cached = False, ds_string = []\<rparr>"

definition DString_getstr :: "'s DSMCache \<Rightarrow> 's \<Rightarrow> DString \<Rightarrow> (nat \<Rightarrow> u32 list) \<Rightarrow> 's \<times> DString \<times> u8 list cxx" where
  "DString_getstr C s d buffer =
     (if ds_cached d then (s, d, Ret (ds_string d))
      else case DString_fetch C s (ds_obj d) buffer of
             (s, Ret str) \<Rightarrow> (s, d\<lparr>ds_cached := True, ds_string := str\<rparr>, Ret str)
           | (s, r) \<Rightarrow> (s, d\<lparr>ds_cached := True\<rparr>, r))"

record 't SharedConst =
  sc_fk :: FieldKey
  sc_val :: 't

definition SharedConst_set :: "('s, 't) DSMInterface \<Rightarrow> 's DSMCache \<Rightarrow> 's \<Rightarrow> 't SharedConst \<Rightarrow> 't \<Rightarrow> 's \<times> 't SharedConst" where
  "SharedConst_set I C s c x = (set_value I C s 0 (sc_fk c) x, c\<lparr>sc_val := x\<rparr>)"

definition SharedConst_load :: "('s, 't) DSMInterface \<Rightarrow> 's DSMCache \<Rightarrow> 's \<Rightarrow> 't SharedConst \<Rightarrow> 's \<times> 't SharedConst cxx" where
  "SharedConst_load I C s c =
     (case get_value I C s 0 (sc_fk c) of (s, r) \<Rightarrow> (s, cxx_bind r (\<lambda>v. Ret (c\<lparr>sc_val := v\<rparr>))))"

end
