(* ===== verification/Dogee_ObjectFacts.thy ===== *)
theory Dogee_ObjectFacts
  imports Dogee_Objects
begin

text \<open>
  What the object layer guarantees: allocation and its failure, element access, \<^verbatim>\<open>CopyFrom\<close>, \<^verbatim>\<open>CopyTo\<close> and
  \<^verbatim>\<open>Fill\<close> of shared arrays, and shared strings. The clients are verified against the contract \<open>dsm_cache\<close>
  of the cache they call; the pass-through cache over any backend meets it.
\<close>

section \<open>The contract of the cache\<close>

locale dsm_cache =
  fixes C :: "'s DSMCache"
    and ok :: "'s \<Rightarrow> bool"
    and mem :: "'s \<Rightarrow> dsm"
    and info :: "'s \<Rightarrow> ObjectKey \<Rightarrow> (u32 \<times> u32) option"
  assumes cache_put32: "ok s \<Longrightarrow> dsm_range fld 1 \<Longrightarrow>
      \<exists>s'. dc_put32 C s key fld v = (s', Some SoOK) \<and> ok s' \<and> mem s' = dsm_write (mem s) key fld [v] \<and> info s' = info s"
    and cache_put64: "ok s \<Longrightarrow> dsm_range fld 2 \<Longrightarrow>
      \<exists>s'. dc_put64 C s key fld v64 = (s', Some SoOK) \<and> ok s' \<and> mem s' = dsm_write (mem s) key fld (u64_words v64) \<and> info s' = info s"
    and cache_get: "ok s \<Longrightarrow> dsm_range fld 1 \<Longrightarrow>
      \<exists>s'. dc_get C s key fld = (s', Ret (mem s key fld)) \<and> ok s' \<and> mem s' = mem s \<and> info s' = info s"
    and cache_putchunk32: "ok s \<Longrightarrow> dsm_range fld (unat len) \<Longrightarrow> unat len \<le> length buf \<Longrightarrow>
      \<exists>s'. dc_putchunk32 C s key fld len buf = (s', Some SoOK) \<and> ok s' \<and>
        mem s' = dsm_write (mem s) key fld (take (unat len) buf) \<and> info s' = info s"
    and cache_getchunk32: "ok s \<Longrightarrow> dsm_range fld (unat len) \<Longrightarrow> unat len = length buf \<Longrightarrow> 0 < unat len \<Longrightarrow>
      \<exists>s'. dc_getchunk32 C s key fld len buf = (s', Some SoOK, dsm_read (mem s) key fld (unat len)) \<and> ok s' \<and>
        mem s' = mem s \<and> info s' = info s"
    and cache_putchunk64: "ok s \<Longrightarrow> dsm_range fld (2 * unat len) \<Longrightarrow> unat len \<le> length buf64 \<Longrightarrow>
      \<exists>s'. dc_putchunk64 C s key fld len buf64 = (s', Some SoOK) \<and> ok s' \<and>
        mem s' = dsm_write (mem s) key fld (words_of_u64s (take (unat len) buf64)) \<and> info s' = info s"
    and cache_getchunk64: "ok s \<Longrightarrow> dsm_range fld (2 * unat len) \<Longrightarrow> unat len = length buf64 \<Longrightarrow> 0 < unat len \<Longrightarrow>
      \<exists>s'. dc_getchunk64 C s key fld len buf64 = (s', Some SoOK, u64s_of_words (dsm_read (mem s) key fld (2 * unat len))) \<and>
        ok s' \<and> mem s' = mem s \<and> info s' = info s"

lemma take_words_of_u64s: "take (2 * n) (words_of_u64s vs) = words_of_u64s (take n vs)"
proof (induction vs arbitrary: n)
  case (Cons v vs)
  then show ?case by (cases n) (simp_all add: u64_words_def)
qed simp

lemma unat_double: "dsm_range fld (2 * unat len) \<Longrightarrow> unat (len * 2) = 2 * unat (len :: u32)"
  by (simp add: dsm_range_def unat_word_ariths)

lemma dsm_range_mono: "dsm_range fld n \<Longrightarrow> m \<le> n \<Longrightarrow> dsm_range fld m"
  by (simp add: dsm_range_def)

text \<open>The pass-through cache meets the contract over every backend that meets \<open>dsm_storage\<close>.\<close>

sublocale dsm_storage \<subseteq> nc: dsm_cache "DSMNoCache S" ok mem info
proof
  fix s fld key v and v64 :: u64 and len :: u32 and buf :: "u32 list" and buf64 :: "u64 list"
  assume s: "ok s"
  show "\<exists>s'. dc_put32 (DSMNoCache S) s key fld v = (s', Some SoOK) \<and> ok s' \<and>
      mem s' = dsm_write (mem s) key fld [v] \<and> info s' = info s" if "dsm_range fld 1"
    using put32 [OF s that, of key v] by (auto simp: DSMNoCache_def)
  show "\<exists>s'. dc_put64 (DSMNoCache S) s key fld v64 = (s', Some SoOK) \<and> ok s' \<and>
      mem s' = dsm_write (mem s) key fld (u64_words v64) \<and> info s' = info s" if "dsm_range fld 2"
    using putchunk32 [OF s, of fld 2 "u64_words v64" key] that by (auto simp: DSMNoCache_def put64_chunk u64_words_def)
  show "\<exists>s'. dc_get (DSMNoCache S) s key fld = (s', Ret (mem s key fld)) \<and> ok s' \<and> mem s' = mem s \<and> info s' = info s"
    if "dsm_range fld 1"
    using get [OF s that, of key] s by (simp add: DSMNoCache_def)
  show "\<exists>s'. dc_putchunk32 (DSMNoCache S) s key fld len buf = (s', Some SoOK) \<and> ok s' \<and>
      mem s' = dsm_write (mem s) key fld (take (unat len) buf) \<and> info s' = info s"
    if "dsm_range fld (unat len)" "unat len \<le> length buf"
    using putchunk32 [OF s that, of key] by (auto simp: DSMNoCache_def)
  show "\<exists>s'. dc_getchunk32 (DSMNoCache S) s key fld len buf = (s', Some SoOK, dsm_read (mem s) key fld (unat len)) \<and>
      ok s' \<and> mem s' = mem s \<and> info s' = info s"
    if "dsm_range fld (unat len)" "unat len = length buf" "0 < unat len"
    using getchunk32 [OF s that, of key] s by (simp add: DSMNoCache_def)
  show "\<exists>s'. dc_putchunk64 (DSMNoCache S) s key fld len buf64 = (s', Some SoOK) \<and> ok s' \<and>
      mem s' = dsm_write (mem s) key fld (words_of_u64s (take (unat len) buf64)) \<and> info s' = info s"
    if "dsm_range fld (2 * unat len)" "unat len \<le> length buf64"
    using putchunk32 [OF s, of fld "len * 2" "words_of_u64s buf64" key] that
    by (auto simp: DSMNoCache_def putchunk64_chunk unat_double take_words_of_u64s)
  show "\<exists>s'. dc_getchunk64 (DSMNoCache S) s key fld len buf64 =
      (s', Some SoOK, u64s_of_words (dsm_read (mem s) key fld (2 * unat len))) \<and> ok s' \<and> mem s' = mem s \<and> info s' = info s"
    if "dsm_range fld (2 * unat len)" "unat len = length buf64" "0 < unat len"
    using getchunk32 [OF s, of fld "len * 2" "words_of_u64s buf64" key] that s
    by (simp add: DSMNoCache_def getchunk64_chunk unat_double)
qed

section \<open>Elements of arrays\<close>

text \<open>
  What \<^verbatim>\<open>DSMInterface<T>\<close> promises: an element is the \<open>n\<close> words \<open>enc\<close> gives, in the abstract memory.
\<close>

locale dsm_element = dsm_cache C ok mem info
  for C :: "'s DSMCache" and ok :: "'s \<Rightarrow> bool" and mem :: "'s \<Rightarrow> dsm"
    and info :: "'s \<Rightarrow> ObjectKey \<Rightarrow> (u32 \<times> u32) option" +
  fixes I :: "('s, 't) DSMInterface" and n :: nat and enc :: "'t \<Rightarrow> u32 list"
  assumes elem_size: "dsm_size_of I = of_nat n" "0 < n" "n \<le> 2"
    and elem_words: "length (enc v) = n"
    and elem_set: "ok s \<Longrightarrow> dsm_range fld n \<Longrightarrow>
      \<exists>s'. set_value I C s key fld v = s' \<and> ok s' \<and> mem s' = dsm_write (mem s) key fld (enc v) \<and> info s' = info s"
    and elem_get: "ok s \<Longrightarrow> dsm_range fld n \<Longrightarrow> dsm_read (mem s) key fld n = enc v \<Longrightarrow>
      \<exists>s'. get_value I C s key fld = (s', Ret v) \<and> ok s' \<and> mem s' = mem s \<and> info s' = info s"
    and elem_put: "ok s \<Longrightarrow> dsm_range fld (n * unat len) \<Longrightarrow> unat len \<le> length vs \<Longrightarrow>
      \<exists>s'. fst (putchunk_as I C s key fld len vs) = s' \<and> ok s' \<and>
        mem s' = dsm_write (mem s) key fld (concat (map enc (take (unat len) vs))) \<and> info s' = info s"
begin

lemma length_enc [simp]: "length (concat (map enc vs)) = n * length vs"
  by (induction vs) (simp_all add: elem_words)

lemma nth_enc: "k < length vs \<Longrightarrow> take n (drop (n * k) (concat (map enc vs))) = enc (vs ! k)"
proof (induction vs arbitrary: k)
  case (Cons v vs)
  show ?case
  proof (cases k)
    case 0
    then show ?thesis by (simp add: elem_words)
  next
    case (Suc k')
    then have "take n (drop (n * k') (concat (map enc vs))) = enc (vs ! k')" using Cons by simp
    then show ?thesis using Suc by (simp add: elem_words)
  qed
qed simp

text \<open>An element that was written by \<^verbatim>\<open>CopyFrom\<close> at the start of an array is what its index reads.\<close>

lemma copy_from_then_element:
  assumes "ok s" "dsm_range 0 (n * length vs)" "k < length vs"
  shows "\<exists>s'. ArrayElement_get I C (CopyFrom I C s obj vs 0 (of_nat (length vs))) (ArrayAccess I obj (of_nat k)) = (s', Ret (vs ! k)) \<and>
    ok s' \<and> mem s' = dsm_write (mem s) obj 0 (concat (map enc vs))"
proof -
  have len: "length vs \<le> n * length vs" using elem_size by simp
  have "length vs < 2 ^ 32" using le_less_trans [OF len, of "2 ^ 32"] assms(2) by (simp add: dsm_range_def)
  then have small: "unat (of_nat (length vs) :: u32) = length vs" by (simp add: unat_of_nat_small)
  obtain s1 where s1: "CopyFrom I C s obj vs 0 (of_nat (length vs)) = s1" "ok s1"
      "mem s1 = dsm_write (mem s) obj 0 (concat (map enc vs))"
    using elem_put [of s 0 "of_nat (length vs)" vs obj] assms small by (auto simp: CopyFrom_def)
  have kn: "n * k + n \<le> n * length vs" using assms(3) by (metis Suc_leI mult_le_mono2 mult_Suc_right add.commute)
  have fld: "unat (of_nat k * dsm_size_of I :: u32) = n * k"
  proof -
    have "(of_nat k * dsm_size_of I :: u32) = of_nat (n * k)" by (simp add: elem_size mult.commute)
    moreover have "n * k < 2 ^ 32" using kn assms(2) by (simp add: dsm_range_def)
    ultimately show ?thesis using unat_of_nat_small [where 'a = 32, of "n * k"] by simp
  qed
  have "dsm_read (mem s1) obj (of_nat k * dsm_size_of I) n = take n (drop (n * k) (concat (map enc vs)))"
    using kn fld assms(2,3) unfolding s1(3)
    by (intro nth_equalityI) (auto simp: dsm_read_def dsm_write_def dsm_range_def unat_add_of_nat)
  also have "\<dots> = enc (vs ! k)" by (rule nth_enc [OF assms(3)])
  finally obtain s2 where "get_value I C s1 obj (of_nat k * dsm_size_of I) = (s2, Ret (vs ! k))" "ok s2" "mem s2 = mem s1"
    using elem_get [of s1 "of_nat k * dsm_size_of I" obj "vs ! k"] s1 fld kn assms(2) by (auto simp: dsm_range_def)
  then show ?thesis using s1 by (auto simp: ArrayElement_get_def ArrayAccess_def)
qed

text \<open>Blocks of one-word elements are written one behind the other.\<close>

lemma Fill_blocks_mem:
  assumes "n = 1" "ok s" "dsm_range start (256 * (i + m))"
  shows "\<exists>s' blk'. Fill_blocks I C obj func start m (of_nat i) (s, blk) = (s', blk') \<and> ok s' \<and> info s' = info s \<and>
    (length blk = 256 \<longrightarrow> length blk' = 256) \<and>
    mem s' = dsm_write (mem s) obj (start + of_nat (256 * i)) (concat (map (\<lambda>j. enc (func (of_nat (256 * i + j)))) [0..<256 * m]))"
  using assms
proof (induction m arbitrary: i s blk)
  case (Suc m)
  let ?el = "\<lambda>j. func (of_nat (256 * i + j))"
  let ?blk = "map ?el [0..<256]"
  have st: "unat (start + of_nat (256 * i)) = unat start + 256 * i" and r: "dsm_range (start + of_nat (256 * i)) (256 * Suc m)"
    using Suc.prems(3) by (simp_all add: dsm_range_def unat_add_of_nat del: of_nat_mult)
  have "dsm_range (start + of_nat (256 * i)) (n * unat (256 :: u32))" using r Suc.prems(1) by (auto intro: dsm_range_mono)
  then obtain s1 where s1: "CopyFrom I C s obj ?blk (start + of_nat (256 * i)) 256 = s1" "ok s1" "info s1 = info s"
      "mem s1 = dsm_write (mem s) obj (start + of_nat (256 * i)) (concat (map enc ?blk))"
    using elem_put [of s "start + of_nat (256 * i)" 256 ?blk obj] Suc.prems by (auto simp: CopyFrom_def)
  have next_blk: "dsm_range start (256 * (Suc i + m))" using Suc.prems(3) by (simp add: ac_simps)
  obtain s2 blk2 where s2: "Fill_blocks I C obj func start m (of_nat (Suc i)) (s1, ?blk) = (s2, blk2)" "ok s2" "info s2 = info s1"
      "length blk2 = 256" "mem s2 = dsm_write (mem s1) obj (start + of_nat (256 * Suc i))
        (concat (map (\<lambda>j. enc (func (of_nat (256 * Suc i + j)))) [0..<256 * m]))"
    using Suc.IH [OF Suc.prems(1) s1(2) next_blk, of ?blk] by auto
  have step: "Fill_blocks I C obj func start (Suc m) (of_nat i) (s, blk) = (s2, blk2)"
    using s1(1) s2(1) by (simp add: Let_def ac_simps)
  let ?w = "\<lambda>j. enc (?el j)"
  have len: "length (concat (map ?w [0..<256])) = 256" using length_enc [of ?blk] Suc.prems(1) by (simp add: comp_def)
  have len': "length (concat (map (\<lambda>j. ?w (256 + j)) [0..<256 * m])) = 256 * m"
    using length_enc [of "map (\<lambda>j. ?el (256 + j)) [0..<256 * m]"] Suc.prems(1) by (simp add: comp_def)
  have "mem s2 = dsm_write (dsm_write (mem s) obj (start + of_nat (256 * i)) (concat (map ?w [0..<256]))) obj
      (start + of_nat (256 * i) + of_nat 256) (concat (map (\<lambda>j. ?w (256 + j)) [0..<256 * m]))"
    using s2(5) s1(4) by (simp add: comp_def algebra_simps)
  also have "\<dots> = dsm_write (mem s) obj (start + of_nat (256 * i))
      (concat (map ?w [0..<256]) @ concat (map (\<lambda>j. ?w (256 + j)) [0..<256 * m]))"
    using dsm_write_append [of "start + of_nat (256 * i)" "concat (map ?w [0..<256])" "concat (map (\<lambda>j. ?w (256 + j)) [0..<256 * m])"
        "mem s" obj] r len len' by simp
  also have "concat (map ?w [0..<256]) @ concat (map (\<lambda>j. ?w (256 + j)) [0..<256 * m]) = concat (map ?w [0..<256 * Suc m])"
  proof -
    have "[0..<256 * Suc m] = [0..<256] @ map (\<lambda>j. j + 256) [0..<256 * m]"
      using upt_add_eq_append [of 0 256 "256 * m"] by (simp add: map_add_upt add.commute)
    then show ?thesis by (simp add: comp_def ac_simps)
  qed
  finally show ?case using step s1(3) s2(2,3,4) by auto
qed simp

lemma Fill_mem:
  assumes "n = 1" "ok s" "dsm_range start (unat len)" "length blk = 256"
  shows "\<exists>s'. Fill I C s obj func start len blk = s' \<and> ok s' \<and> info s' = info s \<and>
    mem s' = dsm_write (mem s) obj start (concat (map (\<lambda>j. enc (func (of_nat j))) [0..<unat len]))"
proof -
  let ?q = "unat len div 256" and ?r = "unat len mod 256"
  have q: "256 * ?q + ?r = unat len" by simp
  have "dsm_range start (256 * (0 + ?q))" using assms(3) q by (auto intro: dsm_range_mono)
  then obtain s1 blk1 where s1: "Fill_blocks I C obj func start ?q 0 (s, blk) = (s1, blk1)" "ok s1" "info s1 = info s"
      "length blk1 = 256" "mem s1 = dsm_write (mem s) obj start (concat (map (\<lambda>j. enc (func (of_nat j))) [0..<256 * ?q]))"
    using Fill_blocks_mem [OF assms(1,2), of start 0 ?q obj func blk] assms(4) by auto
  have rem: "len div 256 * 256 = of_nat (256 * ?q)" "len - of_nat (256 * ?q) = of_nat ?r"
  proof -
    have "len div 256 = of_nat ?q" by (simp add: word_arith_nat_div)
    then show "len div 256 * 256 = of_nat (256 * ?q)" by (simp add: mult.commute)
    have "len = of_nat (256 * ?q + ?r)" by (simp only: q) simp
    then show "len - of_nat (256 * ?q) = of_nat ?r" by (metis add_diff_cancel_left' of_nat_add)
  qed
  have r: "unat (of_nat ?r :: u32) = ?r" by (simp add: unat_of_nat_small less_trans [OF mod_less_divisor])
  let ?w = "\<lambda>j. func (of_nat j)"
  let ?vs = "map (\<lambda>j. func (of_nat (256 * ?q + j))) [0..<?r]"
  let ?blk = "overwrite blk1 0 ?vs"
  have blk: "length ?blk = 256" "take ?r ?blk = ?vs"
    using s1(4) mod_less_divisor [of 256 "unat len"] by (simp_all add: overwrite_def)
  have st: "unat (start + of_nat (256 * ?q)) = unat start + 256 * ?q"
    using assms(3) q by (intro unat_add_of_nat) (simp add: dsm_range_def)
  have "dsm_range (start + of_nat (256 * ?q)) (n * unat (of_nat ?r :: u32))"
    using assms(1,3) q st r by (simp add: dsm_range_def)
  then obtain s2 where s2: "CopyFrom I C s1 obj ?blk (start + of_nat (256 * ?q)) (of_nat ?r) = s2" "ok s2" "info s2 = info s1"
      "mem s2 = dsm_write (mem s1) obj (start + of_nat (256 * ?q)) (concat (map enc ?vs))"
    using elem_put [OF s1(2), of "start + of_nat (256 * ?q)" "of_nat ?r" ?blk obj] blk r by (auto simp: CopyFrom_def)
  have fill: "Fill I C s obj func start len blk = s2"
    using s1(1) s2(1) r unfolding Fill_def Let_def rem by (simp add: unat_div)
  have all: "[0..<unat len] = [0..<256 * ?q] @ map (\<lambda>j. j + 256 * ?q) [0..<?r]"
    using upt_add_eq_append [of 0 "256 * ?q" ?r] q by (simp add: map_add_upt add.commute)
  have len: "length (concat (map (\<lambda>j. enc (?w j)) [0..<256 * ?q])) = 256 * ?q"
    using length_enc [of "map ?w [0..<256 * ?q]"] assms(1) by (simp add: comp_def)
  have "mem s2 = dsm_write (mem s) obj start (concat (map (\<lambda>j. enc (?w j)) [0..<256 * ?q]) @ concat (map enc ?vs))"
    unfolding s2(4) s1(5) using dsm_write_append [of start "concat (map (\<lambda>j. enc (?w j)) [0..<256 * ?q])" "concat (map enc ?vs)" "mem s" obj]
      assms(1,3) len q length_enc [of ?vs] by simp
  also have "concat (map (\<lambda>j. enc (?w j)) [0..<256 * ?q]) @ concat (map enc ?vs) = concat (map (\<lambda>j. enc (?w j)) [0..<unat len])"
    unfolding all by (simp add: comp_def add.commute)
  finally show ?thesis using fill s2(2,3) s1(3) by simp
qed

text \<open>
  Elements of two words: the second block of \<^verbatim>\<open>Fill\<close> starts at field 256, in the middle of the first.
\<close>

lemma Fill_two_blocks_overlap:
  assumes "n = 2" "ok s" "128 \<le> k" "k < 256" "length blk = 256"
  shows "\<exists>s'. ArrayElement_get I C (Fill I C s obj func 0 512 blk) (ArrayAccess I obj (of_nat k)) = (s', Ret (func (of_nat (k + 128))))"
proof -
  let ?b0 = "map (\<lambda>j. func (of_nat j)) [0..<256]" and ?b1 = "map (\<lambda>j. func (256 + of_nat j)) [0..<256]"
  obtain s1 where s1: "CopyFrom I C s obj ?b0 0 256 = s1" "ok s1"
    using elem_put [of s 0 256 ?b0 obj] assms by (auto simp: CopyFrom_def dsm_range_def)
  obtain s2 where s2: "CopyFrom I C s1 obj ?b1 256 256 = s2" "ok s2"
      "mem s2 = dsm_write (mem s1) obj 256 (concat (map enc ?b1))"
    using elem_put [of s1 256 256 ?b1 obj] assms s1 by (auto simp: CopyFrom_def dsm_range_def)
  obtain s3 where s3: "CopyFrom I C s2 obj ?b1 512 0 = s3" "ok s3" "mem s3 = mem s2"
    using elem_put [of s2 512 0 ?b1 obj] assms s2 by (auto simp: CopyFrom_def dsm_range_def)
  have blocks: "Fill_blocks I C obj func 0 (Suc (Suc 0)) 0 (s, blk) = (s2, ?b1)"
    using s1 s2 by (simp add: Let_def del: upt.simps)
  have q: "unat (512 div 256 :: u32) = Suc (Suc 0)" by simp
  have fill: "Fill I C s obj func 0 512 blk = s3"
    using s3 unfolding Fill_def q blocks by (simp add: Let_def)
  have fld: "unat (of_nat k * 2 :: u32) = 2 * k" using assms(4) by (simp add: unat_word_ariths unat_of_nat_small)
  have pos: "2 * k + i - 256 = 2 * (k - 128) + i" for i using assms(3) by linarith
  have "dsm_read (mem s3) obj (of_nat k * 2) 2 = take n (drop (n * (k - 128)) (concat (map enc ?b1)))"
    using fld assms(1,3,4) length_enc [of ?b1] unfolding s3(3) s2(3)
    by (intro nth_equalityI) (auto simp: dsm_read_def dsm_write_def unat_add_of_nat pos simp del: length_enc)
  also have "\<dots> = enc (func (of_nat (k + 128)))"
    using nth_enc [of "k - 128" ?b1] assms(3,4) by (simp add: of_nat_diff add.commute)
  finally show ?thesis
    using elem_get [of s3 "of_nat k * 2" obj] s3(2) fld assms(1,4) elem_size(1) fill
    by (auto simp: ArrayElement_get_def ArrayAccess_def dsm_range_def)
qed

text \<open>After \<^verbatim>\<open>Fill\<close> every index of the range reads the value the function gave for it.\<close>

lemma Fill_then_element:
  assumes "n = 1" "ok s" "dsm_range start (unat len)" "length blk = 256" "k < unat len"
  shows "\<exists>s'. ArrayElement_get I C (Fill I C s obj func start len blk) (ArrayAccess I obj (start + of_nat k)) = (s', Ret (func (of_nat k))) \<and>
    ok s' \<and> mem s' = dsm_write (mem s) obj start (concat (map (\<lambda>j. enc (func (of_nat j))) [0..<unat len]))"
proof -
  obtain s1 where s1: "Fill I C s obj func start len blk = s1" "ok s1"
      "mem s1 = dsm_write (mem s) obj start (concat (map enc (map (\<lambda>j. func (of_nat j)) [0..<unat len])))"
    using Fill_mem [OF assms(1-4), of obj func] by (auto simp: comp_def)
  have st: "unat (start + of_nat k) = unat start + k" using assms(3,5) by (simp add: dsm_range_def unat_add_of_nat)
  let ?vs = "map (\<lambda>j. func (of_nat j)) [0..<unat len]"
  have "dsm_read (mem s1) obj (start + of_nat k) 1 = take n (drop (n * k) (concat (map enc ?vs)))"
    using st assms(1,5) length_enc [of ?vs] unfolding s1(3)
    by (intro nth_equalityI) (auto simp: dsm_read_def dsm_write_def simp del: length_enc)
  also have "\<dots> = enc (func (of_nat k))" using nth_enc [of k ?vs] assms(5) by simp
  finally show ?thesis
    using elem_get [of s1 "start + of_nat k" obj] s1 st assms(1,3,5) elem_size(1)
    by (auto simp: ArrayElement_get_def ArrayAccess_def dsm_range_def comp_def)
qed

end

text \<open>The interfaces for 4-byte and for 8-byte types meet the contract over every cache.\<close>

sublocale dsm_cache \<subseteq> e32: dsm_element C ok mem info DSMInterface32 1 "\<lambda>v. [v]"
proof unfold_locales
  fix s fld key v and len :: u32 and vs :: "u32 list"
  assume s: "ok s"
  show "\<exists>s'. set_value DSMInterface32 C s key fld v = s' \<and> ok s' \<and> mem s' = dsm_write (mem s) key fld [v] \<and> info s' = info s"
    if "dsm_range fld 1"
    using cache_put32 [OF s that, of key v] by (auto simp: DSMInterface32_def)
  show "\<exists>s'. get_value DSMInterface32 C s key fld = (s', Ret v) \<and> ok s' \<and> mem s' = mem s \<and> info s' = info s"
    if "dsm_range fld 1" "dsm_read (mem s) key fld 1 = [v]"
    using cache_get [OF s that(1), of key] that(2) by (auto simp: DSMInterface32_def dsm_read_def)
  show "\<exists>s'. fst (putchunk_as DSMInterface32 C s key fld len vs) = s' \<and> ok s' \<and>
      mem s' = dsm_write (mem s) key fld (concat (map (\<lambda>v. [v]) (take (unat len) vs))) \<and> info s' = info s"
    if "dsm_range fld (1 * unat len)" "unat len \<le> length vs"
    using cache_putchunk32 [OF s, of fld len vs key] that by (auto simp: DSMInterface32_def)
qed (simp_all add: DSMInterface32_def)

sublocale dsm_cache \<subseteq> e64: dsm_element C ok mem info DSMInterface64 2 u64_words
proof unfold_locales
  fix s fld key v and len :: u32 and vs :: "u64 list"
  assume s: "ok s"
  show "\<exists>s'. set_value DSMInterface64 C s key fld v = s' \<and> ok s' \<and> mem s' = dsm_write (mem s) key fld (u64_words v) \<and> info s' = info s"
    if "dsm_range fld 2"
    using cache_put64 [OF s that, of key v] by (auto simp: DSMInterface64_def)
  show "\<exists>s'. get_value DSMInterface64 C s key fld = (s', Ret v) \<and> ok s' \<and> mem s' = mem s \<and> info s' = info s"
    if "dsm_range fld 2" "dsm_read (mem s) key fld 2 = u64_words v"
    using cache_getchunk64 [OF s, of fld 1 "[0]" key] that by (auto simp: DSMInterface64_def u64_words_def)
  show "\<exists>s'. fst (putchunk_as DSMInterface64 C s key fld len vs) = s' \<and> ok s' \<and>
      mem s' = dsm_write (mem s) key fld (concat (map u64_words (take (unat len) vs))) \<and> info s' = info s"
    if "dsm_range fld (2 * unat len)" "unat len \<le> length vs"
    using cache_putchunk64 [OF s that, of key] by (auto simp: DSMInterface64_def words_of_u64s_def)
qed (simp_all add: DSMInterface64_def u64_words_def)

section \<open>Allocation\<close>

lemma rand_key_done [simp]: "key \<noteq> 0 \<Longrightarrow> rand_key rnd r key = Some (r, key)"
  by (simp add: rand_key.simps)

lemma rand_key_nonzero:
  assumes "rand_key rnd r key = Some (r', key')"
  shows "key' \<noteq> 0"
proof -
  have "snd (r', key') \<noteq> 0"
    by (rule rand_key.raw_induct [where P = "\<lambda>_ _ _ y. snd y \<noteq> 0", OF _ assms]) (auto split: if_splits prod.splits)
  then show ?thesis by simp
qed

text \<open>The search for a key ends as soon as the generator returns something else than 0.\<close>

lemma rand_key_ends:
  assumes "snd (rnd (((\<lambda>x. fst (rnd x)) ^^ n) r)) \<noteq> 0"
  shows "\<exists>r' key'. rand_key rnd r key = Some (r', key')"
  using assms
proof (induction n arbitrary: r key)
  case 0
  then show ?case by (cases "key = 0"; cases "rnd r") (simp_all add: rand_key.simps)
next
  case (Suc n)
  then have "snd (rnd (((\<lambda>x. fst (rnd x)) ^^ n) (fst (rnd r)))) \<noteq> 0" by (simp add: funpow_Suc_right del: funpow.simps)
  from Suc.IH [OF this, of "snd (rnd r)"] show ?case
    by (cases "key = 0") (simp_all add: rand_key.simps [of rnd r 0] case_prod_unfold)
qed

context dsm_storage
begin

lemma alloc_fresh:
  assumes "ok (backend_state p)" "rand_key rnd (rand_state p) 0 = Some (r, key)" "info (backend_state p) key = None"
  obtains s' where
    "AllocObjectId S rnd cls_id sz p = Some (PushObject key (p\<lparr>backend_state := s', rand_state := r\<rparr>), Ret key)"
    "ok s'" "mem s' = mem (backend_state p)" "info s' = (info (backend_state p))(key \<mapsto> (cls_id, sz))"
proof -
  obtain s' where s': "so_newobj S (backend_state p) key cls_id sz = (s', SoOK)" "ok s'" "mem s' = mem (backend_state p)"
      "info s' = (info (backend_state p))(key \<mapsto> (cls_id, sz))"
    using newobj [OF assms(1,3), of cls_id sz] by blast
  have tries: "DOGEE_MAX_SHARED_KEY_TRIES = Suc 199" by (simp add: DOGEE_MAX_SHARED_KEY_TRIES_def)
  have "AllocObjectId S rnd cls_id sz p = Some (PushObject key (p\<lparr>backend_state := s', rand_state := r\<rparr>), Ret key)"
    unfolding AllocObjectId_def tries alloc_tries.simps using assms(2) s'(1) by (simp add: Let_def)
  with s' show ?thesis by (intro that) auto
qed

lemma alloc_tries_taken:
  assumes "ok (backend_state p)" "rand_key rnd (rand_state p) k = Some (r, key)" "info (backend_state p) key \<noteq> None"
  shows "\<exists>p'. alloc_tries S rnd cls_id sz i k p = Some (p', Trap) \<and> ok (backend_state p') \<and> object_list p' = object_list p \<and>
    mem (backend_state p') = mem (backend_state p) \<and> info (backend_state p') = info (backend_state p)"
  using assms
proof (induction i arbitrary: p k r)
  case (Suc i)
  obtain s' where s': "so_newobj S (backend_state p) key cls_id sz = (s', SoFail)" "ok s'" "mem s' = mem (backend_state p)"
      "info s' = info (backend_state p)"
    using newobj_taken [OF Suc.prems(1,3), of cls_id sz] by blast
  let ?p = "p\<lparr>backend_state := s', rand_state := r\<rparr>"
  have "key \<noteq> 0" by (rule rand_key_nonzero [OF Suc.prems(2)])
  then have "\<exists>p'. alloc_tries S rnd cls_id sz i key ?p = Some (p', Trap) \<and> ok (backend_state p') \<and> object_list p' = object_list ?p \<and>
      mem (backend_state p') = mem (backend_state ?p) \<and> info (backend_state p') = info (backend_state ?p)"
    using Suc.prems s' by (intro Suc.IH [of ?p key r]) simp_all
  then show ?case using Suc.prems(2) s' by simp
qed simp

end

section \<open>Shared strings\<close>

lemma dstring_words_bounds: "length str \<le> 4 * dstring_words (length str)" "4 * dstring_words (length str) \<le> length str + 3"
proof -
  obtain q r where "length str = 4 * q + r" "r < 4" "length str div 4 = q" "length str mod 4 = r"
    by (rule that [of "length str div 4" "length str mod 4"]) simp_all
  then show "length str \<le> 4 * dstring_words (length str)" "4 * dstring_words (length str) \<le> length str + 3"
    by (simp_all add: dstring_words_def)
qed

context dsm_storage
begin

lemma fetch_after_write:
  assumes "ok s" "0 \<notin> set str" "str \<noteq> []" "length str < 2 ^ 32 - 64" "3 \<le> length behind" "\<And>k. length (buffer k) = k"
    and "mem s = dsm_write (dsm_write m key 1 (take (dstring_words (length str)) (words_of_bytes (str @ 0 # behind)))) key 0 [of_nat (length str)]"
  shows "\<exists>s'. DString_fetch (DSMNoCache S) s key buffer = (s', Ret str)"
proof -
  let ?size = "dstring_words (length str)" and ?C = "DSMNoCache S"
  let ?ws = "take ?size (words_of_bytes (str @ 0 # behind))"
  have sz: "length str \<le> 4 * ?size" "4 * ?size \<le> length str + 3" by (rule dstring_words_bounds)+
  have len: "length ?ws = ?size" using sz assms(5) by (simp add: length_words_of_bytes)
  have n: "unat (of_nat ?size :: u32) = ?size" "unat (of_nat (length str) :: u32) = length str"
    using sz assms(4) by (simp_all add: unat_of_nat_small)
  have pos: "0 < ?size" using assms(3) sz by (cases ?size) auto
  have "mem s key 0 = of_nat (length str)" unfolding assms(7) by (simp add: dsm_write_def)
  then have m_size: "Value_get DSMInterface32 ?C s (Some key) 0 = (s, Ret (of_nat (length str)))"
    using get [OF assms(1), of 0 key] by (simp add: Value_get_def DSMInterface32_def DSMNoCache_def dsm_range_def)
  have range: "dsm_range (1 :: u32) ?size" using sz assms(4) by (simp add: dsm_range_def)
  have "dsm_read (mem s) key 1 ?size = ?ws"
    unfolding assms(7) using dsm_read_write_same [of 1 ?ws m key] range len
    by (subst dsm_read_write_disjoint) (simp_all add: dsm_range_def)
  then have chunk: "dc_getchunk32 ?C s key 1 (of_nat ?size) (take ?size (buffer (?size + 1))) = (s, Some SoOK, ?ws)"
    using getchunk32 [OF assms(1), of 1 "of_nat ?size" "take ?size (buffer (?size + 1))" key] n range pos assms(6)
    by (simp add: DSMNoCache_def)
  let ?bs = "take (4 * ?size) (str @ 0 # behind)"
  have "bytes_of_words ?ws = ?bs"
    unfolding take_words_of_bytes using sz assms(5) by (intro bytes_of_words_of_bytes) (simp add: min_absorb2)
  also have "\<dots> = str @ take (4 * ?size - length str) (0 # behind)" using sz(1) by simp
  finally have bytes: "bytes_of_words (?ws @ rest) = str @ (take (4 * ?size - length str) (0 # behind) @ bytes_of_words rest)" for rest
    by (simp add: bytes_of_words_def)
  show ?thesis
    unfolding DString_fetch_def m_size Let_def prod.case cxx.case n chunk bytes takeWhile_terminated [OF assms(2)] by blast
qed

lemma string_round_trip:
  assumes "ok (backend_state p)" "rand_key rnd (rand_state p) 0 = Some (r, key)" "info (backend_state p) key = None"
    and "0 \<notin> set str" "str \<noteq> []" "length str < 2 ^ 32 - 64" "3 \<le> length behind" "\<And>k. length (buffer k) = k"
  shows "\<exists>p' s'. DString_Create S (DSMNoCache S) rnd cls_id str behind p = Some (p', Ret key) \<and>
    DString_fetch (DSMNoCache S) (backend_state p') key buffer = (s', Ret str)"
proof -
  let ?size = "dstring_words (length str)" and ?C = "DSMNoCache S"
  have sz: "length str \<le> 4 * ?size" "4 * ?size \<le> length str + 3" by (rule dstring_words_bounds)+
  obtain s0 where s0: "AllocObjectId S rnd cls_id (1 + of_nat ?size) p = Some (PushObject key (p\<lparr>backend_state := s0, rand_state := r\<rparr>), Ret key)"
      "ok s0" by (rule alloc_fresh [OF assms(1-3)])
  have n: "unat (of_nat ?size :: u32) = ?size" using sz assms(6) by (simp add: unat_of_nat_small)
  have "?size \<le> (length str + 4) div 4" using sz(2) by (simp add: less_eq_div_iff_mult_less_eq)
  then have room: "?size \<le> length (words_of_bytes (str @ 0 # behind))" "unat (1 :: u32) + ?size \<le> 2 ^ 32 - 32"
    using div_le_mono [of "length str + 4" "length (str @ 0 # behind)" 4] sz assms(6,7) by (simp_all add: length_words_of_bytes)
  obtain s1 where s1: "dc_putchunk32 ?C s0 key 1 (of_nat ?size) (words_of_bytes (str @ 0 # behind)) = (s1, Some SoOK)" "ok s1"
      "mem s1 = dsm_write (mem s0) key 1 (take ?size (words_of_bytes (str @ 0 # behind)))"
    using nc.cache_putchunk32 [OF s0(2), of 1 "of_nat ?size" "words_of_bytes (str @ 0 # behind)" key] n room
    by (auto simp: dsm_range_def)
  obtain s2 where s2: "dc_put32 ?C s1 key 0 (of_nat (length str)) = (s2, Some SoOK)" "ok s2"
      "mem s2 = dsm_write (mem s1) key 0 [of_nat (length str)]"
    using nc.cache_put32 [OF s1(2), of 0 key "of_nat (length str)"] by (auto simp: dsm_range_def)
  obtain s3 where "DString_fetch ?C s2 key buffer = (s3, Ret str)"
    using fetch_after_write [OF s2(2) assms(4-8), of "mem s0" key] s2(3) s1(3) by auto
  then show ?thesis using s0(1) s1(1) s2(1) by (simp add: DString_Create_def Let_def PushObject_def)
qed

end

section \<open>Properties\<close>

text \<open>
  A generator that counts, and the processes and arrays the concrete runs use.
\<close>

definition count_rand :: "u32 rand" where
  "count_rand r = (r + 1, r)"

definition fresh_process :: "('v \<rightharpoonup> u8 list, u32) process" where
  "fresh_process = \<lparr>backend_state = Map.empty, object_list = [], gloabl_fid = 0, rand_state = 0\<rparr>"

lemma ArrayAccess_field [simp]: "ArrayAccess DSMInterface32 obj k = (obj, k)" "ArrayAccess DSMInterface64 obj k = (obj, k * 2)"
  by (simp_all add: ArrayAccess_def DSMInterface32_def DSMInterface64_def)

lemma fresh_process_key: "rand_key count_rand (rand_state fresh_process) 0 = Some (2, 1)"
  by (simp add: fresh_process_def rand_key.simps [of count_rand 0] rand_key.simps [of count_rand 1] count_rand_def)

text \<open>
  C31. \<^verbatim>\<open>Fill\<close> on a shared array of 4-byte elements, of any length and at any start index, writes exactly the
  elements the function computes, block after block: every index of the range then reads its own value, and no
  other field of the shared memory is changed.
\<close>

theorem fill_then_read:
  assumes "smk_ok api items m" "dsm_range start (unat len)" "length blk = 256" "k < unat len"
  shows "\<exists>m'. ArrayElement_get DSMInterface32 (DSMNoCache (SoStorageChunkMemcached api))
        (Fill DSMInterface32 (DSMNoCache (SoStorageChunkMemcached api)) m obj func start len blk)
        (ArrayAccess DSMInterface32 obj (start + of_nat k)) = (m', Ret (func (of_nat k))) \<and>
    smk_mem items m' = dsm_write (smk_mem items m) obj start (map (\<lambda>j. func (of_nat j)) [0..<unat len])"
  using smk.nc.e32.Fill_then_element [of api items m start len blk k obj func] assms by (auto simp: concat_map_singleton)

theorem fill_then_read_witness:
  "\<exists>m'. ArrayElement_get DSMInterface32 (DSMNoCache (SoStorageChunkMemcached server_api))
        (Fill DSMInterface32 (DSMNoCache (SoStorageChunkMemcached server_api)) Map.empty 7 (\<lambda>i. i * i) 5 300 (replicate 256 0))
        (ArrayAccess DSMInterface32 7 264) = (m', Ret 67081) \<and>
    smk_mem id m' = dsm_write (\<lambda>_ _. 0) 7 5 (map (\<lambda>j. of_nat j * of_nat j) [0..<300])"
  using fill_then_read [OF server_empty(1), of 5 300 "replicate 256 0" 259 7 "\<lambda>i. i * i"]
  by (simp add: dsm_range_def server_empty del: upt.simps upt_rec_numeral)

text \<open>
  On an array of 8-byte elements \<^verbatim>\<open>Fill\<close> passes element indices on as field keys, so its second block
  overwrites half of the first: after filling 512 elements, index \<open>k\<close> of 128 to 255 reads the value of
  \<open>k + 128\<close>.
\<close>

theorem fill64_overlaps:
  assumes "smk_ok api items m" "length blk = 256" "128 \<le> k" "k < 256"
  shows "\<exists>m'. ArrayElement_get DSMInterface64 (DSMNoCache (SoStorageChunkMemcached api))
        (Fill DSMInterface64 (DSMNoCache (SoStorageChunkMemcached api)) m obj func 0 512 blk)
        (ArrayAccess DSMInterface64 obj (of_nat k)) = (m', Ret (func (of_nat (k + 128))))"
  using smk.nc.e64.Fill_two_blocks_overlap [of api items m k blk obj func] assms by simp

theorem fill64_overlaps_witness:
  "\<exists>m'. ArrayElement_get DSMInterface64 (DSMNoCache (SoStorageChunkMemcached server_api))
        (Fill DSMInterface64 (DSMNoCache (SoStorageChunkMemcached server_api)) Map.empty 7 (\<lambda>i. ucast i) 0 512 (replicate 256 0))
        (ArrayAccess DSMInterface64 7 200) = (m', Ret 328)"
  using fill64_overlaps [OF server_empty(1), of "replicate 256 0" 200 7 "\<lambda>i. ucast i"] by simp

text \<open>
  C24. A string without 0 bytes that was stored as a shared \<^verbatim>\<open>DString\<close> is read back by \<^verbatim>\<open>getstr\<close> as it
  was, whatever the bytes behind it were and whatever the freshly allocated buffer holds; a second call returns it
  again without reading the shared memory.
\<close>

theorem dstring_round_trip:
  assumes "smk_ok api items (backend_state p)" "rand_key rnd (rand_state p) 0 = Some (r, key)"
    and "smc_info items (backend_state p) key = None"
    and "0 \<notin> set str" "str \<noteq> []" "length str < 2 ^ 32 - 64" "3 \<le> length behind" "\<And>k. length (buffer k) = k"
  shows "\<exists>p' m' d. DString_Create (SoStorageChunkMemcached api) (DSMNoCache (SoStorageChunkMemcached api)) rnd cls_id str behind p
      = Some (p', Ret key) \<and>
    DString_getstr (DSMNoCache (SoStorageChunkMemcached api)) (backend_state p') (DString_new key) buffer = (m', d, Ret str) \<and>
    (\<forall>C m. DString_getstr C m d buffer = (m, d, Ret str))"
  using smk.string_round_trip [OF assms, of cls_id] by (auto simp: DString_getstr_def DString_new_def)

theorem dstring_round_trip_witness:
  "\<exists>p' m' d. DString_Create (SoStorageChunkMemcached server_api) (DSMNoCache (SoStorageChunkMemcached server_api)) count_rand 100
        [72, 105, 33] [9, 9, 9] fresh_process = Some (p', Ret 1) \<and>
    DString_getstr (DSMNoCache (SoStorageChunkMemcached server_api)) (backend_state p') (DString_new 1) (\<lambda>k. replicate k 0xFFFFFFFF)
      = (m', d, Ret [72, 105, 33])"
  using dstring_round_trip [of server_api id fresh_process count_rand 2 1 "[72, 105, 33]" "[9, 9, 9]" "\<lambda>k. replicate k 0xFFFFFFFF" 100]
    fresh_process_key
  by (auto simp: fresh_process_def server_empty)

text \<open>
  C35. \<^verbatim>\<open>AllocObjectId\<close> takes the first key other than 0 that \<^verbatim>\<open>rand\<close> returns. When no object has it, the
  object is created with its class and size and recorded in the object list. When another object has it, the
  200 tries all use the same key, and the process aborts.
\<close>

theorem alloc_object_id:
  assumes "smk_ok api items (backend_state p)" "rand_key rnd (rand_state p) 0 = Some (r, key)"
  shows "\<exists>p' res. AllocObjectId (SoStorageChunkMemcached api) rnd cls_id sz p = Some (p', res) \<and>
    smk_ok api items (backend_state p') \<and> smk_mem items (backend_state p') = smk_mem items (backend_state p) \<and>
    (if smc_info items (backend_state p) key = None
     then res = Ret key \<and> smc_info items (backend_state p') = (smc_info items (backend_state p))(key \<mapsto> (cls_id, sz)) \<and>
       object_list p' = insort_insert key (object_list p)
     else res = Trap \<and> smc_info items (backend_state p') = smc_info items (backend_state p) \<and> object_list p' = object_list p)"
proof (cases "smc_info items (backend_state p) key")
  case None
  show ?thesis
    by (rule smk.alloc_fresh [OF assms None, of cls_id sz]) (simp add: None PushObject_def)
next
  case (Some i)
  then show ?thesis
    using smk.alloc_tries_taken [OF assms, of cls_id sz DOGEE_MAX_SHARED_KEY_TRIES] by (auto simp: AllocObjectId_def)
qed

theorem alloc_object_id_witness:
  "\<exists>p' res. AllocObjectId (SoStorageChunkMemcached server_api) count_rand 100 8 fresh_process = Some (p', res) \<and>
    res = Ret 1 \<and> smc_info id (backend_state p') = [1 \<mapsto> (100, 8)] \<and> object_list p' = [1]"
  using alloc_object_id [of server_api id fresh_process count_rand 2 1 100 8] fresh_process_key
  by (auto simp: fresh_process_def server_empty insort_insert_key_def)

end
