(* ===== verification/Dogee_Checkpoint.thy ===== *)
theory Dogee_Checkpoint
  imports Dogee_ObjectFacts
begin

text \<open>
  Checkpoints (\<^verbatim>\<open>Dogee/DogeeCheckpoint.cpp\<close> and \<^verbatim>\<open>include/DogeeCheckpoint.h\<close>): the dump of shared objects and
  of the application's checkpoint object to the file of a node, the restart from such a file, and the files that
  are kept. A file is the list of its bytes, the file system a map from paths; opening a file for writing always
  succeeds. Words are written in memory order.
\<close>

section \<open>State\<close>

text \<open>
  The memory the application's checkpoint object lives in: bytes at addresses, and the addresses that the
  reference members hold. A shared constant is one of a 4-byte or of an 8-byte type.
\<close>

record heap =
  heap_bytes :: "nat \<Rightarrow> u8"
  heap_refs :: "nat \<Rightarrow> nat"

datatype shared_const = Const32 "u32 SharedConst" | Const64 "u64 SharedConst"

text \<open>
  A node: its process, what \<^verbatim>\<open>DogeeEnv\<close> says about it, the counter and the lock of this component, the address
  of the checkpoint object (\<open>None\<close> is the null pointer), the heap, the shared constants and whether their
  initialisers are still registered. \<^verbatim>\<open>checkpoint_cnt\<close> counts up from 0; it is taken as a mathematical integer.
\<close>

record ('s, 'r) node =
  proc :: "('s, 'r) process"
  application_name :: "u8 list"
  self_node_id :: nat
  isMaster :: bool
  checkpoint_cnt :: int
  checkpointlock :: int
  checkboject :: "nat option"
  node_heap :: heap
  shared_consts :: "shared_const list"
  const_map :: bool

type_synonym files = "u8 list \<Rightarrow> u8 list option"

text \<open>
  A call that may not end gives \<open>None\<close>; one that ends gives its outcome.
\<close>

definition run_bind :: "'a cxx option \<Rightarrow> ('a \<Rightarrow> 'b cxx option) \<Rightarrow> 'b cxx option" where
  "run_bind m f = (case m of None \<Rightarrow> None | Some (Ret a) \<Rightarrow> f a | Some (Throw e) \<Rightarrow> Some (Throw e)
     | Some Trap \<Rightarrow> Some Trap | Some Indeterminate \<Rightarrow> Some Indeterminate)"

lemma run_bind_simps [simp]:
  "run_bind None f = None" "run_bind (Some (Ret a)) f = f a" "run_bind (Some (Throw e)) f = Some (Throw e)"
  "run_bind (Some Trap) f = Some Trap" "run_bind (Some Indeterminate) f = Some Indeterminate"
  by (simp_all add: run_bind_def)

section \<open>Paths\<close>

definition print_int :: "int \<Rightarrow> u8 list" where
  "print_int n = (if n < 0 then 45 # sprintf_lu (nat (- n)) else sprintf_lu (nat n))"

definition checkpoint_path :: "('s, 'r) node \<Rightarrow> int \<Rightarrow> u8 list" where
  "checkpoint_path nd k = application_name nd @ [46] @ sprintf_lu (self_node_id nd) @ [46] @ print_int k
     @ [46, 99, 104, 101, 99, 107, 112, 111, 105, 110, 116]"

definition master_path :: "('s, 'r) node \<Rightarrow> u8 list" where
  "master_path nd = application_name nd @ [46, 109, 97, 115, 116, 101, 114]"

definition remove_checkpoint_files :: "('s, 'r) node \<Rightarrow> files \<Rightarrow> files" where
  "remove_checkpoint_files nd fs = fs(checkpoint_path nd (checkpoint_cnt nd - 1) := None,
     checkpoint_path nd (checkpoint_cnt nd - 2) := None, master_path nd := None)"

section \<open>Dump and restore of one object\<close>

definition fetch_size :: u32 where
  "fetch_size = of_nat (DSM_CACHE_BLOCK_SIZE * 256)"

text \<open>
  The loop counter is 32 bits wide and grows by \<open>fetch_size\<close>: for an object of more than
  \<open>2 ^ 32 - 8192\<close> words it wraps around and the loop does not end. \<open>buf\<close> is the local array.
\<close>

partial_function (option) dump_loop :: "'s SoStorage \<Rightarrow> 's \<Rightarrow> ObjectKey \<Rightarrow> u32 \<Rightarrow> u32 \<Rightarrow> u32 list \<Rightarrow> u8 list \<Rightarrow> u8 list option" where
  "dump_loop S s okey sz i buf os =
     (if i < sz then
        let the_size = (if fetch_size < sz - i then fetch_size else sz - i);
            ws = snd (so_getchunk32 S s okey i the_size (take (unat the_size) buf));
            buf = overwrite buf 0 ws
        in dump_loop S s okey sz (i + fetch_size) buf (os @ bytes_of_words (take (unat the_size) buf))
      else Some os)"

declare dump_loop.simps [code]

definition DumpSharedMemory :: "'s SoStorage \<Rightarrow> 's \<Rightarrow> ObjectKey \<Rightarrow> u32 \<Rightarrow> u32 \<Rightarrow> u32 list \<Rightarrow> u8 list \<Rightarrow> u8 list option" where
  "DumpSharedMemory S s okey sz flag buf os =
     dump_loop S s okey sz 0 buf (os @ u32_bytes okey @ u32_bytes sz @ u32_bytes flag)"

text \<open>
  \<^verbatim>\<open>is.read ((char*)&v, 4)\<close>: as many bytes as the stream still has go to the front of the variable.
\<close>

definition read_u32 :: "u32 \<Rightarrow> u8 list \<Rightarrow> u32 \<times> u8 list" where
  "read_u32 v is = (hd (words_of_bytes (overwrite (u32_bytes v) 0 (take 4 is))), drop 4 is)"

fun read_words :: "nat \<Rightarrow> nat \<Rightarrow> u32 list \<Rightarrow> u8 list \<Rightarrow> u32 list \<times> u8 list" where
  "read_words 0 j buf is = (buf, is)"
| "read_words (Suc n) j buf is = (case read_u32 (buf ! j) is of (w, is) \<Rightarrow> read_words n (Suc j) (buf[j := w]) is)"

partial_function (option) restore_loop :: "'s SoStorage \<Rightarrow> ObjectKey \<Rightarrow> u32 \<Rightarrow> u32 \<Rightarrow> u32 list \<Rightarrow> 's \<Rightarrow> u8 list \<Rightarrow>
    ('s \<times> u8 list) option" where
  "restore_loop S okey sz i buf s is =
     (if i < sz then
        let the_size = (if fetch_size < sz - i then fetch_size else sz - i) in
        case read_words (unat the_size) 0 buf is of (buf, is) \<Rightarrow>
          restore_loop S okey sz (i + fetch_size) buf (fst (so_putchunk32 S s okey i the_size buf)) is
      else Some (s, is))"

declare restore_loop.simps [code]

text \<open>\<open>junk\<close> is what the local variables hold before they are read from the stream.\<close>

definition RestoreSharedMemory :: "'s SoStorage \<Rightarrow> u32 \<Rightarrow> u32 list \<Rightarrow> ('s, 'r) process \<Rightarrow> u8 list \<Rightarrow>
    (('s, 'r) process \<times> u8 list \<times> ObjectKey) option" where
  "RestoreSharedMemory S junk buf p is =
     (case read_u32 junk is of (okey, is) \<Rightarrow>
      case read_u32 junk is of (sz, is) \<Rightarrow>
      case read_u32 junk is of (flag, is) \<Rightarrow>
      case restore_loop S okey sz 0 buf (backend_state p) is of
        None \<Rightarrow> None
      | Some (s, is) \<Rightarrow>
          let s = fst (so_newobj S s okey flag sz)
          in Some (PushObject okey (p\<lparr>backend_state := s\<rparr>), is, okey))"

section \<open>The checkpoint object\<close>

text \<open>
  A registered member is its offset and the size of its type; for a \<^verbatim>\<open>reference_wrapper\<close> the bytes written and
  read are those of the object referred to.
\<close>

datatype member = Plain nat nat | Reference nat nat

fun member_region :: "heap \<Rightarrow> nat \<Rightarrow> member \<Rightarrow> nat \<times> nat" where
  "member_region h obj (Plain offset sz) = (obj + offset, sz)"
| "member_region h obj (Reference offset sz) = (heap_refs h (obj + offset), sz)"

definition member_Serialize :: "heap \<Rightarrow> nat \<Rightarrow> member \<Rightarrow> u8 list \<Rightarrow> u8 list" where
  "member_Serialize h obj m os = (case member_region h obj m of (a, sz) \<Rightarrow> os @ map (heap_bytes h) [a..<a + sz])"

definition member_Deserialize :: "nat \<Rightarrow> member \<Rightarrow> heap \<times> u8 list \<Rightarrow> heap \<times> u8 list" where
  "member_Deserialize obj m = (\<lambda>(h, is). case member_region h obj m of (a, sz) \<Rightarrow>
     let bs = take sz is in
     (h\<lparr>heap_bytes := (\<lambda>x. if a \<le> x \<and> x < a + length bs then bs ! (x - a) else heap_bytes h x)\<rparr>, drop sz is))"

definition ClassSerializer_Serialize :: "member list \<Rightarrow> heap \<Rightarrow> nat \<Rightarrow> u8 list \<Rightarrow> u8 list" where
  "ClassSerializer_Serialize vec h w os = fold (member_Serialize h w) vec os"

definition ClassSerializer_Deserialize :: "member list \<Rightarrow> heap \<Rightarrow> nat \<Rightarrow> u8 list \<Rightarrow> heap \<times> u8 list" where
  "ClassSerializer_Deserialize vec h w is = fold (member_Deserialize w) vec (h, is)"

section \<open>Checkpoint and restart\<close>

text \<open>\<^verbatim>\<open>InitSharedConst\<close> loads every shared constant from the global object, once.\<close>

fun load_const :: "'s DSMCache \<Rightarrow> shared_const \<Rightarrow> 's \<Rightarrow> 's \<times> shared_const cxx" where
  "load_const C (Const32 c) s = (case SharedConst_load DSMInterface32 C s c of (s, r) \<Rightarrow> (s, cxx_bind r (\<lambda>c. Ret (Const32 c))))"
| "load_const C (Const64 c) s = (case SharedConst_load DSMInterface64 C s c of (s, r) \<Rightarrow> (s, cxx_bind r (\<lambda>c. Ret (Const64 c))))"

fun load_consts :: "'s DSMCache \<Rightarrow> shared_const list \<Rightarrow> 's \<Rightarrow> ('s \<times> shared_const list) cxx" where
  "load_consts C [] s = Ret (s, [])"
| "load_consts C (c # cs) s =
     (case load_const C c s of (s, r) \<Rightarrow>
        cxx_bind r (\<lambda>c. cxx_bind (load_consts C cs s) (\<lambda>(s, cs). Ret (s, c # cs))))"

definition InitSharedConst :: "'s DSMCache \<Rightarrow> ('s, 'r) node \<Rightarrow> ('s, 'r) node cxx" where
  "InitSharedConst C nd =
     (if const_map nd then
        cxx_bind (load_consts C (shared_consts nd) (backend_state (proc nd))) (\<lambda>(s, cs).
          Ret (nd\<lparr>proc := (proc nd)\<lparr>backend_state := s\<rparr>, shared_consts := cs, const_map := False\<rparr>))
      else Ret nd)"

fun dump_objects :: "'s SoStorage \<Rightarrow> 's \<Rightarrow> u32 list \<Rightarrow> ObjectKey list \<Rightarrow> u8 list \<Rightarrow> u8 list cxx option" where
  "dump_objects S s buf [] os = Some (Ret os)"
| "dump_objects S s buf (key # ks) os =
     (case snd (so_getinfo S s key) of
        None \<Rightarrow> Some Indeterminate
      | Some (flag, sz) \<Rightarrow>
          (case DumpSharedMemory S s key sz flag buf os of
             None \<Rightarrow> None
           | Some os \<Rightarrow> dump_objects S s buf ks os))"

text \<open>
  \<open>funcCheckPoint\<close> and \<open>funcRestart\<close> are the application's own hooks. The file is written through a buffered
  stream that the function closes when it returns; \<open>DoCheckPoint\<close> gives the file system after that.
\<close>

definition DoCheckPoint :: "'s SoStorage \<Rightarrow> (('s, 'r) node \<Rightarrow> ('s, 'r) node) \<Rightarrow> member list \<Rightarrow> u32 list \<Rightarrow>
    ('s, 'r) node \<Rightarrow> files \<Rightarrow> (('s, 'r) node \<times> files \<times> bool) cxx option" where
  "DoCheckPoint S funcCheckPoint members buf nd fs =
     (case checkboject nd of
        None \<Rightarrow> Some (Ret (nd, fs, False))
      | Some obj \<Rightarrow>
          if checkpointlock nd = 1 then Some (Ret (nd, fs, False))
          else
            let nd = nd\<lparr>checkpointlock := 1\<rparr>;
                path = checkpoint_path nd (checkpoint_cnt nd);
                p = proc nd;
                s = backend_state p
            in case (if isMaster nd then DumpSharedMemory S s 0 (gloabl_fid p) 0xFFFFFFFF buf [] else Some []) of
                 None \<Rightarrow> None
               | Some os \<Rightarrow>
                   run_bind (dump_objects S s buf (object_list p) (os @ u32_bytes (of_nat (GetObjectNumber p)))) (\<lambda>os.
                     let nd = funcCheckPoint nd;
                         os = ClassSerializer_Serialize members (node_heap nd) obj os;
                         fs = (if isMaster nd then fs(master_path nd \<mapsto> print_int (checkpoint_cnt nd)) else fs);
                         fs = fs(checkpoint_path nd (checkpoint_cnt nd - 2) := None);
                         fs = fs(path \<mapsto> os)
                     in Some (Ret (nd\<lparr>checkpoint_cnt := checkpoint_cnt nd + 1\<rparr>, fs, True))))"

definition ResetCheckpointLock :: "('s, 'r) node \<Rightarrow> ('s, 'r) node" where
  "ResetCheckpointLock nd = nd\<lparr>checkpointlock := 0\<rparr>"

fun restore_objects :: "'s SoStorage \<Rightarrow> u32 \<Rightarrow> u32 list \<Rightarrow> nat \<Rightarrow> ('s, 'r) process \<Rightarrow> u8 list \<Rightarrow> (('s, 'r) process \<times> u8 list) option" where
  "restore_objects S junk buf 0 p is = Some (p, is)"
| "restore_objects S junk buf (Suc n) p is =
     (case RestoreSharedMemory S junk buf p is of
        None \<Rightarrow> None
      | Some (p, is, _) \<Rightarrow> restore_objects S junk buf n p is)"

text \<open>The file of the master starts with the global object, object 0.\<close>

definition restore_globals :: "'s SoStorage \<Rightarrow> 's DSMCache \<Rightarrow> u32 \<Rightarrow> u32 list \<Rightarrow> ('s, 'r) node \<Rightarrow> u8 list \<Rightarrow>
    (('s, 'r) node \<times> u8 list) cxx option" where
  "restore_globals S C junk buf nd is =
     (if isMaster nd then
        case RestoreSharedMemory S junk buf (proc nd) is of
          None \<Rightarrow> None
        | Some (p, is, modulekey) \<Rightarrow>
            if modulekey \<noteq> 0 then Some Trap
            else Some (cxx_bind (InitSharedConst C (nd\<lparr>proc := p\<rparr>)) (\<lambda>nd. Ret (nd, is)))
      else Some (Ret (nd, is)))"

definition DoRestart :: "'s SoStorage \<Rightarrow> 's DSMCache \<Rightarrow> (('s, 'r) node \<Rightarrow> ('s, 'r) node) \<Rightarrow> member list \<Rightarrow> u32 \<Rightarrow> u32 list \<Rightarrow>
    ('s, 'r) node \<Rightarrow> files \<Rightarrow> ('s, 'r) node cxx option" where
  "DoRestart S C funcRestart members junk buf nd fs =
     (case checkboject nd of
        None \<Rightarrow> Some (Ret nd)
      | Some obj \<Rightarrow>
          let path = checkpoint_path nd (checkpoint_cnt nd);
              nd = nd\<lparr>checkpoint_cnt := checkpoint_cnt nd + 1\<rparr>
          in case fs path of
               None \<Rightarrow> Some Trap
             | Some is \<Rightarrow>
                 run_bind (restore_globals S C junk buf nd is) (\<lambda>(nd, is).
                      case read_u32 junk is of (numobj, is) \<Rightarrow>
                      case restore_objects S junk buf (nat (sint numobj)) (proc nd) is of
                        None \<Rightarrow> None
                      | Some (p, is) \<Rightarrow>
                          let h = fst (ClassSerializer_Deserialize members (node_heap nd) obj is)
                          in Some (Ret (funcRestart (nd\<lparr>proc := p, node_heap := h\<rparr>)))))"

text \<open>
  \<^verbatim>\<open>MasterCheckCheckPoint\<close> returns -1 when there is no master file; otherwise it reads the number there
  (a stream without a number gives 0).
\<close>

definition MasterCheckCheckPoint :: "('s, 'r) node \<Rightarrow> files \<Rightarrow> ('s, 'r) node \<times> int" where
  "MasterCheckCheckPoint nd fs =
     (case fs (master_path nd) of
        None \<Rightarrow> (nd, - 1)
      | Some bs \<Rightarrow> let k = atoll bs in (nd\<lparr>checkpoint_cnt := k\<rparr>, k))"

end
