(* ===== verification/Dogee_CheckpointFacts.thy ===== *)
theory Dogee_CheckpointFacts
  imports Dogee_Checkpoint
begin

text \<open>
  A restart from the file of a checkpoint gives back the shared objects, the global object and the members of the
  application's checkpoint object. The proofs go through the image of an object in the file; the storage
  is any that meets \<open>dsm_storage\<close>.
\<close>

section \<open>Streams of words\<close>

lemma read_u32_word [simp]: "read_u32 v (u32_bytes w @ is) = (w, is)"
  using words_of_bytes_u32 [of w "[]"] by (simp add: read_u32_def overwrite_all)

lemma read_words_spec:
  assumes "j + length ws \<le> length buf"
  shows "read_words (length ws) j buf (bytes_of_words ws @ is) = (overwrite buf j ws, is)"
  using assms
proof (induction ws arbitrary: j buf)
  case (Cons w ws)
  then show ?case by (simp add: overwrite_Cons)
qed simp

lemma fetch_size_eq: "unat fetch_size = 8192" "fetch_size = of_nat 8192"
  by (simp_all add: fetch_size_def)

text \<open>One round of the chunk loops: how much is moved, and where the next round starts.\<close>

lemma chunk_round:
  assumes "unat sz \<le> 2 ^ 32 - 8192" "i < sz"
  shows "unat (if fetch_size < sz - i then fetch_size else sz - i) = min 8192 (unat sz - unat i)"
    and "unat (i + fetch_size) = unat i + 8192"
    and "unat sz - unat (i + fetch_size) = unat sz - unat i - min 8192 (unat sz - unat i)"
    and "dsm_range i (unat (if fetch_size < sz - i then fetch_size else sz - i))"
proof -
  have lt: "unat i < unat sz" using assms(2) by (simp add: word_less_nat_alt)
  then have "unat (sz - i) = unat sz - unat i" by (simp add: unat_sub_le)
  then show sz: "unat (if fetch_size < sz - i then fetch_size else sz - i) = min 8192 (unat sz - unat i)"
    by (simp add: word_less_nat_alt fetch_size_eq(1) min_def)
  have "min 8192 (unat sz - unat i) \<le> unat sz - unat i" by simp
  then have "unat i + min 8192 (unat sz - unat i) \<le> unat sz" using lt by linarith
  then show "dsm_range i (unat (if fetch_size < sz - i then fetch_size else sz - i))"
    unfolding sz dsm_range_def using assms(1) by linarith
  show nxt: "unat (i + fetch_size) = unat i + 8192"
    using lt assms(1) unfolding fetch_size_eq(2) by (intro unat_add_of_nat) simp
  show "unat sz - unat (i + fetch_size) = unat sz - unat i - min 8192 (unat sz - unat i)"
    unfolding nxt by simp
qed

definition object_image :: "dsm \<Rightarrow> ObjectKey \<Rightarrow> u32 \<times> u32 \<Rightarrow> u8 list" where
  "object_image m key i = u32_bytes key @ u32_bytes (snd i) @ u32_bytes (fst i) @ bytes_of_words (dsm_read m key 0 (unat (snd i)))"

definition restored_mem :: "dsm \<Rightarrow> (ObjectKey \<Rightarrow> (u32 \<times> u32) option) \<Rightarrow> ObjectKey set \<Rightarrow> dsm \<Rightarrow> dsm" where
  "restored_mem M D K m = (\<lambda>k f. if k \<in> K \<and> unat f < unat (snd (the (D k))) then M k f else m k f)"

definition dumpable :: "u32 \<times> u32 \<Rightarrow> bool" where
  "dumpable i \<longleftrightarrow> unat (snd i) \<le> 2 ^ 32 - 8192"

lemma restored_mem_insert:
  assumes "dumpable (the (D k))"
  shows "restored_mem M D K (dsm_write m k 0 (dsm_read M k 0 (unat (snd (the (D k)))))) = restored_mem M D (insert k K) m"
  using assms by (auto simp: restored_mem_def dsm_write_def dsm_read_def dumpable_def fun_eq_iff)

lemma restored_mem_empty [simp]: "restored_mem M D {} m = m"
  by (simp add: restored_mem_def)

lemma sorted_insort_set: "set (fold insort_insert ks xs) = set ks \<union> set xs"
  by (induction ks arbitrary: xs) (auto simp: set_insort_insert)

section \<open>Members of the checkpoint object\<close>

definition region_bytes :: "heap \<Rightarrow> nat \<Rightarrow> member \<Rightarrow> u8 list" where
  "region_bytes h obj m = (case member_region h obj m of (a, n) \<Rightarrow> map (heap_bytes h) [a..<a + n])"

definition disjoint_regions :: "nat \<times> nat \<Rightarrow> nat \<times> nat \<Rightarrow> bool" where
  "disjoint_regions r r' \<longleftrightarrow> fst r + snd r \<le> fst r' \<or> fst r' + snd r' \<le> fst r"

definition separate_members :: "heap \<Rightarrow> nat \<Rightarrow> member list \<Rightarrow> bool" where
  "separate_members h obj ms = sorted_wrt (\<lambda>m m'. disjoint_regions (member_region h obj m) (member_region h obj m')) ms"

fun member_size :: "member \<Rightarrow> nat" where
  "member_size (Plain offset n) = n"
| "member_size (Reference offset n) = n"

lemma member_region_size [simp]: "snd (member_region h obj m) = member_size m"
  by (cases m) simp_all

lemma length_region_bytes [simp]: "length (region_bytes h obj m) = member_size m"
  by (cases m) (simp_all add: region_bytes_def)

lemma Serialize_spec: "ClassSerializer_Serialize ms h obj os = os @ concat (map (region_bytes h obj) ms)"
  unfolding ClassSerializer_Serialize_def
  by (induction ms arbitrary: os) (simp_all add: member_Serialize_def region_bytes_def split: prod.splits)

text \<open>Reading one member: it gets the bytes, the members disjoint from it keep theirs, no reference moves.\<close>

lemma member_Deserialize_spec:
  assumes "length bs = member_size m"
  obtains h' where "member_Deserialize obj m (h, bs @ is) = (h', is)" "heap_refs h' = heap_refs h"
    "region_bytes h' obj m = bs"
    "\<And>m'. disjoint_regions (member_region h obj m) (member_region h obj m') \<Longrightarrow> region_bytes h' obj m' = region_bytes h obj m'"
proof -
  obtain a where r: "member_region h obj m = (a, length bs)"
    by (metis assms member_region_size prod.collapse)
  let ?h = "h\<lparr>heap_bytes := \<lambda>x. if a \<le> x \<and> x < a + length bs then bs ! (x - a) else heap_bytes h x\<rparr>"
  have same: "member_region ?h obj m' = member_region h obj m'" for m' by (cases m') simp_all
  have "member_Deserialize obj m (h, bs @ is) = (?h, is)" using r by (simp add: member_Deserialize_def Let_def cong: if_cong)
  moreover have "region_bytes ?h obj m = bs"
    unfolding region_bytes_def same using r by (auto intro: nth_equalityI)
  moreover have "region_bytes ?h obj m' = region_bytes h obj m'" if "disjoint_regions (member_region h obj m) (member_region h obj m')" for m'
    unfolding region_bytes_def same using that r by (auto simp: disjoint_regions_def simp del: member_region_size split: prod.splits)
  ultimately show ?thesis by (intro that [of ?h]) simp_all
qed

lemma member_region_refs: "heap_refs h' = heap_refs h \<Longrightarrow> member_region h' obj m = member_region h obj m"
  by (cases m) simp_all

lemma Deserialize_spec:
  assumes "separate_members h obj ms" "list_all2 (\<lambda>bs m. length bs = member_size m) bss ms"
  shows "\<exists>h'. ClassSerializer_Deserialize ms h obj (concat bss @ is) = (h', is) \<and> heap_refs h' = heap_refs h \<and>
    map (region_bytes h' obj) ms = bss \<and>
    (\<forall>m'. (\<forall>m \<in> set ms. disjoint_regions (member_region h obj m) (member_region h obj m')) \<longrightarrow> region_bytes h' obj m' = region_bytes h obj m')"
  unfolding ClassSerializer_Deserialize_def using assms
proof (induction ms arbitrary: h bss)
  case (Cons m ms)
  then obtain bs bss' where bss: "bss = bs # bss'" "length bs = member_size m" "list_all2 (\<lambda>bs m. length bs = member_size m) bss' ms"
    by (auto simp: list_all2_Cons2)
  obtain h1 where h1: "member_Deserialize obj m (h, bs @ concat bss' @ is) = (h1, concat bss' @ is)" "heap_refs h1 = heap_refs h"
      "region_bytes h1 obj m = bs"
      "\<And>m'. disjoint_regions (member_region h obj m) (member_region h obj m') \<Longrightarrow> region_bytes h1 obj m' = region_bytes h obj m'"
    by (rule member_Deserialize_spec [OF bss(2), of obj h "concat bss' @ is"]) blast
  note same = member_region_refs [OF h1(2)]
  have "separate_members h1 obj ms" using Cons.prems(1) by (simp add: separate_members_def same)
  from Cons.IH [OF this bss(3)] obtain h2 where h2: "fold (member_Deserialize obj) ms (h1, concat bss' @ is) = (h2, is)"
      "heap_refs h2 = heap_refs h1" "map (region_bytes h2 obj) ms = bss'"
      "\<forall>m'. (\<forall>m \<in> set ms. disjoint_regions (member_region h obj m) (member_region h obj m')) \<longrightarrow> region_bytes h2 obj m' = region_bytes h1 obj m'"
    unfolding same by blast
  have "\<forall>m' \<in> set ms. disjoint_regions (member_region h obj m') (member_region h obj m)"
    using Cons.prems(1) by (auto simp: separate_members_def disjoint_regions_def)
  then have "region_bytes h2 obj m = bs" using h2(4) h1(3) by simp
  then show ?case using h1 h2 bss by auto
qed simp

section \<open>Paths\<close>

lemma atoll_print_int: "atoll (print_int n) = n"
  by (simp add: print_int_def atoll_sprintf) (simp add: atoll_def isspace_def digits_value_sprintf)

lemma master_path_not_checkpoint: "master_path nd \<noteq> checkpoint_path nd' k"
proof
  assume "master_path nd = checkpoint_path nd' k"
  then have "last (master_path nd) = last (checkpoint_path nd' k)" by simp
  then show False by (simp add: master_path_def checkpoint_path_def)
qed

section \<open>Objects\<close>

context dsm_storage
begin

lemma dump_loop_spec:
  assumes "ok s" "length buf = 8192" "unat sz \<le> 2 ^ 32 - 8192"
  shows "dump_loop S s okey sz i buf os = Some (os @ bytes_of_words (dsm_read (mem s) okey i (unat sz - unat i)))"
  using assms
proof (induction "unat sz - unat i" arbitrary: i buf os rule: less_induct)
  case less
  show ?case
  proof (cases "i < sz")
    case True
    let ?t = "if fetch_size < sz - i then fetch_size else sz - i"
    let ?n = "unat sz - unat i"
    note round = chunk_round [OF less.prems(3) True]
    have lt: "unat i < unat sz" using True by (simp add: word_less_nat_alt)
    have get: "so_getchunk32 S s okey i ?t (take (unat ?t) buf) = (Some SoOK, dsm_read (mem s) okey i (unat ?t))"
      using getchunk32 [OF less.prems(1), of i ?t "take (unat ?t) buf" okey] round(1,4) lt less.prems(2) by simp
    let ?buf = "overwrite buf 0 (dsm_read (mem s) okey i (unat ?t))"
    have t: "unat ?t \<le> 8192" "unat ?t \<le> ?n" using round(1) by simp_all
    have buf: "length ?buf = 8192" "take (unat ?t) ?buf = dsm_read (mem s) okey i (unat ?t)"
      using less.prems(2) t by (simp_all add: overwrite_def)
    have dec: "unat sz - unat (i + fetch_size) < ?n" using round(2) lt by simp
    have rest: "unat sz - unat (i + fetch_size) = ?n - unat ?t" using round(1,3) by simp
    have "dump_loop S s okey sz (i + fetch_size) ?buf (os @ bytes_of_words (take (unat ?t) ?buf)) =
        Some ((os @ bytes_of_words (take (unat ?t) ?buf)) @ bytes_of_words (dsm_read (mem s) okey (i + fetch_size) (?n - unat ?t)))"
      unfolding rest [symmetric] using dec less.prems(1,3) buf(1) by (intro less.hyps)
    moreover have "dsm_read (mem s) okey i ?n = dsm_read (mem s) okey i (unat ?t) @ dsm_read (mem s) okey (i + fetch_size) (?n - unat ?t)"
    proof (cases "8192 \<le> ?n")
      case True
      then have "unat ?t = 8192" using round(1) by simp
      then show ?thesis
        using dsm_read_append [of i 8192 "?n - 8192" "mem s" okey] True less.prems(3) lt by (simp add: dsm_range_def fetch_size_eq(2))
    next
      case False
      then have "unat ?t = ?n" using round(1) by simp
      then show ?thesis by (simp add: dsm_read_def)
    qed
    ultimately show ?thesis
      using True get buf(2) by (subst dump_loop.simps) (simp add: Let_def bytes_of_words_def)
  next
    case False
    then have "unat sz - unat i = 0" by (simp add: word_less_nat_alt)
    then show ?thesis using False by (subst dump_loop.simps) (simp add: dsm_read_def)
  qed
qed

lemma restore_loop_spec:
  assumes "ok s" "length buf = 8192" "unat sz \<le> 2 ^ 32 - 8192" "length ws = unat sz - unat i"
  shows "\<exists>s'. restore_loop S okey sz i buf s (bytes_of_words ws @ is) = Some (s', is) \<and> ok s' \<and>
    mem s' = dsm_write (mem s) okey i ws \<and> info s' = info s"
  using assms
proof (induction "unat sz - unat i" arbitrary: i buf s ws rule: less_induct)
  case less
  show ?case
  proof (cases "i < sz")
    case True
    let ?t = "if fetch_size < sz - i then fetch_size else sz - i"
    let ?n = "unat sz - unat i"
    note round = chunk_round [OF less.prems(3) True]
    have lt: "unat i < unat sz" using True by (simp add: word_less_nat_alt)
    let ?ws = "take (unat ?t) ws" and ?vs = "drop (unat ?t) ws"
    have t: "unat ?t \<le> 8192" "unat ?t \<le> ?n" "length ?ws = unat ?t" using round(1) less.prems(4) by simp_all
    let ?buf = "overwrite buf 0 ?ws"
    have buf: "length ?buf = 8192" "take (unat ?t) ?buf = ?ws" using less.prems(2) t by (simp_all add: overwrite_def)
    have split: "bytes_of_words ws @ is = bytes_of_words ?ws @ bytes_of_words ?vs @ is"
      by (metis append.assoc append_take_drop_id bytes_of_words_def concat_append map_append)
    have read: "read_words (unat ?t) 0 buf (bytes_of_words ws @ is) = (?buf, bytes_of_words ?vs @ is)"
      using read_words_spec [of 0 ?ws buf "bytes_of_words ?vs @ is"] t less.prems(2) split by simp
    obtain s1 where s1: "so_putchunk32 S s okey i ?t ?buf = (s1, SoOK)" "ok s1"
        "mem s1 = dsm_write (mem s) okey i ?ws" "info s1 = info s"
      using putchunk32 [OF less.prems(1), of i ?t ?buf okey] round(4) buf t by auto
    have dec: "unat sz - unat (i + fetch_size) < ?n" using round(2) lt by simp
    have len: "length ?vs = unat sz - unat (i + fetch_size)" using round(1,3) less.prems(4) by simp
    obtain s2 where s2: "restore_loop S okey sz (i + fetch_size) ?buf s1 (bytes_of_words ?vs @ is) = Some (s2, is)" "ok s2"
        "mem s2 = dsm_write (mem s1) okey (i + fetch_size) ?vs" "info s2 = info s1"
      using less.hyps [OF dec s1(2) buf(1) less.prems(3) len] by blast
    have "mem s2 = dsm_write (mem s) okey i ws"
    proof (cases "8192 \<le> ?n")
      case True
      then have "unat ?t = 8192" using round(1) by simp
      then have "length ?ws = 8192" using t(3) by simp
      then show ?thesis
        using dsm_write_append [of i ?ws ?vs "mem s" okey] s2(3) s1(3) less.prems(3,4) lt by (simp add: dsm_range_def fetch_size_eq(2))
    next
      case False
      then have "unat ?t = ?n" using round(1) by simp
      then show ?thesis using s2(3) s1(3) less.prems(4) by simp
    qed
    then show ?thesis
      using True read s1 s2 by (subst restore_loop.simps) (simp add: Let_def)
  next
    case False
    then have "unat sz - unat i = 0" by (simp add: word_less_nat_alt)
    then show ?thesis using False less.prems by (subst restore_loop.simps) simp
  qed
qed

lemma DumpSharedMemory_spec:
  assumes "ok s" "length buf = 8192" "dumpable (flag, sz)"
  shows "DumpSharedMemory S s key sz flag buf os = Some (os @ object_image (mem s) key (flag, sz))"
  using dump_loop_spec [of s buf sz key 0 "os @ u32_bytes key @ u32_bytes sz @ u32_bytes flag"] assms
  by (simp add: DumpSharedMemory_def object_image_def dumpable_def)

lemma dump_objects_spec:
  assumes "ok s" "length buf = 8192" "\<forall>k \<in> set ks. \<exists>i. info s k = Some i \<and> dumpable i"
  shows "dump_objects S s buf ks os = Some (Ret (os @ concat (map (\<lambda>k. object_image (mem s) k (the (info s k))) ks)))"
  using assms(3)
proof (induction ks arbitrary: os)
  case (Cons k ks)
  then obtain flag sz where i: "info s k = Some (flag, sz)" "dumpable (flag, sz)" by auto
  then show ?case
    using Cons DumpSharedMemory_spec [OF assms(1,2) i(2), of k] getinfo [OF assms(1), of k] by simp
qed simp

lemma RestoreSharedMemory_spec:
  assumes "ok (backend_state p)" "length buf = 8192" "D key = Some i" "dumpable i"
    and "info (backend_state p) key = None \<or> info (backend_state p) key = D key"
  obtains s' where "RestoreSharedMemory S junk buf p (object_image M key i @ is)
      = Some (p\<lparr>backend_state := s', object_list := insort_insert key (object_list p)\<rparr>, is, key)"
    "ok s'" "mem s' = dsm_write (mem (backend_state p)) key 0 (dsm_read M key 0 (unat (snd i)))"
    "info s' = (info (backend_state p))(key := D key)"
proof -
  let ?s = "backend_state p" and ?ws = "dsm_read M key 0 (unat (snd i))"
  obtain s1 where s1: "restore_loop S key (snd i) 0 buf ?s (bytes_of_words ?ws @ is) = Some (s1, is)" "ok s1"
      "mem s1 = dsm_write (mem ?s) key 0 ?ws" "info s1 = info ?s"
    using restore_loop_spec [OF assms(1,2), of "snd i" ?ws 0 key "is"] assms(4) by (auto simp: dumpable_def)
  obtain s2 st where s2: "so_newobj S s1 key (fst i) (snd i) = (s2, st)" "ok s2" "mem s2 = mem s1" "info s2 = (info ?s)(key := D key)"
  proof (cases "info ?s key = None")
    case True
    then show ?thesis using newobj [OF s1(2), of key "fst i" "snd i"] s1(4) assms(3) that by auto
  next
    case False
    then show ?thesis
      using newobj_taken [OF s1(2), of key "fst i" "snd i"] s1(4) assms(5) that by (metis fun_upd_triv)
  qed
  have "RestoreSharedMemory S junk buf p (object_image M key i @ is)
      = Some (p\<lparr>backend_state := s2, object_list := insort_insert key (object_list p)\<rparr>, is, key)"
    using s1(1) s2(1) by (simp add: RestoreSharedMemory_def object_image_def PushObject_def)
  then show ?thesis using that s2 s1(3) by simp
qed

lemma restore_objects_spec:
  assumes "ok (backend_state p)" "length buf = 8192" "\<forall>k \<in> set ks. \<exists>i. D k = Some i \<and> dumpable i"
    and "\<forall>k \<in> set ks. info (backend_state p) k = None \<or> info (backend_state p) k = D k"
  shows "\<exists>s'. restore_objects S junk buf (length ks) p (concat (map (\<lambda>k. object_image M k (the (D k))) ks) @ is)
      = Some (p\<lparr>backend_state := s', object_list := fold insort_insert ks (object_list p)\<rparr>, is) \<and>
    ok s' \<and> mem s' = restored_mem M D (set ks) (mem (backend_state p)) \<and>
    info s' = (\<lambda>k. if k \<in> set ks then D k else info (backend_state p) k)"
  using assms
proof (induction ks arbitrary: p)
  case (Cons k ks)
  then obtain i where i: "D k = Some i" "dumpable i" by auto
  obtain s1 where s1: "RestoreSharedMemory S junk buf p (object_image M k i @ concat (map (\<lambda>k. object_image M k (the (D k))) ks) @ is)
      = Some (p\<lparr>backend_state := s1, object_list := insort_insert k (object_list p)\<rparr>, concat (map (\<lambda>k. object_image M k (the (D k))) ks) @ is, k)"
    "ok s1" "mem s1 = dsm_write (mem (backend_state p)) k 0 (dsm_read M k 0 (unat (snd i)))"
    "info s1 = (info (backend_state p))(k := D k)"
    by (rule RestoreSharedMemory_spec [of p buf D k i]) (use Cons.prems i in auto)
  let ?p = "p\<lparr>backend_state := s1, object_list := insort_insert k (object_list p)\<rparr>"
  have prem: "ok (backend_state ?p)" "\<forall>k \<in> set ks. \<exists>i. D k = Some i \<and> dumpable i"
      "\<forall>k \<in> set ks. info (backend_state ?p) k = None \<or> info (backend_state ?p) k = D k"
    using Cons.prems s1(2,4) by simp_all
  obtain s2 where s2: "restore_objects S junk buf (length ks) ?p (concat (map (\<lambda>k. object_image M k (the (D k))) ks) @ is)
      = Some (?p\<lparr>backend_state := s2, object_list := fold insort_insert ks (object_list ?p)\<rparr>, is)" "ok s2"
    "mem s2 = restored_mem M D (set ks) (mem (backend_state ?p))" "info s2 = (\<lambda>k. if k \<in> set ks then D k else info (backend_state ?p) k)"
    using Cons.IH [OF prem(1) Cons.prems(2) prem(2,3)] by blast
  have "mem s2 = restored_mem M D (set (k # ks)) (mem (backend_state p))"
    using s2(3) s1(3) i restored_mem_insert [of D k M "set ks" "mem (backend_state p)"] by simp
  moreover have "info s2 = (\<lambda>k'. if k' \<in> set (k # ks) then D k' else info (backend_state p) k')"
    using s2(4) s1(4) by (simp add: fun_eq_iff)
  moreover have "restore_objects S junk buf (length (k # ks)) p (concat (map (\<lambda>k. object_image M k (the (D k))) (k # ks)) @ is)
      = Some (p\<lparr>backend_state := s2, object_list := fold insort_insert (k # ks) (object_list p)\<rparr>, is)"
    using s1(1) s2(1) i(1) by simp
  ultimately show ?case using s2(2) by blast
next
  case Nil
  then show ?case by (intro exI [of _ "backend_state p"]) simp
qed

end

section \<open>Shared constants\<close>

fun const_fk :: "shared_const \<Rightarrow> FieldKey" where
  "const_fk (Const32 c) = sc_fk c"
| "const_fk (Const64 c) = sc_fk c"

fun const_loaded :: "dsm \<Rightarrow> shared_const \<Rightarrow> shared_const" where
  "const_loaded m (Const32 c) = Const32 (c\<lparr>sc_val := m 0 (sc_fk c)\<rparr>)"
| "const_loaded m (Const64 c) = Const64 (c\<lparr>sc_val := MAKE64 (m 0 (sc_fk c + 1)) (m 0 (sc_fk c))\<rparr>)"

context dsm_storage
begin

lemma load_const_spec:
  assumes "ok s" "dsm_range (const_fk c) 2"
  shows "load_const (DSMNoCache S) c s = (s, Ret (const_loaded (mem s) c))"
proof (cases c)
  case (Const32 c')
  have "dsm_range (sc_fk c') 1" using assms(2) Const32 by (auto intro: dsm_range_mono)
  then show ?thesis
    using Const32 get [OF assms(1), of "sc_fk c'" 0] by (simp add: SharedConst_load_def DSMInterface32_def DSMNoCache_def)
next
  case (Const64 c')
  have two: "dsm_read (mem s) 0 (sc_fk c') 2 = [mem s 0 (sc_fk c'), mem s 0 (sc_fk c' + 1)]"
    by (simp add: dsm_read_def numeral_2_eq_2)
  have "words_of_u64s [0] = [0, 0]" by (simp add: u64_words_def)
  then show ?thesis
    using Const64 getchunk32 [OF assms(1), of "sc_fk c'" 2 "[0, 0]" 0] assms(2) two
    by (simp add: SharedConst_load_def DSMInterface64_def DSMNoCache_def getchunk64_chunk)
qed

lemma load_consts_spec:
  assumes "ok s" "list_all (\<lambda>c. dsm_range (const_fk c) 2) cs"
  shows "load_consts (DSMNoCache S) cs s = Ret (s, map (const_loaded (mem s)) cs)"
  using assms(2) by (induction cs) (simp_all add: load_const_spec [OF assms(1)])

lemma InitSharedConst_spec:
  assumes "ok (backend_state (proc nd))" "list_all (\<lambda>c. dsm_range (const_fk c) 2) (shared_consts nd)"
  shows "InitSharedConst (DSMNoCache S) nd =
    Ret (if const_map nd then nd\<lparr>shared_consts := map (const_loaded (mem (backend_state (proc nd)))) (shared_consts nd), const_map := False\<rparr> else nd)"
  by (simp add: InitSharedConst_def load_consts_spec [OF assms])

end

section \<open>The file of a checkpoint\<close>

text \<open>
  What a checkpoint of a node saves: the headers of its objects, and on the master one for the global object.
\<close>

definition saved_info :: "('s \<Rightarrow> ObjectKey \<Rightarrow> (u32 \<times> u32) option) \<Rightarrow> ('s, 'r) node \<Rightarrow> ObjectKey \<Rightarrow> (u32 \<times> u32) option" where
  "saved_info info nd = (if isMaster nd then (info (backend_state (proc nd)))(0 \<mapsto> (0xFFFFFFFF, gloabl_fid (proc nd)))
     else info (backend_state (proc nd)))"

definition saved_keys :: "('s, 'r) node \<Rightarrow> ObjectKey list" where
  "saved_keys nd = (if isMaster nd then [0] else []) @ object_list (proc nd)"

text \<open>
  A node that can be checkpointed: its objects exist and are not too large for the dump loop; the global object
  is in the object list only with the header a restart gives it.
\<close>

definition checkpointable :: "('s \<Rightarrow> ObjectKey \<Rightarrow> (u32 \<times> u32) option) \<Rightarrow> ('s, 'r) node \<Rightarrow> bool" where
  "checkpointable info nd \<longleftrightarrow> checkpointlock nd \<noteq> 1 \<and> length (object_list (proc nd)) < 2 ^ 31 \<and>
     (\<forall>k \<in> set (saved_keys nd). \<exists>i. saved_info info nd k = Some i \<and> dumpable i) \<and>
     (\<forall>k \<in> set (object_list (proc nd)). info (backend_state (proc nd)) k = saved_info info nd k)"

definition checkpoint_image :: "dsm \<Rightarrow> (ObjectKey \<Rightarrow> (u32 \<times> u32) option) \<Rightarrow> bool \<Rightarrow> ObjectKey list \<Rightarrow> u8 list \<Rightarrow> u8 list" where
  "checkpoint_image M D master ks obj = (if master then object_image M 0 (the (D 0)) else []) @ u32_bytes (of_nat (length ks))
     @ concat (map (\<lambda>k. object_image M k (the (D k))) ks) @ obj"

text \<open>The application's hooks do not change which node they run on, nor the checkpoint counter.\<close>

definition keeps_identity :: "(('s, 'r) node \<Rightarrow> ('s, 'r) node) \<Rightarrow> bool" where
  "keeps_identity hook \<longleftrightarrow> (\<forall>nd. application_name (hook nd) = application_name nd \<and> self_node_id (hook nd) = self_node_id nd \<and>
     isMaster (hook nd) = isMaster nd \<and> checkpoint_cnt (hook nd) = checkpoint_cnt nd)"

lemma keeps_identity_paths:
  assumes "keeps_identity hook"
  shows "checkpoint_path (hook nd) k = checkpoint_path nd k" "master_path (hook nd) = master_path nd"
  using assms by (simp_all add: keeps_identity_def checkpoint_path_def master_path_def)

context dsm_storage
begin

lemma DoCheckPoint_spec:
  assumes "ok (backend_state (proc nd))" "length buf = 8192" "checkboject nd = Some obj" "checkpointable info nd" "keeps_identity hook"
  defines "nd1 \<equiv> hook (nd\<lparr>checkpointlock := 1\<rparr>)"
  shows "DoCheckPoint S hook members buf nd fs = Some (Ret (nd1\<lparr>checkpoint_cnt := checkpoint_cnt nd + 1\<rparr>,
    (if isMaster nd then fs(master_path nd \<mapsto> print_int (checkpoint_cnt nd)) else fs)
      (checkpoint_path nd (checkpoint_cnt nd - 2) := None,
       checkpoint_path nd (checkpoint_cnt nd) \<mapsto> checkpoint_image (mem (backend_state (proc nd))) (saved_info info nd)
         (isMaster nd) (object_list (proc nd)) (concat (map (region_bytes (node_heap nd1) obj) members))), True))"
proof -
  let ?s = "backend_state (proc nd)" and ?ks = "object_list (proc nd)" and ?D = "saved_info info nd"
  have keys: "\<forall>k \<in> set ?ks. \<exists>i. info ?s k = Some i \<and> dumpable i" "\<forall>k \<in> set ?ks. info ?s k = ?D k"
    using assms(4) by (auto simp: checkpointable_def saved_keys_def)
  have imgs: "map (\<lambda>k. object_image (mem ?s) k (the (info ?s k))) ?ks = map (\<lambda>k. object_image (mem ?s) k (the (?D k))) ?ks"
    using keys(2) by (intro map_cong) simp_all
  have glob: "DumpSharedMemory S ?s 0 (gloabl_fid (proc nd)) 0xFFFFFFFF buf [] = Some (object_image (mem ?s) 0 (the (?D 0)))"
    if "isMaster nd"
  proof -
    have "?D 0 = Some (0xFFFFFFFF, gloabl_fid (proc nd))" using that by (simp add: saved_info_def)
    moreover then have "dumpable (0xFFFFFFFF, gloabl_fid (proc nd))"
      using assms(4) that by (auto simp: checkpointable_def saved_keys_def)
    ultimately show ?thesis using DumpSharedMemory_spec [OF assms(1,2)] by simp
  qed
  have same: "isMaster nd1 = isMaster nd" "checkpoint_cnt nd1 = checkpoint_cnt nd" "master_path nd1 = master_path nd"
      "\<And>k. checkpoint_path nd1 k = checkpoint_path nd k" "\<And>k. checkpoint_path (nd\<lparr>checkpointlock := 1\<rparr>) k = checkpoint_path nd k"
    using assms(5) keeps_identity_paths [OF assms(5)]
    by (simp_all add: nd1_def keeps_identity_def) (simp_all add: checkpoint_path_def master_path_def)
  have lock: "checkpointlock nd \<noteq> 1" using assms(4) by (simp add: checkpointable_def)
  show ?thesis
    unfolding DoCheckPoint_def
    using lock assms(3)
    by (cases "isMaster nd") (simp_all add: glob same Let_def nd1_def [symmetric] dump_objects_spec [OF assms(1,2) keys(1)] imgs GetObjectNumber_def
        Serialize_spec checkpoint_image_def del: fun_upd_apply)
qed

lemma restore_globals_spec:
  assumes "ok (backend_state (proc nd))" "length buf = 8192" "list_all (\<lambda>c. dsm_range (const_fk c) 2) (shared_consts nd)"
  defines "keys \<equiv> (if isMaster nd then [0] else [])"
  assumes saved: "\<forall>k \<in> set keys. \<exists>i. D k = Some i \<and> dumpable i"
    and free: "\<forall>k \<in> set keys. info (backend_state (proc nd)) k = None \<or> info (backend_state (proc nd)) k = D k"
  shows "\<exists>nd'. restore_globals S (DSMNoCache S) junk buf (nd\<lparr>checkpoint_cnt := c\<rparr>) ((if isMaster nd then object_image M 0 (the (D 0)) else []) @ is) = Some (Ret (nd', is)) \<and>
    ok (backend_state (proc nd')) \<and> mem (backend_state (proc nd')) = restored_mem M D (set keys) (mem (backend_state (proc nd))) \<and>
    info (backend_state (proc nd')) = (\<lambda>k. if k \<in> set keys then D k else info (backend_state (proc nd)) k) \<and>
    object_list (proc nd') = fold insort_insert keys (object_list (proc nd)) \<and>
    shared_consts nd' = (if isMaster nd \<and> const_map nd
      then map (const_loaded (restored_mem M D (set keys) (mem (backend_state (proc nd))))) (shared_consts nd) else shared_consts nd) \<and>
    node_heap nd' = node_heap nd \<and> checkpoint_cnt nd' = c"
proof (cases "isMaster nd")
  case True
  let ?s = "backend_state (proc nd)"
  have k: "keys = [0]" using True by (simp add: keys_def)
  then obtain i where i: "D 0 = Some i" "dumpable i" using saved by auto
  have f: "info ?s 0 = None \<or> info ?s 0 = D 0" using free k by simp
  obtain s1 where s1: "RestoreSharedMemory S junk buf (proc nd) (object_image M 0 i @ is)
      = Some ((proc nd)\<lparr>backend_state := s1, object_list := insort_insert 0 (object_list (proc nd))\<rparr>, is, 0)" "ok s1"
    "mem s1 = dsm_write (mem ?s) 0 0 (dsm_read M 0 0 (unat (snd i)))" "info s1 = (info ?s)(0 := D 0)"
    by (rule RestoreSharedMemory_spec [of "proc nd" buf D 0 i junk M "is"]) (use assms(1,2) i f in blast)+
  have m1: "mem s1 = restored_mem M D {0} (mem ?s)"
    using restored_mem_insert [of D 0 M "{}" "mem ?s"] s1(3) i by simp
  let ?nd = "nd\<lparr>checkpoint_cnt := c, proc := (proc nd)\<lparr>backend_state := s1, object_list := insort_insert 0 (object_list (proc nd))\<rparr>\<rparr>"
  let ?nd' = "if const_map nd then ?nd\<lparr>shared_consts := map (const_loaded (mem s1)) (shared_consts nd), const_map := False\<rparr> else ?nd"
  have "InitSharedConst (DSMNoCache S) ?nd = Ret ?nd'" using InitSharedConst_spec [of ?nd] s1(2) assms(3) by simp
  then have "restore_globals S (DSMNoCache S) junk buf (nd\<lparr>checkpoint_cnt := c\<rparr>) (object_image M 0 (the (D 0)) @ is) = Some (Ret (?nd', is))"
    using True s1(1) i(1) by (simp add: restore_globals_def)
  moreover have "info s1 = (\<lambda>k. if k \<in> {0} then D k else info ?s k)" using s1(4) by (simp add: fun_eq_iff)
  ultimately show ?thesis using True m1 s1(2) unfolding k by (intro exI [of _ ?nd']) simp
next
  case False
  then show ?thesis using assms(1) by (simp add: restore_globals_def keys_def)
qed

lemma DoRestart_spec:
  assumes "ok (backend_state (proc nd))" "length buf = 8192" "checkboject nd = Some obj"
    and "fs (checkpoint_path nd (checkpoint_cnt nd)) = Some (checkpoint_image M D (isMaster nd) ks (concat bss))"
    and "length ks < 2 ^ 31" "list_all2 (\<lambda>bs m. length bs = member_size m) bss members"
    and "separate_members (node_heap nd) obj members" "list_all (\<lambda>c. dsm_range (const_fk c) 2) (shared_consts nd)"
  defines "globals \<equiv> (if isMaster nd then [0] else [])"
  assumes saved: "\<forall>k \<in> set (globals @ ks). \<exists>i. D k = Some i \<and> dumpable i"
    and free: "\<forall>k \<in> set (globals @ ks). info (backend_state (proc nd)) k = None \<or> info (backend_state (proc nd)) k = D k"
  shows "\<exists>nd'. DoRestart S (DSMNoCache S) hook members junk buf nd fs = Some (Ret (hook nd')) \<and>
    ok (backend_state (proc nd')) \<and> checkpoint_cnt nd' = checkpoint_cnt nd + 1 \<and>
    mem (backend_state (proc nd')) = restored_mem M D (set (globals @ ks)) (mem (backend_state (proc nd))) \<and>
    info (backend_state (proc nd')) = (\<lambda>k. if k \<in> set (globals @ ks) then D k else info (backend_state (proc nd)) k) \<and>
    object_list (proc nd') = fold insort_insert (globals @ ks) (object_list (proc nd)) \<and>
    shared_consts nd' = (if isMaster nd \<and> const_map nd
      then map (const_loaded (restored_mem M D (set globals) (mem (backend_state (proc nd))))) (shared_consts nd) else shared_consts nd) \<and>
    map (region_bytes (node_heap nd') obj) members = bss"
proof -
  let ?s = "backend_state (proc nd)"
  let ?objs = "concat (map (\<lambda>k. object_image M k (the (D k))) ks)"
  let ?is = "u32_bytes (of_nat (length ks)) @ ?objs @ concat bss"
  let ?nd0 = "nd\<lparr>checkpoint_cnt := checkpoint_cnt nd + 1\<rparr>"
  obtain nd1 where nd1: "restore_globals S (DSMNoCache S) junk buf ?nd0 (checkpoint_image M D (isMaster nd) ks (concat bss)) = Some (Ret (nd1, ?is))"
      "ok (backend_state (proc nd1))" "mem (backend_state (proc nd1)) = restored_mem M D (set globals) (mem ?s)"
      "info (backend_state (proc nd1)) = (\<lambda>k. if k \<in> set globals then D k else info ?s k)"
      "object_list (proc nd1) = fold insort_insert globals (object_list (proc nd))"
      "shared_consts nd1 = (if isMaster nd \<and> const_map nd
        then map (const_loaded (restored_mem M D (set globals) (mem ?s))) (shared_consts nd) else shared_consts nd)"
      "node_heap nd1 = node_heap nd" "checkpoint_cnt nd1 = checkpoint_cnt nd + 1"
    using restore_globals_spec [OF assms(1,2,8), of D junk "checkpoint_cnt nd + 1" M ?is] saved free
    unfolding globals_def [symmetric] checkpoint_image_def by auto
  have "\<forall>k \<in> set ks. info (backend_state (proc nd1)) k = None \<or> info (backend_state (proc nd1)) k = D k"
    using free nd1(4) by auto
  moreover have "\<forall>k \<in> set ks. \<exists>i. D k = Some i \<and> dumpable i" using saved by simp
  ultimately obtain s2 where s2: "restore_objects S junk buf (length ks) (proc nd1) (?objs @ concat bss)
      = Some ((proc nd1)\<lparr>backend_state := s2, object_list := fold insort_insert ks (object_list (proc nd1))\<rparr>, concat bss)" "ok s2"
      "mem s2 = restored_mem M D (set ks) (mem (backend_state (proc nd1)))"
      "info s2 = (\<lambda>k. if k \<in> set ks then D k else info (backend_state (proc nd1)) k)"
    using restore_objects_spec [OF nd1(2) assms(2), of ks D junk M "concat bss"] by blast
  obtain h where h: "ClassSerializer_Deserialize members (node_heap nd) obj (concat bss) = (h, [])" "map (region_bytes h obj) members = bss"
    using Deserialize_spec [OF assms(7,6), of "[]"] by auto
  let ?nd = "nd1\<lparr>proc := (proc nd1)\<lparr>backend_state := s2, object_list := fold insort_insert ks (object_list (proc nd1))\<rparr>, node_heap := h\<rparr>"
  have num: "nat (sint (of_nat (length ks) :: u32)) = length ks"
    using assms(5) by (simp add: sint_small unat_of_nat_small)
  have "DoRestart S (DSMNoCache S) hook members junk buf nd fs = Some (Ret (hook ?nd))"
    unfolding DoRestart_def assms(3) option.case Let_def assms(4) nd1(1) run_bind_simps prod.case
    using s2(1) h(1) nd1(7) by (simp add: num)
  moreover have "mem s2 = restored_mem M D (set (globals @ ks)) (mem ?s)"
    using s2(3) nd1(3) by (auto simp: restored_mem_def fun_eq_iff)
  moreover have "info s2 = (\<lambda>k. if k \<in> set (globals @ ks) then D k else info ?s k)"
    using s2(4) nd1(4) by (auto simp: fun_eq_iff)
  ultimately show ?thesis
    using s2(2) nd1(5,6,8) h(2) by (intro exI [of _ ?nd]) simp
qed

end

section \<open>Properties\<close>

lemma region_sizes: "list_all2 (\<lambda>bs m. length bs = member_size m) (map (region_bytes h obj) ms) ms"
  by (induction ms) simp_all

text \<open>
  A node before a checkpoint, with one object and a checkpoint object of two members, and the node that
  restarts on an empty storage.
\<close>

definition demo_node :: "(server, u32) node" where
  "demo_node = \<lparr>proc = fresh_process, application_name = [97], self_node_id = 0, isMaster = True, checkpoint_cnt = 0,
     checkpointlock = 0, checkboject = Some 8, node_heap = \<lparr>heap_bytes = (\<lambda>_. 0), heap_refs = (\<lambda>_. 64)\<rparr>, shared_consts = [], const_map = True\<rparr>"

definition demo_storage :: server where
  "demo_storage = fst (so_newobj (SoStorageChunkMemcached server_api) Map.empty 7 100 3)"

definition demo_saved :: "(server, u32) node" where
  "demo_saved = demo_node\<lparr>proc := \<lparr>backend_state = demo_storage, object_list = [7], gloabl_fid = 4, rand_state = 0\<rparr>\<rparr>"

lemma demo_storage_ok: "smk_ok server_api id demo_storage" "smc_info id demo_storage = [7 \<mapsto> (100, 3)]"
  using smk.newobj [OF server_empty(1), of 7 100 3] by (auto simp: demo_storage_def server_empty)



end
