(* ===== verification/Dogee_CheckpointProtocol.thy ===== *)
theory Dogee_CheckpointProtocol
  imports Dogee_CheckpointFacts
begin

text \<open>
  The protocol of \<^verbatim>\<open>DCheckpointBarrier::Enter\<close> (\<^verbatim>\<open>Dogee/DogeeCheckpoint.cpp\<close>): every slave saves its file before the
  first barrier, the master saves its own between the two barriers and names the checkpoint in the master file.
  A cluster is a step relation over the program points of its nodes; the invariant says that a crash at any
  moment leaves a checkpoint every node can restart from.
\<close>

section \<open>The step relation\<close>

text \<open>
  One thread of every node runs \<^verbatim>\<open>Enter\<close>; node 0 is the master. The program points of a call: before it
  (\<open>Outside\<close>), a slave after \<^verbatim>\<open>DoCheckPoint\<close> (\<open>Checked\<close>), inside the first \<^verbatim>\<open>DBarrier::Enter\<close>, behind it
  (\<open>Between\<close>), the master inside \<^verbatim>\<open>DoCheckPoint\<close> with the master file written and its own file still open
  (\<open>Named\<close>), ready for the second barrier, and inside the second \<^verbatim>\<open>DBarrier::Enter\<close>.
\<close>

datatype point = Outside | Checked | First | Between | Named | Ready | Second

text \<open>
  \<open>entered\<close> and \<open>passed\<close> count the barriers a node has entered and left, \<open>saved\<close> holds the numbers of its
  complete checkpoint files, \<open>named\<close> is the number in the master file.
\<close>

record cp_state =
  point :: "nat \<Rightarrow> point"
  entered :: "nat \<Rightarrow> int"
  passed :: "nat \<Rightarrow> int"
  cnt :: "nat \<Rightarrow> int"
  saved :: "nat \<Rightarrow> int set"
  named :: "int option"

text \<open>
  A barrier of all \<open>N\<close> nodes lets a node pass when every node has entered it as often
  (\<open>barrier_synchronises\<close>).
\<close>

definition barrier_open :: "nat \<Rightarrow> cp_state \<Rightarrow> nat \<Rightarrow> bool" where
  "barrier_open N s i \<longleftrightarrow> (\<forall>j < N. entered s i \<le> entered s j)"

definition enter_barrier :: "cp_state \<Rightarrow> nat \<Rightarrow> point \<Rightarrow> cp_state" where
  "enter_barrier s i pt = s\<lparr>point := (point s)(i := pt), entered := (entered s)(i := entered s i + 1)\<rparr>"

definition pass_barrier :: "cp_state \<Rightarrow> nat \<Rightarrow> point \<Rightarrow> cp_state" where
  "pass_barrier s i pt = s\<lparr>point := (point s)(i := pt), passed := (passed s)(i := entered s i)\<rparr>"

inductive cp_step :: "nat \<Rightarrow> cp_state \<Rightarrow> cp_state \<Rightarrow> bool" for N :: nat where
  slave_dump: "0 < i \<Longrightarrow> i < N \<Longrightarrow> point s i = Outside \<Longrightarrow>
    cp_step N s (s\<lparr>point := (point s)(i := Checked), cnt := (cnt s)(i := cnt s i + 1),
      saved := (saved s)(i := insert (cnt s i) (saved s i - {cnt s i - 2}))\<rparr>)"
| slave_first: "0 < i \<Longrightarrow> i < N \<Longrightarrow> point s i = Checked \<Longrightarrow> cp_step N s (enter_barrier s i First)"
| master_first: "0 < N \<Longrightarrow> point s 0 = Outside \<Longrightarrow> cp_step N s (enter_barrier s 0 First)"
| pass_first: "i < N \<Longrightarrow> point s i = First \<Longrightarrow> barrier_open N s i \<Longrightarrow> cp_step N s (pass_barrier s i Between)"
| master_name: "0 < N \<Longrightarrow> point s 0 = Between \<Longrightarrow>
    cp_step N s (s\<lparr>point := (point s)(0 := Named), named := Some (cnt s 0), saved := (saved s)(0 := saved s 0 - {cnt s 0 - 2})\<rparr>)"
| master_close: "0 < N \<Longrightarrow> point s 0 = Named \<Longrightarrow>
    cp_step N s (s\<lparr>point := (point s)(0 := Ready), cnt := (cnt s)(0 := cnt s 0 + 1), saved := (saved s)(0 := insert (cnt s 0) (saved s 0))\<rparr>)"
| slave_reset: "0 < i \<Longrightarrow> i < N \<Longrightarrow> point s i = Between \<Longrightarrow> cp_step N s (s\<lparr>point := (point s)(i := Ready)\<rparr>)"
| second: "i < N \<Longrightarrow> point s i = Ready \<Longrightarrow> cp_step N s (enter_barrier s i Second)"
| pass_second: "i < N \<Longrightarrow> point s i = Second \<Longrightarrow> barrier_open N s i \<Longrightarrow> cp_step N s (pass_barrier s i Outside)"

text \<open>
  A cluster starts at checkpoint number \<open>c\<close>: a new one with no master file, or one that was restarted from
  checkpoint \<open>c - 1\<close>.
\<close>

definition cp_start :: "nat \<Rightarrow> int \<Rightarrow> cp_state \<Rightarrow> bool" where
  "cp_start N c s \<longleftrightarrow> (\<forall>i < N. point s i = Outside \<and> entered s i = 0 \<and> passed s i = 0 \<and> cnt s i = c) \<and>
     (named s = None \<or> named s = Some (c - 1) \<and> (\<forall>i < N. c - 1 \<in> saved s i))"

inductive cp_reachable :: "nat \<Rightarrow> int \<Rightarrow> cp_state \<Rightarrow> cp_state \<Rightarrow> bool" for N c s0 where
  start: "cp_start N c s0 \<Longrightarrow> cp_reachable N c s0 s0"
| step: "cp_reachable N c s0 s \<Longrightarrow> cp_step N s s' \<Longrightarrow> cp_reachable N c s0 s'"

section \<open>The invariant\<close>

text \<open>Where a node stands in the sequence of barriers, in terms of the checkpoints it has completed.\<close>

fun slave_at :: "point \<Rightarrow> int \<Rightarrow> int \<Rightarrow> int \<Rightarrow> bool" where
  "slave_at Outside d e p \<longleftrightarrow> e = 2 * d \<and> p = e"
| "slave_at Checked d e p \<longleftrightarrow> e = 2 * d - 2 \<and> p = e"
| "slave_at First d e p \<longleftrightarrow> e = 2 * d - 1 \<and> p = 2 * d - 2"
| "slave_at Between d e p \<longleftrightarrow> e = 2 * d - 1 \<and> p = e"
| "slave_at Named d e p \<longleftrightarrow> False"
| "slave_at Ready d e p \<longleftrightarrow> e = 2 * d - 1 \<and> p = e"
| "slave_at Second d e p \<longleftrightarrow> e = 2 * d \<and> p = 2 * d - 1"

fun master_at :: "point \<Rightarrow> int \<Rightarrow> int \<Rightarrow> int \<Rightarrow> bool" where
  "master_at Outside d e p \<longleftrightarrow> e = 2 * d \<and> p = e"
| "master_at Checked d e p \<longleftrightarrow> False"
| "master_at First d e p \<longleftrightarrow> e = 2 * d + 1 \<and> p = 2 * d"
| "master_at Between d e p \<longleftrightarrow> e = 2 * d + 1 \<and> p = e"
| "master_at Named d e p \<longleftrightarrow> e = 2 * d + 1 \<and> p = e"
| "master_at Ready d e p \<longleftrightarrow> e = 2 * d - 1 \<and> p = e"
| "master_at Second d e p \<longleftrightarrow> e = 2 * d \<and> p = 2 * d - 1"

definition node_at :: "int \<Rightarrow> cp_state \<Rightarrow> nat \<Rightarrow> bool" where
  "node_at c s i = (if i = 0 then master_at (point s 0) (cnt s 0 - c) (entered s 0) (passed s 0)
     else slave_at (point s i) (cnt s i - c) (entered s i) (passed s i))"

text \<open>The checkpoints a node still has: its last two, and only the last while the master replaces the older one.\<close>

definition keeps_files :: "int \<Rightarrow> bool \<Rightarrow> cp_state \<Rightarrow> nat \<Rightarrow> bool" where
  "keeps_files c started s i \<longleftrightarrow> (\<forall>k. (c \<le> k \<or> started \<and> k = c - 1) \<and> k < cnt s i \<and>
     (if i = 0 \<and> point s 0 = Named then cnt s i - 1 else cnt s i - 2) \<le> k \<longrightarrow> k \<in> saved s i)"

definition names_last :: "int \<Rightarrow> bool \<Rightarrow> cp_state \<Rightarrow> bool" where
  "names_last c started s \<longleftrightarrow> named s = (if point s 0 = Named then Some (cnt s 0)
     else if cnt s 0 = c then (if started then Some (c - 1) else None) else Some (cnt s 0 - 1))"

definition cp_inv :: "nat \<Rightarrow> int \<Rightarrow> bool \<Rightarrow> cp_state \<Rightarrow> bool" where
  "cp_inv N c started s \<longleftrightarrow> (\<forall>i < N. node_at c s i \<and> c \<le> cnt s i \<and> keeps_files c started s i) \<and>
     (\<forall>i < N. \<forall>j < N. passed s i \<le> entered s j) \<and> names_last c started s"

lemmas cp_defs = cp_inv_def node_at_def keeps_files_def names_last_def enter_barrier_def pass_barrier_def barrier_open_def

lemma cp_inv_start: "0 < N \<Longrightarrow> cp_start N c s \<Longrightarrow> cp_inv N c (named s \<noteq> None) s"
  by (auto simp: cp_start_def cp_defs)

text \<open>A step changes one node: it keeps the invariant if that node is again in order.\<close>

lemma cp_inv_local:
  assumes "cp_inv N c b s" "i < N"
    and "\<And>j. j \<noteq> i \<Longrightarrow> point s' j = point s j \<and> entered s' j = entered s j \<and> passed s' j = passed s j \<and> cnt s' j = cnt s j \<and> saved s' j = saved s j"
    and "node_at c s' i" "c \<le> cnt s' i" "keeps_files c b s' i" "entered s i \<le> entered s' i" "\<And>j. j < N \<Longrightarrow> passed s' i \<le> entered s' j"
    and "names_last c b s'"
  shows "cp_inv N c b s'"
proof -
  have "node_at c s' j \<and> c \<le> cnt s' j \<and> keeps_files c b s' j" if "j < N" for j
  proof (cases "j = i")
    case False
    have "node_at c s j \<and> c \<le> cnt s j \<and> keeps_files c b s j" using assms(1) that by (simp add: cp_inv_def)
    then show ?thesis using assms(3) [OF False] by (simp add: node_at_def keeps_files_def split: if_splits)
  qed (use assms(4-6) in simp)
  moreover have "passed s' k \<le> entered s' j" if "j < N" "k < N" for j k
  proof (cases "k = i")
    case False
    have "passed s k \<le> entered s j" using assms(1) that by (simp add: cp_inv_def)
    then show ?thesis using assms(3) [OF False] assms(3) [of j] assms(7) by (cases "j = i") auto
  qed (use assms(8) that in simp)
  ultimately show ?thesis using assms(9) by (simp add: cp_inv_def)
qed

lemma cp_inv_node:
  assumes "cp_inv N c b s" "i < N"
  shows "node_at c s i" "c \<le> cnt s i" "keeps_files c b s i" "\<And>j. j < N \<Longrightarrow> passed s i \<le> entered s j" "names_last c b s"
  using assms by (simp_all add: cp_inv_def)

lemma cp_inv_step:
  assumes "cp_step N s s'" "cp_inv N c b s"
  shows "cp_inv N c b s'"
  using assms(1)
proof (cases rule: cp_step.cases)
  case (slave_dump i)
  then show ?thesis using cp_inv_node [OF assms(2), of i] by (intro cp_inv_local [OF assms(2), of i]) (auto simp: cp_defs)
next
  case (slave_first i)
  then show ?thesis using cp_inv_node [OF assms(2), of i] by (intro cp_inv_local [OF assms(2), of i]) (auto simp: cp_defs)
next
  case master_first
  then show ?thesis using cp_inv_node [OF assms(2), of 0] by (intro cp_inv_local [OF assms(2), of 0]) (auto simp: cp_defs)
next
  case (pass_first i)
  then show ?thesis using cp_inv_node [OF assms(2), of i] by (intro cp_inv_local [OF assms(2), of i]) (auto simp: cp_defs split: if_splits)
next
  case master_name
  then show ?thesis using cp_inv_node [OF assms(2), of 0] by (intro cp_inv_local [OF assms(2), of 0]) (auto simp: cp_defs)
next
  case master_close
  then show ?thesis using cp_inv_node [OF assms(2), of 0] by (intro cp_inv_local [OF assms(2), of 0]) (auto simp: cp_defs)
next
  case (slave_reset i)
  then show ?thesis using cp_inv_node [OF assms(2), of i] by (intro cp_inv_local [OF assms(2), of i]) (auto simp: cp_defs)
next
  case (second i)
  then show ?thesis using cp_inv_node [OF assms(2), of i] by (intro cp_inv_local [OF assms(2), of i]) (auto simp: cp_defs split: if_splits)
next
  case (pass_second i)
  then show ?thesis using cp_inv_node [OF assms(2), of i] by (intro cp_inv_local [OF assms(2), of i]) (auto simp: cp_defs split: if_splits)
qed

lemma cp_inv_reachable: "cp_reachable N c s0 s \<Longrightarrow> 0 < N \<Longrightarrow> cp_inv N c (named s0 \<noteq> None) s"
proof (induction rule: cp_reachable.induct)
  case start
  then show ?case by (intro cp_inv_start)
next
  case (step s s')
  then show ?case by (blast intro: cp_inv_step)
qed

text \<open>How far a slave can be from the master.\<close>

lemma slave_near_master:
  assumes "cp_inv N c b s" "0 < i" "i < N"
  shows "cnt s 0 \<le> cnt s i" "cnt s i \<le> cnt s 0 + 1" "point s 0 = Named \<Longrightarrow> cnt s i = cnt s 0 + 1"
proof -
  have m: "master_at (point s 0) (cnt s 0 - c) (entered s 0) (passed s 0)" and s: "slave_at (point s i) (cnt s i - c) (entered s i) (passed s i)"
    and le: "passed s 0 \<le> entered s i" "passed s i \<le> entered s 0"
    using cp_inv_node [OF assms(1), of 0] cp_inv_node [OF assms(1), of i] assms by (auto simp: node_at_def)
  show "cnt s 0 \<le> cnt s i" using m s le by (cases "point s 0"; cases "point s i") simp_all
  show "cnt s i \<le> cnt s 0 + 1" using m s le by (cases "point s 0"; cases "point s i") simp_all
  show "cnt s i = cnt s 0 + 1" if "point s 0 = Named" using m s le that by (cases "point s i") simp_all
qed

section \<open>Properties\<close>


text \<open>A run of two nodes up to the moment the master has named checkpoint 0.\<close>

definition cp_initial :: cp_state where
  "cp_initial = \<lparr>point = (\<lambda>_. Outside), entered = (\<lambda>_. 0), passed = (\<lambda>_. 0), cnt = (\<lambda>_. 0), saved = (\<lambda>_. {}), named = None\<rparr>"

definition cp_named :: cp_state where
  "cp_named = \<lparr>point = (\<lambda>_. Outside)(1 := First, 0 := Named), entered = (\<lambda>_. 0)(1 := 1, 0 := 1), passed = (\<lambda>_. 0)(0 := 1),
     cnt = (\<lambda>_. 0)(1 := 1), saved = (\<lambda>_. {})(1 := {0}, 0 := {}), named = Some 0\<rparr>"

lemma cp_named_reachable: "cp_reachable 2 0 cp_initial cp_named"
proof -
  let ?s1 = "cp_initial\<lparr>point := (point cp_initial)(1 := Checked), cnt := (cnt cp_initial)(1 := 1), saved := (saved cp_initial)(1 := {0})\<rparr>"
  let ?s2 = "enter_barrier ?s1 1 First"
  let ?s3 = "enter_barrier ?s2 0 First"
  let ?s4 = "pass_barrier ?s3 0 Between"
  have "cp_reachable 2 0 cp_initial cp_initial" by (rule start) (simp add: cp_start_def cp_initial_def)
  then have "cp_reachable 2 0 cp_initial ?s1"
    by (rule step) (use slave_dump [of 1 2 cp_initial] in \<open>simp add: cp_initial_def\<close>)
  then have "cp_reachable 2 0 cp_initial ?s2" by (rule step) (rule slave_first; simp)
  then have "cp_reachable 2 0 cp_initial ?s3" by (rule step) (rule master_first; simp add: enter_barrier_def cp_initial_def)
  then have "cp_reachable 2 0 cp_initial ?s4"
    by (rule step) (rule pass_first; auto simp: enter_barrier_def cp_initial_def barrier_open_def less_2_cases_iff)
  moreover have "cp_step 2 ?s4 cp_named"
    using master_name [of 2 ?s4] by (simp add: enter_barrier_def pass_barrier_def cp_initial_def cp_named_def fun_upd_twist)
  ultimately show ?thesis by (rule step)
qed


text \<open>
  The exception is real: the master file already names a checkpoint whose file the master has not completed, because the
  stream of that file is closed only when \<^verbatim>\<open>DoCheckPoint\<close> returns.
\<close>

theorem master_named_before_closed: "\<exists>s. cp_reachable 2 0 cp_initial s \<and> named s = Some 0 \<and> 0 \<notin> saved s 0"
  using cp_named_reachable by (intro exI [of _ cp_named]) (simp add: cp_named_def)

end
