(* ===== verification/Dogee_LocalSync.thy ===== *)
theory Dogee_LocalSync
  imports Dogee_Prelude
begin

text \<open>
  Synchronisation between threads of one process, \<^verbatim>\<open>include/DogeeLocalSync.h\<close>: the semaphore the thread pools use, and the
  barrier \<^verbatim>\<open>LBarrier\<close> the applications use, as the two critical sections of
  \<^verbatim>\<open>count_down_and_wait\<close>, and a fixed set of threads that call it again and again. The generation counter is 32
  bits wide and wraps around.
\<close>

section \<open>Semaphores\<close>

text \<open>\<^verbatim>\<open>wait\<close> blocks while the count is 0 (\<open>None\<close>); under the mutex both calls are atomic.\<close>

definition LSemaphore_notify :: "nat \<Rightarrow> nat" where
  "LSemaphore_notify count = count + 1"

definition LSemaphore_wait :: "nat \<Rightarrow> nat option" where
  "LSemaphore_wait count = (if count = 0 then None else Some (count - 1))"

section \<open>The barrier\<close>

record LBarrier =
  m_count :: u32
  m_generation :: u32
  m_count_reset_value :: u32

definition LBarrier_new :: "u32 \<Rightarrow> LBarrier" where
  "LBarrier_new count = \<lparr>m_count = count, m_generation = 0, m_count_reset_value = count\<rparr>"

text \<open>The call up to its wait loop: \<open>None\<close> is the return of the last thread, \<open>Some gen\<close> the generation to wait for.\<close>

definition count_down :: "LBarrier \<Rightarrow> LBarrier \<times> u32 option" where
  "count_down b =
     (let gen = m_generation b; b = b\<lparr>m_count := m_count b - 1\<rparr> in
      if m_count b = 0 then (b\<lparr>m_generation := m_generation b + 1, m_count := m_count_reset_value b\<rparr>, None)
      else (b, Some gen))"

definition wait_over :: "LBarrier \<Rightarrow> u32 \<Rightarrow> bool" where
  "wait_over b gen \<longleftrightarrow> gen \<noteq> m_generation b"

section \<open>Threads at the barrier\<close>

text \<open>\<open>inside t\<close> is the generation thread \<open>t\<close> waits for; the counters record its calls and returns.\<close>

record barrier_sys =
  bar :: LBarrier
  inside :: "nat \<Rightarrow> u32 option"
  calls :: "nat \<Rightarrow> nat"
  returns :: "nat \<Rightarrow> nat"

definition barrier_start :: "nat \<Rightarrow> barrier_sys" where
  "barrier_start n = \<lparr>bar = LBarrier_new (of_nat n), inside = (\<lambda>_. None), calls = (\<lambda>_. 0), returns = (\<lambda>_. 0)\<rparr>"

inductive barrier_step :: "nat \<Rightarrow> barrier_sys \<Rightarrow> barrier_sys \<Rightarrow> bool" for n :: nat where
  arrive_wait: "t < n \<Longrightarrow> inside s t = None \<Longrightarrow> count_down (bar s) = (b, Some gen) \<Longrightarrow>
    barrier_step n s (s\<lparr>bar := b, inside := (inside s)(t := Some gen), calls := (calls s)(t := calls s t + 1)\<rparr>)"
| arrive_last: "t < n \<Longrightarrow> inside s t = None \<Longrightarrow> count_down (bar s) = (b, None) \<Longrightarrow>
    barrier_step n s (s\<lparr>bar := b, calls := (calls s)(t := calls s t + 1), returns := (returns s)(t := returns s t + 1)\<rparr>)"
| leave: "t < n \<Longrightarrow> inside s t = Some gen \<Longrightarrow> wait_over (bar s) gen \<Longrightarrow>
    barrier_step n s (s\<lparr>inside := (inside s)(t := None), returns := (returns s)(t := returns s t + 1)\<rparr>)"

inductive barrier_reachable :: "nat \<Rightarrow> barrier_sys \<Rightarrow> bool" for n :: nat where
  start: "barrier_reachable n (barrier_start n)"
| step: "barrier_reachable n s \<Longrightarrow> barrier_step n s s' \<Longrightarrow> barrier_reachable n s'"

section \<open>The invariant\<close>

text \<open>
  After \<open>G\<close> complete rounds every thread has called \<open>G\<close> times or, when it has arrived in the present round, once more. A
  thread that waits does so for the present round or for the last one, which is over.
\<close>

definition thread_at :: "nat \<Rightarrow> barrier_sys \<Rightarrow> nat \<Rightarrow> bool" where
  "thread_at G s t \<longleftrightarrow> (case inside s t of
      None \<Rightarrow> calls s t = G \<and> returns s t = G
    | Some gen \<Rightarrow> calls s t = returns s t + 1 \<and>
        (calls s t = G + 1 \<and> gen = of_nat G \<or> calls s t = G \<and> gen = of_nat G - 1))"

definition arrived :: "nat \<Rightarrow> nat \<Rightarrow> barrier_sys \<Rightarrow> nat set" where
  "arrived n G s = {t. t < n \<and> calls s t = G + 1}"

definition barrier_inv :: "nat \<Rightarrow> nat \<Rightarrow> barrier_sys \<Rightarrow> bool" where
  "barrier_inv n G s \<longleftrightarrow> (\<forall>t < n. thread_at G s t) \<and> m_generation (bar s) = of_nat G \<and> m_count_reset_value (bar s) = of_nat n \<and>
     card (arrived n G s) < n \<and> m_count (bar s) = of_nat (n - card (arrived n G s))"

lemma thread_at_same:
  "inside s' u = inside s u \<Longrightarrow> calls s' u = calls s u \<Longrightarrow> returns s' u = returns s u \<Longrightarrow> thread_at G s' u = thread_at G s u"
  by (cases "inside s u") (simp_all add: thread_at_def)

lemma finite_arrived [simp]: "finite (arrived n G s)"
  by (simp add: arrived_def)

lemma of_nat_pred_ne: "(of_nat G - 1 :: u32) \<noteq> of_nat G"
  by simp

text \<open>A thread arrives that has not called yet in this round.\<close>

lemma arrived_insert:
  assumes "t < n" "calls s t = G" "calls s' = (calls s)(t := G + 1)"
  shows "arrived n G s' = insert t (arrived n G s)" "card (arrived n G s') = card (arrived n G s) + 1"
proof -
  show eq: "arrived n G s' = insert t (arrived n G s)" using assms by (auto simp: arrived_def)
  have "t \<notin> arrived n G s" using assms(2) by (simp add: arrived_def)
  then show "card (arrived n G s') = card (arrived n G s) + 1" unfolding eq by simp
qed

lemma count_down_value:
  assumes "barrier_inv n G s" "n < 2 ^ 32"
  shows "m_count (bar s) - 1 = of_nat (n - card (arrived n G s) - 1)" "m_count (bar s) - 1 = 0 \<longleftrightarrow> n = card (arrived n G s) + 1"
proof -
  have lt: "card (arrived n G s) < n" and c: "m_count (bar s) = of_nat (n - card (arrived n G s))"
    using assms(1) by (simp_all add: barrier_inv_def)
  show eq: "m_count (bar s) - 1 = of_nat (n - card (arrived n G s) - 1)" unfolding c using lt by (simp add: of_nat_diff)
  have "(of_nat (n - card (arrived n G s) - 1) :: u32) = of_nat 0 \<longleftrightarrow> n - card (arrived n G s) - 1 = 0"
    using assms(2) by (intro of_nat_inject_small) simp_all
  then show "m_count (bar s) - 1 = 0 \<longleftrightarrow> n = card (arrived n G s) + 1" unfolding eq using lt by auto
qed

lemma barrier_inv_arrive_wait:
  assumes "barrier_inv n G s" "n < 2 ^ 32" "t < n" "inside s t = None" "count_down (bar s) = (b, Some gen)"
  defines "s' \<equiv> s\<lparr>bar := b, inside := (inside s)(t := Some gen), calls := (calls s)(t := calls s t + 1)\<rparr>"
  shows "barrier_inv n G s'"
proof -
  have t: "calls s t = G" "returns s t = G" using assms(1,3,4) by (auto simp: barrier_inv_def thread_at_def)
  have b: "b = (bar s)\<lparr>m_count := m_count (bar s) - 1\<rparr>" "gen = m_generation (bar s)" "m_count (bar s) - 1 \<noteq> 0"
    using assms(5) by (auto simp: count_down_def Let_def split: if_splits)
  note cnt = count_down_value [OF assms(1,2)]
  have arr: "card (arrived n G s') = card (arrived n G s) + 1"
    using arrived_insert(2) [of t n s G s'] assms(3) t by (simp add: s'_def)
  have "thread_at G s' t" using assms(1) t b(2) by (simp add: barrier_inv_def thread_at_def s'_def)
  moreover have "thread_at G s' u = thread_at G s u" if "u \<noteq> t" for u using that by (intro thread_at_same) (simp_all add: s'_def)
  ultimately have "\<forall>u < n. thread_at G s' u" using assms(1) by (metis barrier_inv_def)
  moreover have "card (arrived n G s') < n" using cnt(2) b(3) arr assms(1) by (simp add: barrier_inv_def)
  moreover have "m_count (bar s') = of_nat (n - card (arrived n G s'))" using cnt(1) arr b(1) by (simp add: s'_def)
  moreover have "m_generation (bar s') = of_nat G" "m_count_reset_value (bar s') = of_nat n"
    using assms(1) b(1) by (simp_all add: barrier_inv_def s'_def)
  ultimately show ?thesis unfolding barrier_inv_def by blast
qed

lemma barrier_inv_arrive_last:
  assumes "barrier_inv n G s" "n < 2 ^ 32" "t < n" "inside s t = None" "count_down (bar s) = (b, None)"
  defines "s' \<equiv> s\<lparr>bar := b, calls := (calls s)(t := calls s t + 1), returns := (returns s)(t := returns s t + 1)\<rparr>"
  shows "barrier_inv n (G + 1) s'"
proof -
  have t: "calls s t = G" "returns s t = G" using assms(1,3,4) by (auto simp: barrier_inv_def thread_at_def)
  have b: "b = (bar s)\<lparr>m_generation := m_generation (bar s) + 1, m_count := m_count_reset_value (bar s)\<rparr>" "m_count (bar s) - 1 = 0"
    using assms(5) by (auto simp: count_down_def Let_def split: if_splits)
  have all: "arrived n G s' = {t. t < n}"
  proof (rule card_subset_eq)
    show "arrived n G s' \<subseteq> {t. t < n}" by (auto simp: arrived_def)
    show "card (arrived n G s') = card {t. t < n}"
      using arrived_insert(2) [of t n s G s'] assms(3) t count_down_value(2) [OF assms(1,2)] b(2) by (simp add: s'_def)
  qed simp
  then have calls: "calls s' u = G + 1" if "u < n" for u using that by (auto simp: arrived_def)
  have th: "thread_at (G + 1) s' u" if u: "u < n" for u
  proof (cases "u = t")
    case True
    then show ?thesis using t assms(4) by (simp add: thread_at_def s'_def)
  next
    case False
    then have "calls s u = G + 1" "thread_at G s u" using calls [OF u] assms(1) u by (simp_all add: s'_def barrier_inv_def)
    then show ?thesis using False by (auto simp: thread_at_def s'_def split: option.splits)
  qed
  have "arrived n (G + 1) s' = {}" using calls by (auto simp: arrived_def)
  moreover have "m_generation (bar s') = of_nat (G + 1)" "m_count (bar s') = of_nat n" "m_count_reset_value (bar s') = of_nat n"
    using assms(1) b(1) by (simp_all add: barrier_inv_def s'_def add.commute)
  ultimately show ?thesis using th assms(3) by (simp add: barrier_inv_def)
qed

lemma barrier_inv_leave:
  assumes "barrier_inv n G s" "t < n" "inside s t = Some gen" "wait_over (bar s) gen"
  defines "s' \<equiv> s\<lparr>inside := (inside s)(t := None), returns := (returns s)(t := returns s t + 1)\<rparr>"
  shows "barrier_inv n G s'"
proof -
  have "thread_at G s t" "m_generation (bar s) = of_nat G" using assms(1,2) by (simp_all add: barrier_inv_def)
  then have "calls s t = G" "returns s t + 1 = G" using assms(3,4) by (auto simp: thread_at_def wait_over_def)
  then have "thread_at G s' t" by (simp add: thread_at_def s'_def)
  moreover have "thread_at G s' u = thread_at G s u" if "u \<noteq> t" for u using that by (intro thread_at_same) (simp_all add: s'_def)
  ultimately have "\<forall>u < n. thread_at G s' u" using assms(1) by (metis barrier_inv_def)
  moreover have "arrived n G s' = arrived n G s" "bar s' = bar s" by (simp_all add: arrived_def s'_def)
  ultimately show ?thesis using assms(1) by (simp add: barrier_inv_def)
qed

lemma barrier_inv_reachable:
  assumes "barrier_reachable n s" "0 < n" "n < 2 ^ 32"
  shows "\<exists>G. barrier_inv n G s"
  using assms(1)
proof (induction rule: barrier_reachable.induct)
  case start
  have "barrier_inv n 0 (barrier_start n)"
    using assms(2) by (simp add: barrier_inv_def barrier_start_def LBarrier_new_def thread_at_def arrived_def)
  then show ?case by blast
next
  case (step s s')
  then obtain G where inv: "barrier_inv n G s" by blast
  from step(2) show ?case
    by cases (use inv assms(3) barrier_inv_arrive_wait barrier_inv_arrive_last barrier_inv_leave in blast)+
qed

section \<open>Properties\<close>

text \<open>
  C26. The local barrier, called again and again by \<open>n\<close> threads: no thread has returned more often than any other has
  called, however the generation counter wraps, and when all threads are inside a call at least one of them can leave.
\<close>

theorem local_barrier_synchronises:
  assumes "barrier_reachable n s" "0 < n" "n < 2 ^ 32"
  shows "(\<forall>t < n. \<forall>u < n. returns s t \<le> calls s u) \<and>
    ((\<forall>t < n. inside s t \<noteq> None) \<longrightarrow> (\<exists>t < n. \<exists>gen. inside s t = Some gen \<and> wait_over (bar s) gen))"
proof -
  obtain G where inv: "barrier_inv n G s" using barrier_inv_reachable [OF assms] by blast
  have at: "thread_at G s t" if "t < n" for t using inv that by (simp add: barrier_inv_def)
  have "returns s t \<le> G" "G \<le> calls s t" if "t < n" for t
    using at [OF that] by (auto simp: thread_at_def split: option.splits)
  then have sync: "\<forall>t < n. \<forall>u < n. returns s t \<le> calls s u" by (meson order_trans)
  have "\<exists>t < n. \<exists>gen. inside s t = Some gen \<and> wait_over (bar s) gen" if ins: "\<forall>t < n. inside s t \<noteq> None"
  proof -
    have "arrived n G s \<noteq> {t. t < n}" using inv by (auto simp: barrier_inv_def)
    then obtain t where t: "t < n" "calls s t \<noteq> G + 1" by (auto simp: arrived_def)
    obtain gen where gen: "inside s t = Some gen" using ins t(1) by blast
    have "gen = of_nat G - 1" using at [OF t(1)] gen t(2) by (auto simp: thread_at_def)
    then have "wait_over (bar s) gen" using inv of_nat_pred_ne [of G] by (simp add: wait_over_def barrier_inv_def)
    then show ?thesis using t(1) gen by blast
  qed
  with sync show ?thesis by blast
qed

definition demo_barrier :: barrier_sys where
  "demo_barrier = barrier_start 2\<lparr>bar := LBarrier_new 2\<lparr>m_count := 1\<rparr>, inside := [1 \<mapsto> 0], calls := (\<lambda>_. 0)(1 := 1)\<rparr>"

lemma demo_barrier_reachable: "barrier_reachable 2 demo_barrier"
proof (rule step [OF start])
  show "barrier_step 2 (barrier_start 2) demo_barrier"
    using arrive_wait [of 1 2 "barrier_start 2" "LBarrier_new 2\<lparr>m_count := 1\<rparr>" 0]
    by (simp add: demo_barrier_def barrier_start_def LBarrier_new_def count_down_def Let_def)
qed

theorem local_barrier_synchronises_witness: "returns demo_barrier 1 \<le> calls demo_barrier 0"
  using local_barrier_synchronises [OF demo_barrier_reachable] by simp

end
