(* ===== verification/Dogee_ThreadPool.thy ===== *)
theory Dogee_ThreadPool
  imports Dogee_LocalSync
begin

text \<open>
  The local thread pool (\<^verbatim>\<open>include/DogeeThreadPool.h\<close>, \<^verbatim>\<open>Dogee/DogeeThreadPool.cpp\<close>) on the semaphore of
  \<^verbatim>\<open>include/DogeeLocalSync.h\<close>, and the pool of events and the scheduler of the distributed thread pool
  (\<^verbatim>\<open>include/DogeeDThreadPool.h\<close>). The pools are step relations: a critical section is one step, and the
  threads interleave freely between them.
\<close>

section \<open>The local thread pool\<close>

text \<open>
  Where a worker is in \<^verbatim>\<open>dequeue\<close>: before \<^verbatim>\<open>sem.wait ()\<close>, behind it, behind the test of \<^verbatim>\<open>stop\<close>, running a job,
  or returned.
\<close>

datatype 'j worker = Idle | Awake | Cleared | Running 'j | Returned

text \<open>
  \<open>unnotified\<close> counts the \<^verbatim>\<open>sem.notify ()\<close> that callers still owe: a job is pushed first, the
  semaphore raised afterwards. \<open>submitted\<close>, \<open>started\<close> and \<open>finished\<close> record what happened.
\<close>

record 'j LThreadPool =
  q :: "'j list"
  sem :: nat
  workers :: "nat \<Rightarrow> 'j worker"
  stop :: bool
  unnotified :: nat
  submitted :: "'j list"
  started :: "'j list"
  finished :: "'j list"

definition set_worker :: "'j LThreadPool \<Rightarrow> nat \<Rightarrow> 'j worker \<Rightarrow> 'j LThreadPool" where
  "set_worker p w st = p\<lparr>workers := (workers p)(w := st)\<rparr>"

text \<open>\<^verbatim>\<open>q.front ()\<close> on an empty queue is undefined: the step that would do it is \<open>pop_empty\<close>.\<close>

inductive pool_step :: "nat \<Rightarrow> 'j LThreadPool \<Rightarrow> 'j LThreadPool option \<Rightarrow> bool" for numthreads :: nat where
  enqueue: "\<not> stop p \<Longrightarrow>
    pool_step numthreads p (Some (p\<lparr>q := q p @ [j], unnotified := unnotified p + 1, submitted := submitted p @ [j]\<rparr>))"
| notify: "0 < unnotified p \<Longrightarrow>
    pool_step numthreads p (Some (p\<lparr>unnotified := unnotified p - 1, sem := LSemaphore_notify (sem p)\<rparr>))"
| sem_wait: "w < numthreads \<Longrightarrow> workers p w = Idle \<Longrightarrow> LSemaphore_wait (sem p) = Some c \<Longrightarrow>
    pool_step numthreads p (Some (set_worker (p\<lparr>sem := c\<rparr>) w Awake))"
| test_stop: "w < numthreads \<Longrightarrow> workers p w = Awake \<Longrightarrow>
    pool_step numthreads p (Some (set_worker p w (if stop p then Returned else Cleared)))"
| pop: "w < numthreads \<Longrightarrow> workers p w = Cleared \<Longrightarrow> q p = j # js \<Longrightarrow>
    pool_step numthreads p (Some (set_worker (p\<lparr>q := js, started := started p @ [j]\<rparr>) w (Running j)))"
| pop_empty: "w < numthreads \<Longrightarrow> workers p w = Cleared \<Longrightarrow> q p = [] \<Longrightarrow> pool_step numthreads p None"
| run: "w < numthreads \<Longrightarrow> workers p w = Running j \<Longrightarrow>
    pool_step numthreads p (Some (set_worker (p\<lparr>finished := finished p @ [j]\<rparr>) w Idle))"
| destruct: "\<not> stop p \<Longrightarrow>
    pool_step numthreads p (Some (p\<lparr>stop := True, unnotified := unnotified p + numthreads\<rparr>))"

definition LThreadPool_new :: "'j LThreadPool" where
  "LThreadPool_new = \<lparr>q = [], sem = 0, workers = (\<lambda>_. Idle), stop = False, unnotified = 0, submitted = [], started = [], finished = []\<rparr>"

inductive pool_reachable :: "nat \<Rightarrow> 'j LThreadPool \<Rightarrow> bool" for numthreads :: nat where
  new: "pool_reachable numthreads LThreadPool_new"
| step: "pool_reachable numthreads p \<Longrightarrow> pool_step numthreads p (Some p') \<Longrightarrow> pool_reachable numthreads p'"

inductive_cases pool_stuckE: "pool_step numthreads p None"

section \<open>The invariant of the local thread pool\<close>

text \<open>
  Until the pool is destroyed, every element of the queue is matched by a notification that is owed, by the
  count of the semaphore, or by a worker on its way to take it.
\<close>

definition on_the_way :: "nat \<Rightarrow> 'j LThreadPool \<Rightarrow> nat" where
  "on_the_way n p = length (filter (\<lambda>w. workers p w = Awake \<or> workers p w = Cleared) [0..<n])"

definition cleared :: "nat \<Rightarrow> 'j LThreadPool \<Rightarrow> nat" where
  "cleared n p = length (filter (\<lambda>w. workers p w = Cleared) [0..<n])"

fun job_of :: "'j worker \<Rightarrow> 'j list" where
  "job_of (Running j) = [j]"
| "job_of st = []"

definition running :: "nat \<Rightarrow> 'j LThreadPool \<Rightarrow> 'j list" where
  "running n p = concat (map (\<lambda>w. job_of (workers p w)) [0..<n])"

definition pool_inv :: "nat \<Rightarrow> 'j LThreadPool \<Rightarrow> bool" where
  "pool_inv n p \<longleftrightarrow> started p @ q p = submitted p \<and> cleared n p \<le> length (q p) \<and>
     (\<not> stop p \<longrightarrow> unnotified p + sem p + on_the_way n p = length (q p)) \<and>
     (\<forall>j. count_list (started p) j = count_list (finished p) j + count_list (running n p) j)"

text \<open>Counting over the workers after one of them has moved.\<close>

lemma upt_at: "w < n \<Longrightarrow> [0..<n] = [0..<w] @ w # [Suc w..<n]"
  using upt_add_eq_append [of 0 w "n - w"] by (simp add: upt_conv_Cons)

lemma filter_other: "w \<notin> set xs \<Longrightarrow> filter (\<lambda>x. P ((f(w := st)) x)) xs = filter (\<lambda>x. P (f x)) xs"
  by (rule filter_cong) auto

lemma worker_count:
  assumes "w < n"
  shows "length (filter (\<lambda>x. P ((f(w := st)) x)) [0..<n]) + (if P (f w) then 1 else 0)
    = length (filter (\<lambda>x. P (f x)) [0..<n]) + (if P st then 1 else 0)"
proof -
  have "filter (\<lambda>x. P ((f(w := st)) x)) [0..<w] = filter (\<lambda>x. P (f x)) [0..<w]"
      "filter (\<lambda>x. P ((f(w := st)) x)) [Suc w..<n] = filter (\<lambda>x. P (f x)) [Suc w..<n]"
    by (rule filter_other, simp)+
  then show ?thesis unfolding upt_at [OF assms] filter_append length_append filter.simps by simp
qed

lemma worker_running:
  assumes "w < n"
  shows "count_list (concat (map (\<lambda>x. job_of ((f(w := st)) x)) [0..<n])) k + count_list (job_of (f w)) k
    = count_list (concat (map (\<lambda>x. job_of (f x)) [0..<n])) k + count_list (job_of st) k"
proof -
  have same: "map (\<lambda>x. job_of ((f(w := st)) x)) [0..<w] = map (\<lambda>x. job_of (f x)) [0..<w]"
      "map (\<lambda>x. job_of ((f(w := st)) x)) [Suc w..<n] = map (\<lambda>x. job_of (f x)) [Suc w..<n]"
    by (intro map_cong; simp)+
  show ?thesis
    unfolding upt_at [OF assms] map_append list.map(2) same by simp
qed

lemma cleared_on_the_way: "cleared n p \<le> on_the_way n p"
  unfolding cleared_def on_the_way_def by (induction n) auto

lemma set_worker_fields [simp]:
  "q (set_worker p w st) = q p" "sem (set_worker p w st) = sem p" "stop (set_worker p w st) = stop p"
  "unnotified (set_worker p w st) = unnotified p" "submitted (set_worker p w st) = submitted p" "started (set_worker p w st) = started p"
  "finished (set_worker p w st) = finished p"
  by (simp_all add: set_worker_def)

lemma set_worker_counts:
  assumes "w < n"
  shows "cleared n (set_worker p w st) + (if workers p w = Cleared then 1 else 0) = cleared n p + (if st = Cleared then 1 else 0)"
    and "on_the_way n (set_worker p w st) + (if workers p w = Awake \<or> workers p w = Cleared then 1 else 0)
      = on_the_way n p + (if st = Awake \<or> st = Cleared then 1 else 0)"
    and "count_list (running n (set_worker p w st)) k + count_list (job_of (workers p w)) k
      = count_list (running n p) k + count_list (job_of st) k"
  using worker_count [OF assms, of "\<lambda>x. x = Cleared" "workers p" st] worker_count [OF assms, of "\<lambda>x. x = Awake \<or> x = Cleared" "workers p" st]
    worker_running [OF assms, of "workers p" st k]
  by (simp_all add: cleared_def on_the_way_def running_def set_worker_def)

lemma pool_counts_cong:
  "workers p' = workers p \<Longrightarrow> cleared n p' = cleared n p \<and> on_the_way n p' = on_the_way n p \<and> running n p' = running n p"
  by (simp add: cleared_def on_the_way_def running_def)

lemma pool_inv_step:
  assumes "pool_step n p (Some p')" "pool_inv n p"
  shows "pool_inv n p'"
  using assms(1)
proof (cases rule: pool_step.cases)
  case (enqueue j)
  then show ?thesis using assms(2) pool_counts_cong [of p' p n] by (simp add: pool_inv_def)
next
  case notify
  then show ?thesis using assms(2) pool_counts_cong [of p' p n] by (simp add: pool_inv_def LSemaphore_notify_def)
next
  case (sem_wait w c)
  let ?p = "p\<lparr>sem := c\<rparr>"
  have "sem p = Suc c" using sem_wait(4) by (simp add: LSemaphore_wait_def split: if_splits)
  then show ?thesis
    using assms(2) sem_wait set_worker_counts [of w n ?p Awake] pool_counts_cong [of ?p p n] by (simp add: pool_inv_def)
next
  case (test_stop w)
  then show ?thesis
    using assms(2) set_worker_counts [of w n p "if stop p then Returned else Cleared"] cleared_on_the_way [of n p']
    by (auto simp: pool_inv_def)
next
  case (pop w j js)
  let ?p = "p\<lparr>q := js, started := started p @ [j]\<rparr>"
  have "count_list (running n p') k = count_list (running n p) k + count_list [j] k" for k
    using pop set_worker_counts(3) [of w n ?p "Running j" k] pool_counts_cong [of ?p p n] by simp
  then show ?thesis
    using assms(2) pop set_worker_counts(1,2) [of w n ?p "Running j"] pool_counts_cong [of ?p p n] by (auto simp: pool_inv_def)
next
  case (run w j)
  let ?p = "p\<lparr>finished := finished p @ [j]\<rparr>"
  have jobs: "count_list (running n p) k = count_list (running n p') k + count_list [j] k" for k
    using run set_worker_counts(3) [of w n ?p Idle k] pool_counts_cong [of ?p p n] by simp
  have "count_list (started p') k = count_list (finished p') k + count_list (running n p') k" for k
  proof -
    have "count_list (started p) k = count_list (finished p) k + count_list (running n p) k" using assms(2) by (simp add: pool_inv_def)
    then show ?thesis unfolding jobs using run(1) by simp
  qed
  moreover have "cleared n p' = cleared n p" "on_the_way n p' = on_the_way n p" and same: "q p' = q p" "sem p' = sem p" "stop p' = stop p"
      "unnotified p' = unnotified p" "submitted p' = submitted p" "started p' = started p"
    using run set_worker_counts(1,2) [of w n ?p Idle] pool_counts_cong [of ?p p n] by simp_all
  ultimately show ?thesis using assms(2) unfolding pool_inv_def same by presburger
next
  case destruct
  then show ?thesis using assms(2) pool_counts_cong [of p' p n] by (simp add: pool_inv_def)
qed

lemma pool_inv_reachable: "pool_reachable n p \<Longrightarrow> pool_inv n p"
proof (induction rule: pool_reachable.induct)
  case new
  show ?case by (simp add: pool_inv_def LThreadPool_new_def cleared_def on_the_way_def running_def)
qed (rule pool_inv_step)

section \<open>Starting and stopping the pool of a node\<close>

text \<open>
  \<^verbatim>\<open>InitLocalThreadPool\<close>: the number of workers of a slave, \<open>None\<close> for no pool. \<open>cores\<close> is what the
  operating system reports.
\<close>

definition InitLocalThreadPool :: "bool \<Rightarrow> int \<Rightarrow> nat \<Rightarrow> nat option" where
  "InitLocalThreadPool isMaster thread_pool_count cores =
     (if isMaster then None
      else if 0 < thread_pool_count then Some (nat thread_pool_count)
      else if thread_pool_count < 0 then Some (cores * 2 + 1)
      else None)"

section \<open>The distributed thread pool\<close>

text \<open>
  \<^verbatim>\<open>DDefaultTheadPoolScheduler::schedule\<close>: the nodes but the master in turn. With a single node the division is
  by zero.
\<close>

definition schedule :: "nat \<Rightarrow> u64 \<Rightarrow> u64 \<times> nat cxx" where
  "schedule num_nodes cnt =
     (let cnt = cnt + 1 in (cnt, if num_nodes = 1 then Trap else Ret (unat cnt mod (num_nodes - 1) + 1)))"

lemma schedule_slave:
  assumes "2 \<le> num_nodes" "schedule num_nodes cnt = (cnt', Ret node)"
  shows "1 \<le> node \<and> node < num_nodes"
proof -
  have "node = unat (cnt + 1) mod (num_nodes - 1) + 1" using assms by (auto simp: schedule_def Let_def)
  moreover have "unat (cnt + 1) mod (num_nodes - 1) < num_nodes - 1" using assms(1) by simp
  ultimately show ?thesis by linarith
qed

text \<open>
  The events a pool hands out. A submitter in \<^verbatim>\<open>FindEvent\<close> creates an event, or waits for the semaphore and takes
  one from the queue; \<^verbatim>\<open>DThreadPoolEvent::Wait\<close> puts the event back and raises the semaphore. \<open>waiting\<close> counts the
  submitters behind the first critical section, \<open>granted\<close> those behind the semaphore, \<open>owed\<close> the
  notifications between \<^verbatim>\<open>push\<close> and \<^verbatim>\<open>notify\<close>.
\<close>

record 'e DThreadPool =
  events :: "'e list"
  event_queue :: "'e list"
  sem_lock :: nat
  waiting :: nat
  granted :: nat
  owed :: nat
  in_use :: "'e list"

inductive event_step :: "nat \<Rightarrow> 'e DThreadPool \<Rightarrow> 'e DThreadPool option \<Rightarrow> bool" for max_wait_events :: nat where
  create: "event_queue d = [] \<Longrightarrow> length (events d) < max_wait_events \<Longrightarrow> e \<notin> set (events d) \<Longrightarrow>
    event_step max_wait_events d (Some (d\<lparr>events := events d @ [e], in_use := e # in_use d\<rparr>))"
| queue_up: "event_queue d \<noteq> [] \<or> max_wait_events \<le> length (events d) \<Longrightarrow>
    event_step max_wait_events d (Some (d\<lparr>waiting := waiting d + 1\<rparr>))"
| granted: "0 < waiting d \<Longrightarrow> LSemaphore_wait (sem_lock d) = Some c \<Longrightarrow>
    event_step max_wait_events d (Some (d\<lparr>sem_lock := c, waiting := waiting d - 1, granted := granted d + 1\<rparr>))"
| take_event: "0 < granted d \<Longrightarrow> event_queue d = e # es \<Longrightarrow>
    event_step max_wait_events d (Some (d\<lparr>granted := granted d - 1, event_queue := es, in_use := e # in_use d\<rparr>))"
| take_empty: "0 < granted d \<Longrightarrow> event_queue d = [] \<Longrightarrow> event_step max_wait_events d None"
| give_back: "e \<in> set (in_use d) \<Longrightarrow>
    event_step max_wait_events d (Some (d\<lparr>in_use := remove1 e (in_use d), event_queue := event_queue d @ [e], owed := owed d + 1\<rparr>))"
| give_notify: "0 < owed d \<Longrightarrow>
    event_step max_wait_events d (Some (d\<lparr>owed := owed d - 1, sem_lock := LSemaphore_notify (sem_lock d)\<rparr>))"

definition DThreadPool_new :: "'e DThreadPool" where
  "DThreadPool_new = \<lparr>events = [], event_queue = [], sem_lock = 0, waiting = 0, granted = 0, owed = 0, in_use = []\<rparr>"

inductive events_reachable :: "nat \<Rightarrow> 'e DThreadPool \<Rightarrow> bool" for max_wait_events :: nat where
  new: "events_reachable max_wait_events DThreadPool_new"
| step: "events_reachable max_wait_events d \<Longrightarrow> event_step max_wait_events d (Some d') \<Longrightarrow> events_reachable max_wait_events d'"

definition events_inv :: "nat \<Rightarrow> 'e DThreadPool \<Rightarrow> bool" where
  "events_inv m d \<longleftrightarrow> distinct (event_queue d @ in_use d) \<and> set (event_queue d @ in_use d) = set (events d) \<and>
     distinct (events d) \<and> length (events d) \<le> m \<and> owed d + sem_lock d + granted d = length (event_queue d)"

lemma events_inv_step:
  assumes "event_step m d (Some d')" "events_inv m d"
  shows "events_inv m d'"
  using assms(1)
proof (cases rule: event_step.cases)
  case (granted c)
  then show ?thesis using assms(2) by (auto simp: events_inv_def LSemaphore_wait_def split: if_splits)
next
  case (give_back e)
  then show ?thesis using assms(2) by (auto simp: events_inv_def)
qed (use assms(2) in \<open>auto simp: events_inv_def LSemaphore_notify_def\<close>)

lemma events_inv_reachable: "events_reachable m d \<Longrightarrow> events_inv m d"
proof (induction rule: events_reachable.induct)
  case new
  show ?case by (simp add: events_inv_def DThreadPool_new_def)
qed (rule events_inv_step)

text \<open>
  An event is never handed to two submitters at a time, there are at most \<^verbatim>\<open>max_wait_events\<close> of them, and
  \<^verbatim>\<open>FindEvent\<close> never takes an event from an empty queue.
\<close>

theorem events_exclusive:
  assumes "events_reachable m d"
  shows "distinct (in_use d) \<and> length (in_use d) + length (event_queue d) \<le> m \<and> \<not> event_step m d None"
proof -
  have inv: "events_inv m d" by (rule events_inv_reachable [OF assms])
  then have d: "distinct (event_queue d @ in_use d)" "set (event_queue d @ in_use d) = set (events d)" "distinct (events d)"
    by (simp_all add: events_inv_def)
  have "length (event_queue d @ in_use d) = length (events d)"
    using d by (metis distinct_card)
  moreover have "\<not> event_step m d None" using inv by (auto simp: events_inv_def elim: event_step.cases)
  ultimately show ?thesis using inv d by (simp add: events_inv_def)
qed

section \<open>Properties\<close>

text \<open>
  C17. In every state of a local thread pool, its destruction included, the jobs have been started in the order in
  which they were submitted, each once, and those not started are still queued; a job that was started is running or
  has finished; and no worker ever takes a job from an empty queue.
\<close>

theorem pool_starts_in_order:
  assumes "pool_reachable n p"
  shows "started p @ q p = submitted p \<and> (\<forall>j. count_list (started p) j = count_list (finished p) j + count_list (running n p) j) \<and>
    \<not> pool_step n p None"
proof -
  have inv: "pool_inv n p" by (rule pool_inv_reachable [OF assms])
  have "\<not> pool_step n p None"
  proof
    assume "pool_step n p None"
    then obtain w where w: "w < n" "workers p w = Cleared" "q p = []" by (auto elim: pool_stuckE)
    then have "w \<in> set (filter (\<lambda>w. workers p w = Cleared) [0..<n])" by simp
    then have "0 < cleared n p" unfolding cleared_def by (rule length_pos_if_in_set)
    then show False using inv w(3) by (simp add: pool_inv_def)
  qed
  then show ?thesis using inv by (simp add: pool_inv_def)
qed

definition demo_pool :: "nat LThreadPool" where
  "demo_pool = \<lparr>q = [8], sem = 0, workers = (\<lambda>_. Idle), stop = False, unnotified = 1, submitted = [7, 8], started = [7], finished = [7]\<rparr>"

lemma demo_pool_reachable: "pool_reachable 2 demo_pool"
proof -
  let ?r = "pool_reachable 2 :: nat LThreadPool \<Rightarrow> bool"
  let ?p1 = "LThreadPool_new\<lparr>q := [7 :: nat], unnotified := 1, submitted := [7]\<rparr>"
  let ?p2 = "?p1\<lparr>unnotified := 0, sem := 1\<rparr>"
  let ?p3 = "set_worker (?p2\<lparr>sem := 0\<rparr>) 0 Awake"
  let ?p4 = "set_worker ?p3 0 Cleared"
  let ?p5 = "set_worker (?p4\<lparr>q := [], started := [7]\<rparr>) 0 (Running 7)"
  let ?p6 = "set_worker (?p5\<lparr>finished := [7]\<rparr>) 0 Idle"
  have "?r ?p1" by (rule pool_reachable.step [OF pool_reachable.new]) (use enqueue [of "LThreadPool_new" 2 "7 :: nat"] in \<open>simp add: LThreadPool_new_def\<close>)
  then have "?r ?p2" by (rule pool_reachable.step) (use notify [of ?p1 2] in \<open>simp add: LThreadPool_new_def LSemaphore_notify_def\<close>)
  then have "?r ?p3" by (rule pool_reachable.step) (use sem_wait [of 0 2 ?p2 0] in \<open>simp add: LThreadPool_new_def LSemaphore_wait_def\<close>)
  then have "?r ?p4" by (rule pool_reachable.step) (use test_stop [of 0 2 ?p3] in \<open>simp add: LThreadPool_new_def set_worker_def\<close>)
  then have "?r ?p5" by (rule pool_reachable.step) (use pop [of 0 2 ?p4 7 "[]"] in \<open>simp add: LThreadPool_new_def set_worker_def\<close>)
  then have "?r ?p6" by (rule pool_reachable.step) (use run [of 0 2 ?p5 7] in \<open>simp add: LThreadPool_new_def set_worker_def\<close>)
  then have "?r (?p6\<lparr>q := [8], unnotified := 1, submitted := [7, 8]\<rparr>)"
    by (rule pool_reachable.step) (use enqueue [of ?p6 2 8] in \<open>simp add: LThreadPool_new_def set_worker_def\<close>)
  moreover have "?p6\<lparr>q := [8], unnotified := 1, submitted := [7, 8]\<rparr> = demo_pool"
    by (simp add: LThreadPool_new_def set_worker_def demo_pool_def fun_upd_idem)
  ultimately show ?thesis by simp
qed

theorem pool_starts_in_order_witness:
  "started demo_pool @ q demo_pool = [7, 8] \<and> \<not> pool_step 2 demo_pool None"
  using pool_starts_in_order [OF demo_pool_reachable] by (simp add: demo_pool_def)

end
