(* ===== verification/Dogee_Functional.thy ===== *)
theory Dogee_Functional
  imports Dogee_ObjectFacts Dogee_ThreadPool
begin

text \<open>
  The parallel map over shared arrays of \<^verbatim>\<open>include/DogeeFunctional.h\<close>: \<^verbatim>\<open>DData::Map\<close> cuts the array into jobs, submits
  them to the distributed thread pool and waits for their events. The jobs run on different nodes in no fixed order,
  so the result is stated for every order.
\<close>

section \<open>Jobs\<close>

text \<open>
  The length of a job: the array divided by the number of slaves, at most 1024 words. \<^verbatim>\<open>num_nodes - 1\<close> is
  converted to \<^verbatim>\<open>unsigned\<close>; with a single node the division is by zero.
\<close>

definition map_avg :: "('s, 't) DSMInterface \<Rightarrow> u32 \<Rightarrow> u32 \<Rightarrow> u32 cxx" where
  "map_avg I num_nodes len =
     (if num_nodes = 1 then Trap
      else let avg = len div (num_nodes - 1) in
        Ret (if 32 * of_nat DSM_CACHE_BLOCK_SIZE \<le> avg * dsm_size_of I then 32 * of_nat DSM_CACHE_BLOCK_SIZE div dsm_size_of I else avg))"

partial_function (option) map_jobs :: "u32 \<Rightarrow> u32 \<Rightarrow> u32 \<Rightarrow> (u32 \<times> u32) list \<Rightarrow> (u32 \<times> u32) list option" where
  "map_jobs len avg i jobs =
     (if i < len then map_jobs len avg (i + avg) (jobs @ [(i, if i + avg < len then avg else len - i)]) else Some jobs)"

declare map_jobs.simps [code]

text \<open>
  The closure of a job, on the arrays \<^verbatim>\<open>the_arr\<close> and \<^verbatim>\<open>out_arr\<close> of 4-byte elements; \<open>buf\<close> and \<open>outbuf\<close> are its local arrays
  before they are written.
\<close>

definition map_job :: "'s DSMCache \<Rightarrow> ObjectKey \<Rightarrow> ObjectKey \<Rightarrow> (u32 \<Rightarrow> u32) \<Rightarrow> u32 list \<Rightarrow> u32 list \<Rightarrow> u32 \<times> u32 \<Rightarrow> 's \<Rightarrow> 's" where
  "map_job C the_arr out_arr Fnarg buf outbuf = (\<lambda>(start, step) s.
     case CopyTo DSMInterface32 C s the_arr (take (unat step) buf) start step of (s, buf) \<Rightarrow>
       CopyFrom DSMInterface32 C s out_arr (overwrite outbuf 0 (map Fnarg (take (unat step) buf))) start step)"

definition map_run :: "'s DSMCache \<Rightarrow> ObjectKey \<Rightarrow> ObjectKey \<Rightarrow> (u32 \<Rightarrow> u32) \<Rightarrow> u32 list \<Rightarrow> u32 list \<Rightarrow> (u32 \<times> u32) list \<Rightarrow> 's \<Rightarrow> 's" where
  "map_run C the_arr out_arr Fnarg buf outbuf jobs s = fold (map_job C the_arr out_arr Fnarg buf outbuf) jobs s"

section \<open>The jobs cover the array\<close>

definition job_fields :: "u32 \<times> u32 \<Rightarrow> nat set" where
  "job_fields = (\<lambda>(start, step). {unat start..<unat start + unat step})"

definition job_ok :: "u32 \<Rightarrow> u32 \<times> u32 \<Rightarrow> bool" where
  "job_ok len = (\<lambda>(start, step). 0 < unat step \<and> unat step \<le> 1024 \<and> unat start + unat step \<le> unat len)"

lemma map_jobs_spec:
  assumes "0 < unat avg" "unat avg \<le> 1024" "unat len \<le> 2 ^ 32 - 2048"
  shows "\<exists>js. map_jobs len avg i jobs = Some (jobs @ js) \<and> (\<forall>j \<in> set js. job_ok len j) \<and>
    (\<Union> (job_fields ` set js)) = {unat i..<unat len}"
proof (induction "unat len - unat i" arbitrary: i jobs rule: less_induct)
  case less
  show ?case
  proof (cases "i < len")
    case True
    then have lt: "unat i < unat len" by (simp add: word_less_nat_alt)
    have nxt: "unat (i + avg) = unat i + unat avg"
      using lt assms unat_add_of_nat [of i "unat avg"] by simp
    let ?step = "if i + avg < len then avg else len - i"
    have st: "unat ?step = min (unat avg) (unat len - unat i)"
      using nxt lt by (auto simp: word_less_nat_alt unat_sub_le min_def)
    have "unat len - unat (i + avg) < unat len - unat i" using nxt lt assms(1) by simp
    from less.hyps [OF this, of "jobs @ [(i, ?step)]"] obtain js where js:
        "map_jobs len avg (i + avg) (jobs @ [(i, ?step)]) = Some ((jobs @ [(i, ?step)]) @ js)" "\<forall>j \<in> set js. job_ok len j"
        "\<Union> (job_fields ` set js) = {unat (i + avg)..<unat len}"
      by blast
    have "map_jobs len avg i jobs = Some (jobs @ (i, ?step) # js)"
      using js(1) True by (subst map_jobs.simps) simp
    moreover have "job_ok len (i, ?step)" unfolding job_ok_def prod.case st using lt assms by auto
    moreover have "job_fields (i, ?step) \<union> {unat (i + avg)..<unat len} = {unat i..<unat len}"
      unfolding job_fields_def prod.case st nxt using lt by auto
    ultimately show ?thesis using js(2,3) by (intro exI [of _ "(i, ?step) # js"]) simp
  next
    case False
    then have "{unat i..<unat len} = {}" by (simp add: word_less_nat_alt)
    then show ?thesis using False by (subst map_jobs.simps) simp
  qed
qed

text \<open>A job length of 0 never reaches the end of the array.\<close>

lemma map_jobs_stuck:
  assumes "i < len"
  shows "map_jobs len 0 i jobs = None"
proof (rule ccontr)
  assume "map_jobs len 0 i jobs \<noteq> None"
  then obtain js where "map_jobs len 0 i jobs = Some js" by blast
  then have "0 = (0 :: u32) \<and> i < len \<longrightarrow> False"
    by (rule map_jobs.raw_induct [where P = "\<lambda>len avg i jobs js. avg = 0 \<and> i < len \<longrightarrow> False", rotated]) (auto split: if_splits)
  then show False using assms by simp
qed

context dsm_cache
begin

lemma map_job_mem:
  assumes "ok s" "job_ok len j" "unat len \<le> 2 ^ 32 - 2048" "the_arr \<noteq> out_arr" "length buf = 1024" "length outbuf = 1024"
  shows "\<exists>s'. map_job C the_arr out_arr F buf outbuf j s = s' \<and> ok s' \<and>
    mem s' = (\<lambda>k f. if k = out_arr \<and> unat f \<in> job_fields j then F (mem s the_arr f) else mem s k f)"
proof -
  obtain start step where j: "j = (start, step)" by (cases j)
  have b: "0 < unat step" "unat step \<le> 1024" "unat start + unat step \<le> unat len" using assms(2) by (simp_all add: job_ok_def j)
  have range: "dsm_range start (unat step)" using b(3) assms(3) by (simp add: dsm_range_def)
  obtain s1 where s1: "dc_getchunk32 C s the_arr start step (take (unat step) buf) = (s1, Some SoOK, dsm_read (mem s) the_arr start (unat step))"
      "ok s1" "mem s1 = mem s"
    using cache_getchunk32 [OF assms(1) range, of "take (unat step) buf" the_arr] b assms(5) by auto
  let ?vs = "map F (dsm_read (mem s) the_arr start (unat step))"
  let ?ob = "overwrite outbuf 0 ?vs"
  have ob: "length ?ob = 1024" "take (unat step) ?ob = ?vs" using b(2) assms(6) by (simp_all add: overwrite_def)
  have room: "unat step \<le> length ?ob" using ob(1) b(2) by linarith
  obtain s2 where s2: "fst (dc_putchunk32 C s1 out_arr start step ?ob) = s2" "ok s2" "mem s2 = dsm_write (mem s1) out_arr start ?vs"
    using cache_putchunk32 [OF s1(2) range room, of out_arr] ob(2) by auto
  have "mem s2 k f = (if k = out_arr \<and> unat f \<in> job_fields j then F (mem s the_arr f) else mem s k f)" for k f
  proof -
    have "start + of_nat (unat f - unat start) = f" if "unat start \<le> unat f"
      using that by (simp add: of_nat_diff)
    then show ?thesis using s2(3) s1(3) by (auto simp: dsm_write_def dsm_read_def job_fields_def j)
  qed
  moreover have "map_job C the_arr out_arr F buf outbuf j s = s2"
    using s1(1) s2(1) by (simp add: map_job_def j CopyTo_def CopyFrom_def DSMInterface32_def)
  ultimately show ?thesis using s2(2) by auto
qed

lemma map_run_mem:
  assumes "ok s" "\<forall>j \<in> set jobs. job_ok len j" "unat len \<le> 2 ^ 32 - 2048" "the_arr \<noteq> out_arr" "length buf = 1024" "length outbuf = 1024"
  shows "\<exists>s'. map_run C the_arr out_arr F buf outbuf jobs s = s' \<and> ok s' \<and>
    mem s' = (\<lambda>k f. if k = out_arr \<and> unat f \<in> \<Union> (job_fields ` set jobs) then F (mem s the_arr f) else mem s k f)"
  using assms(1,2)
proof (induction jobs arbitrary: s)
  case (Cons j jobs)
  obtain s1 where s1: "map_job C the_arr out_arr F buf outbuf j s = s1" "ok s1"
      "mem s1 = (\<lambda>k f. if k = out_arr \<and> unat f \<in> job_fields j then F (mem s the_arr f) else mem s k f)"
    using map_job_mem [OF Cons.prems(1) _ assms(3-6), of j F] Cons.prems(2) by auto
  obtain s2 where "map_run C the_arr out_arr F buf outbuf jobs s1 = s2" "ok s2"
      "mem s2 = (\<lambda>k f. if k = out_arr \<and> unat f \<in> \<Union> (job_fields ` set jobs) then F (mem s1 the_arr f) else mem s1 k f)"
    using Cons.IH [OF s1(2)] Cons.prems(2) by auto
  then show ?case using s1 assms(4) by (auto simp: map_run_def fun_eq_iff)
qed (simp add: map_run_def)

end

section \<open>Properties\<close>



text \<open>With more slaves than elements the job length is 0 and the cutting loop does not end.\<close>

theorem parallel_map_stuck:
  assumes "1 < num_nodes" "unat len < unat num_nodes - 1" "0 < len"
  shows "map_avg DSMInterface32 num_nodes len = Ret 0 \<and> map_jobs len 0 0 [] = None"
proof -
  have "unat (num_nodes - 1) = unat num_nodes - 1" using assms(1) unat_sub_le [of 1 num_nodes] by (simp add: word_less_nat_alt)
  then have "unat (len div (num_nodes - 1)) = 0" using assms(2) by (simp add: unat_div)
  then have "len div (num_nodes - 1) = 0" by (simp only: unat_eq_zero)
  moreover have "num_nodes \<noteq> 1" using assms(1) by auto
  ultimately show ?thesis using map_jobs_stuck [OF assms(3)] by (simp add: map_avg_def DSMInterface32_def)
qed

end
