(* ===== verification/Dogee_Text.thy ===== *)
theory Dogee_Text
  imports Dogee_CheckpointFacts
begin

text \<open>
  The text input the start-up code and the file tools use: extraction of words and integers from
  an \<^verbatim>\<open>std::istream\<close>, \<^verbatim>\<open>std::getline\<close> as \<^verbatim>\<open>str_split\<close> of \<^verbatim>\<open>Dogee/DogeeShared.cpp\<close> uses it,
  \<^verbatim>\<open>atoi\<close>, \<^verbatim>\<open>str_starts_with\<close> and \<^verbatim>\<open>FindIndex\<close>, with the lemmas that reading undoes printing.
\<close>

section \<open>Input streams\<close>

text \<open>
  A stream is what is left to read and its \<^verbatim>\<open>failbit\<close>; a file that cannot be opened starts
  with the bit set. Once it is set an extraction leaves its target as it is, which the results
  below say by \<open>None\<close>.
\<close>

record istream =
  unread :: "u8 list"
  failbit :: bool

definition open_istream :: "u8 list option \<Rightarrow> istream" where
  "open_istream content = (case content of None \<Rightarrow> \<lparr>unread = [], failbit = True\<rparr>
     | Some bs \<Rightarrow> \<lparr>unread = bs, failbit = False\<rparr>)"

text \<open>The sentry of a formatted extraction: skip white space, fail at the end.\<close>

definition sentry :: "istream \<Rightarrow> istream" where
  "sentry f = (let cs = dropWhile isspace (unread f)
     in if failbit f then f else f\<lparr>unread := cs, failbit := (cs = [])\<rparr>)"

definition extract_string :: "istream \<Rightarrow> u8 list option \<times> istream" where
  "extract_string f = (let g = sentry f
     in if failbit g then (None, g)
        else (Some (takeWhile (\<lambda>c. \<not> isspace c) (unread g)),
              g\<lparr>unread := dropWhile (\<lambda>c. \<not> isspace c) (unread g)\<rparr>))"

text \<open>
  \<^verbatim>\<open>file >> n\<close> for a signed type with the given bounds: an optional sign and the digits; without
  a digit the target becomes 0, out of range it becomes the bound, and both set \<^verbatim>\<open>failbit\<close>.
\<close>

definition split_sign :: "u8 list \<Rightarrow> bool \<times> u8 list" where
  "split_sign cs = (case cs of [] \<Rightarrow> (False, [])
     | c # r \<Rightarrow> if c = 45 then (True, r) else if c = 43 then (False, r) else (False, cs))"

definition extract_int :: "int \<Rightarrow> int \<Rightarrow> istream \<Rightarrow> int option \<times> istream" where
  "extract_int lo hi f = (let g = sentry f
     in if failbit g then (None, g)
        else let (neg, ds) = split_sign (unread g);
                 num = int (digits_value 0 ds);
                 v = (if neg then - num else num);
                 g' = g\<lparr>unread := dropWhile isdigit ds\<rparr>
             in if takeWhile isdigit ds = [] then (Some 0, g'\<lparr>failbit := True\<rparr>)
                else if v < lo then (Some lo, g'\<lparr>failbit := True\<rparr>)
                else if hi < v then (Some hi, g'\<lparr>failbit := True\<rparr>)
                else (Some v, g'))"

definition INT_MIN :: int where "INT_MIN = - (2 ^ 31)"

definition INT_MAX :: int where "INT_MAX = 2 ^ 31 - 1"

definition LONG_MIN :: int where "LONG_MIN = - (2 ^ 63)"

definition LONG_MAX :: int where "LONG_MAX = 2 ^ 63 - 1"

text \<open>\<^verbatim>\<open>atoi\<close> is \<^verbatim>\<open>strtol\<close>, which stays within \<^verbatim>\<open>long\<close>, narrowed to \<^verbatim>\<open>int\<close>.\<close>

definition atoi :: "u8 list \<Rightarrow> int" where
  "atoi s = sint (of_int (max LONG_MIN (min LONG_MAX (atoll s))) :: u32)"

section \<open>Strings\<close>

text \<open>
  \<^verbatim>\<open>str_split\<close>: \<^verbatim>\<open>getline\<close> takes everything up to the delimiter, which it drops; at the end of
  the string it fails, so that an empty last piece is not reported.
\<close>

function str_split :: "u8 list \<Rightarrow> u8 \<Rightarrow> u8 list list" where
  "str_split [] delim = []"
| "str_split (c # cs) delim =
     takeWhile (\<lambda>x. x \<noteq> delim) (c # cs) # str_split (drop 1 (dropWhile (\<lambda>x. x \<noteq> delim) (c # cs))) delim"
  by pat_completeness auto

termination
  by (relation "measure (\<lambda>(s, _). length s)") (auto simp: less_Suc_eq_le intro: le_trans [OF diff_le_self] length_dropWhile_le)

text \<open>\<^verbatim>\<open>!strncmp (str, substr, length (substr))\<close>, for strings without a zero byte.\<close>

definition str_starts_with :: "u8 list \<Rightarrow> u8 list \<Rightarrow> bool" where
  "str_starts_with str substr \<longleftrightarrow> take (length substr) str = substr"

fun find_from :: "u8 list list \<Rightarrow> u8 list \<Rightarrow> int \<Rightarrow> int" where
  "find_from [] f i = -1"
| "find_from (x # xs) f i = (if f = x then i + 1 else find_from xs f (i + 1))"

definition FindIndex :: "u8 list list \<Rightarrow> u8 list \<Rightarrow> int" where
  "FindIndex arr f = find_from arr f (-1)"

text \<open>ASCII literals of the source.\<close>

definition ascii :: "string \<Rightarrow> u8 list" where
  "ascii s = map (\<lambda>c. of_nat (of_char c)) s"

section \<open>Reading what was written\<close>

lemma dropWhile_word_shorter:
  assumes "dropWhile P bs \<noteq> []"
  shows "length (dropWhile (\<lambda>c. \<not> P c) (dropWhile P bs)) < length bs"
proof -
  obtain c cs where d: "dropWhile P bs = c # cs" "\<not> P c"
    using assms hd_dropWhile [OF assms] by (cases "dropWhile P bs") simp_all
  have "length (dropWhile (\<lambda>c. \<not> P c) (c # cs)) \<le> length cs" using d(2) by (simp add: length_dropWhile_le)
  also have "length cs < length (dropWhile P bs)" using d(1) by simp
  also have "\<dots> \<le> length bs" by (rule length_dropWhile_le)
  finally show ?thesis using d(1) by simp
qed

text \<open>The words of a text, as repeated extraction sees them.\<close>

function words :: "u8 list \<Rightarrow> u8 list list" where
  "words bs = (let cs = dropWhile isspace bs
     in if cs = [] then [] else takeWhile (\<lambda>c. \<not> isspace c) cs # words (dropWhile (\<lambda>c. \<not> isspace c) cs))"
  by pat_completeness auto

termination
  by (relation "measure length") (auto intro: dropWhile_word_shorter)

declare words.simps [simp del]

text \<open>A stream between two words: what is left starts with white space or is empty.\<close>

definition between :: "istream \<Rightarrow> u8 list list \<Rightarrow> bool" where
  "between f ws \<longleftrightarrow> \<not> failbit f \<and> words (unread f) = ws"

lemma words_ConsD:
  assumes "words bs = w # ws"
  shows "dropWhile isspace bs \<noteq> []" "w = takeWhile (\<lambda>c. \<not> isspace c) (dropWhile isspace bs)"
    "ws = words (dropWhile (\<lambda>c. \<not> isspace c) (dropWhile isspace bs))"
  using assms by (simp_all add: words.simps [of bs] Let_def split: if_splits)

lemma extract_string_word:
  assumes "between f (w # ws)"
  obtains g where "extract_string f = (Some w, g)" "between g ws"
  using words_ConsD [of "unread f" w ws] assms
  by (auto simp: extract_string_def sentry_def between_def Let_def)

lemma extract_string_end:
  assumes "between f []"
  obtains g where "extract_string f = (None, g)" "failbit g"
  using assms by (auto simp: extract_string_def sentry_def between_def Let_def words.simps [of "unread f"] split: if_splits)

lemma print_int_nonspace: "list_all (\<lambda>c. \<not> isspace c) (print_int v)"
proof -
  have "list_all (\<lambda>c. \<not> isspace c) (sprintf_lu n)" for n
    using sprintf_lu_digits [of n] by (auto simp: list_all_iff isdigit_def isspace_def)
  then show ?thesis by (simp add: print_int_def isspace_def)
qed

lemma sprintf_lu_not_Nil [simp]: "sprintf_lu n \<noteq> []"
  by (subst sprintf_lu.simps) simp

lemma split_sign_print:
  "split_sign (print_int v @ r) = (v < 0, sprintf_lu (nat \<bar>v\<bar>) @ r)"
proof -
  obtain c cs where c: "sprintf_lu (nat v) = c # cs" by (cases "sprintf_lu (nat v)") simp_all
  have "isdigit c" using sprintf_lu_digits [of "nat v"] c by simp
  then have "c \<noteq> 45" "c \<noteq> 43" by (auto simp: isdigit_def)
  then show ?thesis using c by (simp add: split_sign_def print_int_def)
qed

lemma digits_value_append_nondigit:
  "list_all isdigit ds \<Longrightarrow> r = [] \<or> \<not> isdigit (hd r) \<Longrightarrow> digits_value a (ds @ r) = digits_value a ds"
  by (induction ds arbitrary: a) (auto simp: neq_Nil_conv, cases r, auto)

lemma takeWhile_digits:
  "list_all isdigit ds \<Longrightarrow> r = [] \<or> \<not> isdigit (hd r) \<Longrightarrow>
   takeWhile isdigit (ds @ r) = ds \<and> dropWhile isdigit (ds @ r) = r"
  by (induction ds) (auto, (cases r; simp)+)

lemma extract_int_print:
  assumes "unread f = sp @ print_int v @ r" "list_all isspace sp" "r = [] \<or> \<not> isdigit (hd r)"
    "\<not> failbit f" "lo \<le> v" "v \<le> hi"
  shows "extract_int lo hi f = (Some v, f\<lparr>unread := r, failbit := False\<rparr>)"
proof -
  have ne: "print_int v \<noteq> []" by (simp add: print_int_def)
  then have "\<not> isspace (hd (print_int v @ r))" using print_int_nonspace [of v] by (cases "print_int v") simp_all
  then have d: "dropWhile isspace (unread f) = print_int v @ r"
    using assms(1,2) ne by (cases "print_int v @ r") (auto simp: dropWhile_append list_all_iff)
  define n where "n = nat \<bar>v\<bar>"
  have sg: "split_sign (print_int v @ r) = (v < 0, sprintf_lu n @ r)" by (simp add: n_def split_sign_print)
  have val: "v < 0 \<Longrightarrow> int n = - v" "\<not> v < 0 \<Longrightarrow> int n = v" by (simp_all add: n_def)
  have dv: "digits_value 0 (sprintf_lu n @ r) = n"
    using digits_value_append_nondigit [OF sprintf_lu_digits assms(3)] by (simp add: digits_value_sprintf)
  show ?thesis
    using assms(4-6) ne d takeWhile_digits [OF sprintf_lu_digits assms(3), of n]
    by (cases "v < 0") (simp_all add: extract_int_def sentry_def Let_def sg dv val)
qed

lemma isdigit_nonspace: "isdigit c \<Longrightarrow> \<not> isspace c"
  by (auto simp: isdigit_def isspace_def)

lemma hd_dropWhile_nondigit: "r = dropWhile (\<lambda>c. \<not> isspace c) bs \<Longrightarrow> r = [] \<or> \<not> isdigit (hd r)"
  using hd_dropWhile [of "\<lambda>c. \<not> isspace c" bs] isdigit_nonspace by blast

lemma extract_int_word:
  assumes "between f (print_int v # ws)" "lo \<le> v" "v \<le> hi"
  obtains g where "extract_int lo hi f = (Some v, g)" "between g ws"
proof -
  let ?bs = "unread f" and ?r = "dropWhile (\<lambda>c. \<not> isspace c) (dropWhile isspace (unread f))"
  have w: "words ?bs = print_int v # ws" and ok: "\<not> failbit f" using assms(1) by (simp_all add: between_def)
  have "?bs = takeWhile isspace ?bs @ print_int v @ ?r"
    using words_ConsD(2) [OF w] by (metis takeWhile_dropWhile_id)
  from extract_int_print [OF this _ hd_dropWhile_nondigit ok assms(2,3)]
  have "extract_int lo hi f = (Some v, f\<lparr>unread := ?r, failbit := False\<rparr>)"
    by (auto simp: list_all_iff dest: set_takeWhileD)
  moreover have "between (f\<lparr>unread := ?r, failbit := False\<rparr>) ws"
    unfolding between_def words_ConsD(3) [OF w] by simp
  ultimately show thesis by (rule that)
qed

lemma atoi_print_int:
  assumes "INT_MIN \<le> v" "v \<le> INT_MAX"
  shows "atoi (print_int v) = v"
proof -
  have "max LONG_MIN (min LONG_MAX v) = v"
    using assms by (simp add: INT_MIN_def INT_MAX_def LONG_MIN_def LONG_MAX_def)
  moreover have "signed_take_bit 31 v = v"
    using assms by (intro signed_take_bit_int_eq_self) (simp_all add: INT_MIN_def INT_MAX_def)
  ultimately show ?thesis by (simp add: atoi_def atoll_print_int sint_sbintrunc')
qed

lemma dropWhile_all: "x \<notin> set xs \<Longrightarrow> dropWhile (\<lambda>y. y \<noteq> x) xs = []"
  by (induction xs) auto

lemma str_split_append:
  assumes "delim \<notin> set x"
  shows "str_split (x @ delim # y) delim = x # str_split y delim"
  using assms(1) by (cases x) (auto simp: takeWhile_append dropWhile_append)

lemma str_split_single: "delim \<notin> set x \<Longrightarrow> x \<noteq> [] \<Longrightarrow> str_split x delim = [x]"
  by (cases x) (auto simp: takeWhile_eq_all_conv dropWhile_all)

lemma find_from_nth:
  "distinct arr \<Longrightarrow> i < length arr \<Longrightarrow> find_from arr (arr ! i) k = k + 1 + int i"
  by (induction arr arbitrary: i k) (auto simp: nth_Cons split: nat.splits)

lemma FindIndex_nth: "distinct arr \<Longrightarrow> i < length arr \<Longrightarrow> FindIndex arr (arr ! i) = int i"
  by (simp add: FindIndex_def find_from_nth)

end
