(* ===== verification/Dogee_Config.thy ===== *)
theory Dogee_Config
  imports Dogee_Text Dogee_Handshake
begin

text \<open>
  How a cluster is put together and put together again: \<^verbatim>\<open>HelperInitCluster\<close> of
  \<^verbatim>\<open>Dogee/DogeeShared.cpp\<close> (command line, \<^verbatim>\<open>DogeeConfig.txt\<close>, start of the master), the parameter
  table, \<^verbatim>\<open>RestartCurrentProcess\<close>, and from \<^verbatim>\<open>Dogee/DogeeRemote.cpp\<close> the liveness round of
  \<^verbatim>\<open>RcMasterAliveListen\<close> and \<^verbatim>\<open>RestartCluster\<close>.
\<close>

section \<open>Parameters\<close>

text \<open>\<open>argv\<close> holds the program name and the arguments; \<^verbatim>\<open>param\<close> pairs them up from the first on.\<close>

fun set_params :: "(u8 list \<rightharpoonup> u8 list) \<Rightarrow> u8 list list \<Rightarrow> (u8 list \<rightharpoonup> u8 list)" where
  "set_params m (a # b # args) = set_params (m(a \<mapsto> b)) args"
| "set_params m args = m"

definition read_params :: "u8 list list \<Rightarrow> (u8 list \<rightharpoonup> u8 list)" where
  "read_params argv = set_params Map.empty (tl argv)"

text \<open>\<^verbatim>\<open>param [str]\<close> inserts an empty string when the key is missing.\<close>

definition HelperGetParam :: "(u8 list \<rightharpoonup> u8 list) \<Rightarrow> u8 list \<Rightarrow> u8 list \<times> (u8 list \<rightharpoonup> u8 list)" where
  "HelperGetParam m str = (case m str of Some v \<Rightarrow> (v, m) | None \<Rightarrow> ([], m(str \<mapsto> [])))"

definition HelperGetParamInt :: "(u8 list \<rightharpoonup> u8 list) \<Rightarrow> u8 list \<Rightarrow> int \<times> (u8 list \<rightharpoonup> u8 list)" where
  "HelperGetParamInt m str = (let (v, m') = HelperGetParam m str in (atoi v, m'))"

text \<open>The \<^verbatim>\<open>----exclude\<close> option: \<^verbatim>\<open>ip:port;ip:port\<close>; a piece without a colon is read past its end.\<close>

fun read_excludes :: "u8 list list \<Rightarrow> (u8 list \<times> int) list cxx" where
  "read_excludes [] = Ret []"
| "read_excludes (str # strs) =
     (case str_split str 58 of
        ip # port # _ \<Rightarrow> cxx_bind (read_excludes strs) (\<lambda>ex. Ret ((ip, atoi port) # ex))
      | _ \<Rightarrow> Indeterminate)"

definition param_excludes :: "(u8 list \<rightharpoonup> u8 list) \<Rightarrow> (u8 list \<times> int) list cxx" where
  "param_excludes m = (case m (ascii ''----exclude'') of
       None \<Rightarrow> Ret []
     | Some v \<Rightarrow> read_excludes (str_split v 59))"

section \<open>DogeeConfig.txt\<close>

text \<open>
  The value of a boot step is \<open>Inl\<close> with the message of \<^verbatim>\<open>MyAbort\<close>, which prints it and exits, or
  \<open>Inr\<close>. The locals \<^verbatim>\<open>str\<close> and the integers keep their value when an extraction fails; an integer
  that was never set is \<open>None\<close>.
\<close>

type_synonym 'a boot = "(u8 list + 'a) cxx"

definition boot_bind :: "'a boot \<Rightarrow> ('a \<Rightarrow> 'b boot) \<Rightarrow> 'b boot" where
  "boot_bind m f = cxx_bind m (\<lambda>r. case r of Inl e \<Rightarrow> Ret (Inl e) | Inr a \<Rightarrow> f a)"

definition MyAssert :: "bool \<Rightarrow> u8 list \<Rightarrow> unit boot" where
  "MyAssert a msg = (if a then Ret (Inr ()) else Ret (Inl msg))"

definition read_string :: "istream \<Rightarrow> u8 list \<Rightarrow> u8 list \<times> istream" where
  "read_string f str = (case extract_string f of (None, g) \<Rightarrow> (str, g) | (Some s, g) \<Rightarrow> (s, g))"

definition read_int :: "istream \<Rightarrow> int option \<Rightarrow> int option \<times> istream" where
  "read_int f n = (case extract_int INT_MIN INT_MAX f of (None, g) \<Rightarrow> (n, g) | (Some v, g) \<Rightarrow> (Some v, g))"

text \<open>\<^verbatim>\<open>file >> str; MyAssert (str_starts_with (str, key), msg)\<close>.\<close>

definition expect_key :: "u8 list \<Rightarrow> u8 list \<Rightarrow> istream \<Rightarrow> u8 list \<Rightarrow> (u8 list \<times> istream) boot" where
  "expect_key key msg f str =
     (let (str', g) = read_string f str
      in boot_bind (MyAssert (str_starts_with str' key) msg) (\<lambda>_. Ret (Inr (str', g))))"

definition use_int :: "int option \<Rightarrow> int boot" where
  "use_int n = (case n of None \<Rightarrow> Indeterminate | Some v \<Rightarrow> Ret (Inr v))"

text \<open>
  The loops over the slaves and over the memory servers. \<^verbatim>\<open>port\<close> is shared by both loops; an
  excluded pair is skipped.
\<close>

fun read_table :: "nat \<Rightarrow> (u8 list \<times> int) list \<Rightarrow> istream \<Rightarrow> u8 list \<Rightarrow> int option \<Rightarrow> u8 list list \<Rightarrow> int list \<Rightarrow>
    (u8 list list \<times> int list \<times> u8 list \<times> int option \<times> istream) boot" where
  "read_table 0 ex f str port hosts ports = Ret (Inr (hosts, ports, str, port, f))"
| "read_table (Suc n) ex f str port hosts ports =
     (let (str', g) = read_string f str; (port', g') = read_int g port
      in boot_bind (use_int port') (\<lambda>p.
           if (str', p) \<in> set ex then read_table n ex g' str' port' hosts ports
           else read_table n ex g' str' port' (hosts @ [str']) (ports @ [p])))"

record cluster_args =
  ca_slaves :: "u8 list list"
  ca_ports :: "int list"
  ca_mem :: "u8 list list"
  ca_mem_ports :: "int list"
  ca_back :: int
  ca_cache :: int

definition backend_names :: "u8 list list" where
  "backend_names = [ascii ''BackendTest'', ascii ''ChunkMemcached'', ascii ''Memcached'']"

definition cache_names :: "u8 list list" where
  "cache_names = [ascii ''NoCache'', ascii ''WriteThroughCache'']"

text \<open>\<^verbatim>\<open>file >> str\<close> and the position of the word in a list of names.\<close>

definition read_choice :: "u8 list list \<Rightarrow> u8 list \<Rightarrow> istream \<Rightarrow> u8 list \<Rightarrow> (int \<times> u8 list \<times> istream) boot" where
  "read_choice names msg f str =
     (let (str', g) = read_string f str; i = FindIndex names str'
      in boot_bind (MyAssert (0 \<le> i) (msg @ str' @ [10])) (\<lambda>_. Ret (Inr (i, str', g))))"

definition read_config :: "(u8 list \<times> int) list \<Rightarrow> istream \<Rightarrow> cluster_args boot" where
  "read_config ex f0 =
     boot_bind (expect_key (ascii ''DogeeConfigVer='') (ascii ''No DogeeConfigVer'' @ [10]) f0 []) (\<lambda>(str1, f1).
     let (ver, f2) = read_int f1 None in
     boot_bind (use_int ver) (\<lambda>v.
     boot_bind (MyAssert (v = 1) (ascii ''Bad config version'' @ [10])) (\<lambda>_.
     boot_bind (expect_key (ascii ''MasterPort='') (ascii ''No MasterPort'' @ [10]) f2 str1) (\<lambda>(str2, f3).
     let (mport, f4) = read_int f3 None in
     boot_bind (expect_key (ascii ''NumSlaves='') (ascii ''No NumSlaves'' @ [10]) f4 str2) (\<lambda>(str3, f5).
     let (num_slaves, f6) = read_int f5 None in
     boot_bind (expect_key (ascii ''NumMemServers='') (ascii ''No NumMemServers'' @ [10]) f6 str3) (\<lambda>(str4, f7).
     let (num_mem, f8) = read_int f7 None in
     boot_bind (expect_key (ascii ''DSMBackend='') (ascii ''No DSMBackend'' @ [10]) f8 str4) (\<lambda>(str5, f9).
     boot_bind (read_choice backend_names (ascii ''Bad DSMBackend Name:'') f9 str5) (\<lambda>(bk, str6, f10).
     boot_bind (expect_key (ascii ''DSMCache='') (ascii ''No DSMCache'' @ [10]) f10 str6) (\<lambda>(str7, f11).
     boot_bind (read_choice cache_names (ascii ''Bad DSMCache Name:'') f11 str7) (\<lambda>(ca, str8, f12).
     boot_bind (expect_key (ascii ''Slaves='') (ascii ''No Slaves'' @ [10]) f12 str8) (\<lambda>(str9, f13).
     boot_bind (use_int mport) (\<lambda>mp.
     boot_bind (use_int num_slaves) (\<lambda>ns.
     boot_bind (read_table (nat ns) ex f13 str9 None [[]] [mp]) (\<lambda>(hosts, ports, str10, port, f14).
     boot_bind (expect_key (ascii ''MemServers='') (ascii ''No MemServers'' @ [10]) f14 str10) (\<lambda>(str11, f15).
     boot_bind (use_int num_mem) (\<lambda>nm.
     boot_bind (read_table (nat nm) ex f15 str11 port [] []) (\<lambda>(mhosts, mports, _, _, _).
       Ret (Inr \<lparr>ca_slaves = hosts, ca_ports = ports, ca_mem = mhosts, ca_mem_ports = mports,
         ca_back = bk, ca_cache = ca\<rparr>))))))))))))))))))"

section \<open>HelperInitCluster\<close>

text \<open>
  What the start of a process leads to: a slave on a port, exit with a message, or a master whose
  greetings were sent. \<^verbatim>\<open>UaWaitForProcess\<close> on the old process of a restart is kept as its number.
\<close>

datatype boot_result =
    RunSlave int
  | Exit3 "u8 list"
  | Master "int option" "u8 list list list"

definition start_master :: "(u8 list \<Rightarrow> u32 \<Rightarrow> conn option) \<Rightarrow> int \<Rightarrow> int option \<Rightarrow> cluster_args \<Rightarrow> boot_result cxx" where
  "start_master connect chk wait_pid a =
     cxx_bind (RcMaster_connect connect (ca_slaves a) (map of_int (ca_ports a)) (ca_mem a) (map of_int (ca_mem_ports a))
       (of_int (ca_back a)) (of_int (ca_cache a)) (of_int chk))
       (\<lambda>(rc, sent, _, _). if rc \<noteq> 0 then Ret (Exit3 (ascii ''Master Init return non-zero'' @ [10]))
          else Ret (Master wait_pid sent))"

definition HelperInitCluster :: "(u8 list \<Rightarrow> u32 \<Rightarrow> conn option) \<Rightarrow> int \<Rightarrow> u8 list option \<Rightarrow> u8 list list \<Rightarrow>
    boot_result cxx" where
  "HelperInitCluster connect chk config argv =
     (if 3 \<le> length argv \<and> argv ! 1 = ascii ''-s'' then Ret (RunSlave (atoi (argv ! 2)))
      else let m = read_params argv;
               wait_pid = map_option atoi (m (ascii ''----restart''))
           in cxx_bind (param_excludes m) (\<lambda>ex.
              cxx_bind (read_config ex (open_istream config)) (\<lambda>r. case r of
                  Inl msg \<Rightarrow> Ret (Exit3 msg)
                | Inr a \<Rightarrow> start_master connect chk wait_pid a)))"

section \<open>RestartCurrentProcess\<close>

text \<open>
  The stream that builds the list of excluded nodes, and the argument vector of the new process
  on Linux: \<open>restart_args\<close> is what the code stores, \<open>restart_slots\<close> the size of the array it
  allocates. C++ reads \<^verbatim>\<open>new char*[myargc + excludes_ip.size () > 0 ? 4 : 3]\<close> as
  \<^verbatim>\<open>(myargc + excludes_ip.size () > 0) ? 4 : 3\<close>.
\<close>

fun exclude_list :: "(u8 list \<times> int) list \<Rightarrow> u8 list" where
  "exclude_list [] = []"
| "exclude_list [(ip, port)] = ip @ [58] @ print_int port"
| "exclude_list ((ip, port) # ex) = ip @ [58] @ print_int port @ [59] @ exclude_list ex"

definition restart_args :: "u8 list list \<Rightarrow> int \<Rightarrow> (u8 list \<times> int) list \<Rightarrow> u8 list list" where
  "restart_args myargv pid ex = myargv @ [ascii ''----restart'', print_int pid]
     @ (if ex \<noteq> [] then [ascii ''----exclude '' @ exclude_list ex] else [])"

definition restart_slots :: "u8 list list \<Rightarrow> (u8 list \<times> int) list \<Rightarrow> nat" where
  "restart_slots myargv ex = (if 0 < length myargv + length ex then 4 else 3)"

definition RestartCurrentProcess :: "u8 list list \<Rightarrow> int \<Rightarrow> (u8 list \<times> int) list \<Rightarrow> u8 list list cxx" where
  "RestartCurrentProcess myargv pid ex =
     (let args = restart_args myargv pid ex
      in if restart_slots myargv ex < length args + 1 then Indeterminate
         else if myargv = [] then Indeterminate
         else Ret args)"

text \<open>On Windows the options are appended to the command line of the process.\<close>

definition restart_command_line :: "u8 list \<Rightarrow> int \<Rightarrow> (u8 list \<times> int) list \<Rightarrow> u8 list" where
  "restart_command_line cmd hnd ex = cmd @ ascii '' ----restart '' @ print_int hnd
     @ (if ex \<noteq> [] then [32] @ ascii ''----exclude '' @ exclude_list ex else [])"

section \<open>Liveness and RestartCluster\<close>

text \<open>
  The master's view: its host table, the time of the last sign of life of every node, the restart
  lock and the closing flag. \<open>sends\<close> says which sends fail. The command log holds the node and the
  command in the order of the sends.
\<close>

datatype master_cmd = SendAlive nat | SendRestart nat

record liveness =
  lv_hosts :: "u8 list list"
  lv_ports :: "int list"
  lv_clocks :: "nat list"
  lv_restart_lock :: bool
  lv_closing :: bool
  lv_sent :: "master_cmd list"

definition node_pair :: "liveness \<Rightarrow> nat \<Rightarrow> u8 list \<times> int" where
  "node_pair lv i = (lv_hosts lv ! i, lv_ports lv ! i)"

definition RestartCluster :: "(nat \<Rightarrow> bool) \<Rightarrow> liveness \<Rightarrow> (u8 list \<times> int) list \<Rightarrow>
    (u8 list \<times> int) list option \<times> liveness" where
  "RestartCluster send_fails lv ex =
     (if lv_restart_lock lv then (None, lv)
      else let nodes = [1..<length (lv_hosts lv)]
           in (Some (ex @ map (node_pair lv) (filter send_fails nodes)),
               lv\<lparr>lv_restart_lock := True, lv_sent := lv_sent lv @ map SendRestart nodes\<rparr>))"

text \<open>One round: the nodes whose last sign of life is more than five seconds (here 5000 ms) old.\<close>

definition dead_nodes :: "nat \<Rightarrow> liveness \<Rightarrow> nat list" where
  "dead_nodes now lv = filter (\<lambda>i. 5000 < int now - int (lv_clocks lv ! i)) [1..<length (lv_hosts lv)]"

definition RcMasterAliveListen_round :: "(nat \<Rightarrow> bool) \<Rightarrow> nat \<Rightarrow> liveness \<Rightarrow>
    (u8 list \<times> int) list option \<times> liveness" where
  "RcMasterAliveListen_round send_fails now lv =
     (let ex = map (node_pair lv) (dead_nodes now lv);
          lv' = lv\<lparr>lv_sent := lv_sent lv @ map SendAlive [1..<length (lv_hosts lv)]\<rparr>
      in if ex \<noteq> [] \<and> \<not> lv_closing lv then RestartCluster send_fails lv' ex else (None, lv'))"

end
