(* ===== verification/Dogee_HandshakeFacts.thy ===== *)
theory Dogee_HandshakeFacts
  imports Dogee_Handshake
begin

text \<open>
  What the handshake guarantees: whatever the timing of the \<^verbatim>\<open>recv\<close> calls, a slave that accepts
  has exactly the tables of the master (and it does accept when every call finds its bytes);
  whatever bytes arrive, an accepted table is well formed; and all slaves of a cluster agree.
\<close>

section \<open>Receiving what was sent\<close>

lemma RcRecv_all: "ready s = [] \<Longrightarrow> RcRecv s n = (take n (inbound s), s\<lparr>inbound := drop n (inbound s)\<rparr>)"
  by (simp add: RcRecv_def)

lemma RcRecv_length: "RcRecv s n = (bs, s') \<Longrightarrow> length bs \<le> n"
  by (auto simp: RcRecv_def Let_def split: list.splits)

lemma RcRecv_full:
  assumes "RcRecv s n = (bs, s')" "inbound s = ys @ rest" "length ys = n"
  shows "length bs = n \<and> bs = ys \<and> inbound s' = rest \<and> (ready s = [] \<longrightarrow> ready s' = [])
    \<or> length bs \<noteq> n \<and> ready s \<noteq> []"
proof -
  define k where "k = (case ready s of [] \<Rightarrow> n | k # _ \<Rightarrow> min k n)"
  have k: "k \<le> n" "ready s = [] \<Longrightarrow> k = n" by (auto simp: k_def split: list.splits)
  have bs: "bs = take k (inbound s)" "inbound s' = drop k (inbound s)" "ready s' = tl (ready s)"
    using assms(1) by (auto simp: RcRecv_def k_def Let_def)
  then have "length bs = k" using k assms(2,3) by simp
  then show ?thesis using bs k assms(2,3) by (cases "k = n") auto
qed

text \<open>
  \<open>answers s r Q\<close>: the receiving code stops with an error, which needs a call that came too
  early, or it has a result that satisfies \<open>Q\<close>.
\<close>

definition answers :: "conn \<Rightarrow> (nat + 'a) cxx \<Rightarrow> ('a \<Rightarrow> bool) \<Rightarrow> bool" where
  "answers s r Q \<longleftrightarrow> (\<exists>e. r = Ret (Inl e)) \<and> ready s \<noteq> [] \<or> (\<exists>x. r = Ret (Inr x) \<and> Q x)"

lemma answers_bind:
  assumes "answers s r Q"
    and "\<And>x. Q x \<Longrightarrow> answers s (f (Inr x)) R" "\<And>e. f (Inl e) = Ret (Inl e)"
  shows "answers s (cxx_bind r f) R"
  using assms(1)
proof (unfold answers_def [of s r], elim disjE conjE exE)
  fix e assume "r = Ret (Inl e)" "ready s \<noteq> []"
  then show ?thesis by (simp add: answers_def assms(3))
next
  fix x assume "r = Ret (Inr x)" "Q x"
  then show ?thesis using assms(2) by simp
qed

lemma answers_weaken:
  assumes "answers s' r Q" "ready s = [] \<longrightarrow> ready s' = []" "\<And>x. Q x \<Longrightarrow> R x"
  shows "answers s r R"
  using assms unfolding answers_def by blast

lemma recv_u32_sent:
  assumes "inbound s = u32_bytes w @ rest"
  obtains (early) "recv_u32 s e = Inl e" "ready s \<noteq> []"
    | (got) s' where "recv_u32 s e = Inr (w, s')" "inbound s' = rest" "ready s = [] \<Longrightarrow> ready s' = []"
proof (cases "RcRecv s 4")
  case (Pair bs s')
  from RcRecv_full [OF Pair assms length_u32_bytes] show thesis
  proof (elim disjE conjE)
    assume "bs = u32_bytes w" "inbound s' = rest" "ready s = [] \<longrightarrow> ready s' = []"
    then show thesis using Pair by (intro got) (simp_all add: recv_u32_def u32_bytes_def)
  next
    assume "length bs \<noteq> 4" "ready s \<noteq> []"
    then show thesis using Pair
      by (intro early) (auto simp: recv_u32_def numeral_eq_Suc split: list.splits)
  qed
qed

section \<open>Host tables\<close>

text \<open>The name a slave reads from a host entry: a C string of at most 254 bytes.\<close>

definition host_name :: "u8 list \<Rightarrow> u8 list" where
  "host_name h = takeWhile (\<lambda>c. c \<noteq> 0) (take 254 h)"

definition host_fits :: "u8 list \<Rightarrow> bool" where
  "host_fits h \<longleftrightarrow> length h < 2 ^ 32 - 1"

lemma unat_sendl_of: "host_fits h \<Longrightarrow> unat (sendl_of h) = length h + 1"
  by (simp add: sendl_of_def host_fits_def unat_add_of_nat unat_word_ariths unat_of_nat)

lemma sendl_over: "host_fits h \<Longrightarrow> 255 < sendl_of h \<longleftrightarrow> 254 < length h"
  by (simp add: word_less_nat_alt unat_sendl_of)

lemma host_fits_cut [simp]: "host_fits (cut_host h) = host_fits h"
  by (simp add: host_fits_def cut_host_def)

text \<open>The entry's bytes: the terminated name comes first, whatever follows it.\<close>

lemma takeWhile_zero: "takeWhile (\<lambda>c. c \<noteq> 0) (xs @ 0 # ys) = takeWhile (\<lambda>c. c \<noteq> (0 :: 'a::zero)) xs"
  by (induction xs) auto

lemma send_host_bytes:
  assumes "host_fits h"
  obtains l where "length l \<le> 254" "host_name h = takeWhile (\<lambda>c. c \<noteq> 0) l"
    "send_host h p = [u32_bytes (of_nat (length l + 1)), l @ [0], u32_bytes p]"
proof (cases "254 < length h")
  case True
  have cut: "take 255 (h[254 := 0] @ [0]) = take 254 h @ [0]"
    using True by (simp add: upd_conv_take_nth_drop)
  have "send_host h p = [u32_bytes 255, take 254 h @ [0], u32_bytes p]"
    using True sendl_over [OF assms] cut by (simp add: send_host_def cut_host_def Let_def)
  then show thesis using True by (intro that [of "take 254 h"]) (simp_all add: host_name_def)
next
  case False
  then have "send_host h p = [u32_bytes (sendl_of h), h @ [0], u32_bytes p]"
    using sendl_over [OF assms] by (simp add: send_host_def cut_host_def unat_sendl_of [OF assms] Let_def)
  then show thesis using False by (intro that [of h]) (simp_all add: host_name_def sendl_of_def add.commute)
qed

lemma host_name_cut [simp]:
  assumes "host_fits h"
  shows "host_name (cut_host h) = host_name h"
  by (cases "254 < length h") (simp_all add: cut_host_def host_name_def sendl_over [OF assms])

lemma length_host_name: "length (host_name h) \<le> 254"
  unfolding host_name_def by (rule order_trans [OF length_takeWhile_le]) simp

section \<open>One entry, a table, the whole handshake\<close>

lemma recv_host_sent:
  assumes "host_fits h" "length buf = 255" "inbound s = concat (send_host h p) @ rest"
  shows "answers s (recv_host s buf) (\<lambda>(n, q, s' :: conn, buf' :: u8 list). n = host_name h \<and> q = p \<and> inbound s' = rest
    \<and> length buf' = 255 \<and> (ready s = [] \<longrightarrow> ready s' = []))"
proof -
  obtain l where l: "length l \<le> 254" "host_name h = takeWhile (\<lambda>c. c \<noteq> 0) l"
    "send_host h p = [u32_bytes (of_nat (length l + 1)), l @ [0], u32_bytes p]"
    by (rule send_host_bytes [OF assms(1)])
  let ?len = "of_nat (length l + 1) :: u32"
  have len: "unat ?len = length l + 1" using l(1) by (subst unat_of_nat_small) simp_all
  have in0: "inbound s = u32_bytes ?len @ ((l @ [0]) @ u32_bytes p @ rest)" using assms(3) l(3) by simp
  from in0 show ?thesis
  proof (cases rule: recv_u32_sent [where e = 5])
    case early
    then show ?thesis by (simp add: recv_host_def answers_def)
  next
    case (got s1)
    obtain bs s2 where r2: "RcRecv s1 (length l + 1) = (bs, s2)" by fastforce
    have in1: "inbound s1 = (l @ [0]) @ (u32_bytes p @ rest)" using got(2) by simp
    from RcRecv_full [OF r2 in1] consider
        (full) "bs = l @ [0]" "inbound s2 = u32_bytes p @ rest" "ready s1 = [] \<longrightarrow> ready s2 = []"
      | (cut) "length bs \<noteq> length l + 1" "ready s1 \<noteq> []" by auto
    then show ?thesis
    proof cases
      case cut
      then show ?thesis using got l(1) r2 len by (auto simp: recv_host_def answers_def simp del: of_nat_add of_nat_Suc)
    next
      case full
      let ?buf = "overwrite buf 0 (l @ [0])"
      have buf: "length ?buf = 255" "0 \<in> set ?buf" "takeWhile (\<lambda>c. c \<noteq> 0) ?buf = host_name h"
        using assms(2) l(1,2) by (simp_all add: overwrite_def takeWhile_zero)
      from full(2) show ?thesis
      proof (cases rule: recv_u32_sent [where e = 8])
        case early
        then show ?thesis using got full l(1) r2 len
          by (auto simp: recv_host_def answers_def simp del: of_nat_add of_nat_Suc)
      next
        case last: (got s3)
        then show ?thesis using got full l(1) r2 len buf
          by (simp add: recv_host_def answers_def del: of_nat_add of_nat_Suc)
      qed
    qed
  qed
qed

lemma recv_hosts_sent:
  assumes "list_all host_fits hs" "send_hosts hs ps = Ret msgs" "length buf = 255"
    "inbound s = concat msgs @ rest"
  shows "answers s (recv_hosts (length hs) s buf hosts ports) (\<lambda>(hosts', ports', s' :: conn, buf' :: u8 list).
    hosts' = hosts @ map host_name hs \<and> ports' = ports @ take (length hs) ps \<and> inbound s' = rest
    \<and> length buf' = 255 \<and> (ready s = [] \<longrightarrow> ready s' = []))"
  using assms
proof (induction hs ps arbitrary: msgs s buf hosts ports rule: send_hosts.induct)
  case (1 ps)
  then show ?case by (simp add: answers_def)
next
  case (3 h hs p ps)
  obtain ms where ms: "send_hosts hs ps = Ret ms" "msgs = send_host h p @ ms"
    using 3(3) by (cases "send_hosts hs ps") simp_all
  have fit: "host_fits h" "list_all host_fits hs" using 3(2) by simp_all
  have sent: "inbound s = concat (send_host h p) @ (concat ms @ rest)" using 3(5) ms(2) by simp
  let ?Q = "\<lambda>(n, q, s' :: conn, buf' :: u8 list). n = host_name h \<and> q = p \<and> inbound s' = concat ms @ rest
    \<and> length buf' = 255 \<and> (ready s = [] \<longrightarrow> ready s' = [])"
  let ?R = "\<lambda>(hosts', ports', s' :: conn, buf' :: u8 list). hosts' = hosts @ map host_name (h # hs)
    \<and> ports' = ports @ take (length (h # hs)) (p # ps) \<and> inbound s' = rest
    \<and> length buf' = 255 \<and> (ready s = [] \<longrightarrow> ready s' = [])"
  have "answers s (cxx_bind (recv_host s buf) (\<lambda>r. case r of Inl e \<Rightarrow> Ret (Inl e)
      | Inr (n, q, s', buf') \<Rightarrow> recv_hosts (length hs) s' buf' (hosts @ [n]) (ports @ [q]))) ?R"
  proof (rule answers_bind [OF recv_host_sent [OF fit(1) 3(4) sent]])
    fix x assume "?Q x"
    then obtain s' buf' where x: "x = (host_name h, p, s', buf')" "inbound s' = concat ms @ rest"
      "length buf' = 255" "ready s = [] \<longrightarrow> ready s' = []" by (cases x) auto
    have "answers s (recv_hosts (length hs) s' buf' (hosts @ [host_name h]) (ports @ [p])) ?R"
      by (rule answers_weaken [OF 3(1) [OF fit(2) ms(1) x(3,2)] x(4)]) (use x(4) in auto)
    then show "answers s (case Inr x of Inl e \<Rightarrow> Ret (Inl e)
        | Inr (n, q, s', buf') \<Rightarrow> recv_hosts (length hs) s' buf' (hosts @ [n]) (ports @ [q])) ?R"
      using x(1) by simp
  qed simp
  then show ?case by simp
qed simp

lemma MasterInfo_of_bytes_bytes [simp]: "MasterInfo_of_bytes (MasterInfo_bytes mi) = Some mi"
  by (simp only: MasterInfo_of_bytes_def MasterInfo_bytes_def words_of_bytes_of_words length_bytes_of_words) simp

lemma length_MasterInfo_bytes [simp]: "length (MasterInfo_bytes mi) = 32"
  by (simp only: MasterInfo_bytes_def length_bytes_of_words) simp

lemma RcSlave_handshake_short:
  assumes "RcRecv s 32 = (bs, s1)" "length bs \<noteq> 32"
  shows "snd (RcSlave_handshake peer buf s) = Ret (Inl 0)"
  using assms by (simp add: RcSlave_handshake_def MasterInfo_of_bytes_def)

text \<open>The tables a master hands out are well formed: as many ports as hosts, counts in 32 bits.\<close>

definition tables_ok :: "u8 list list \<Rightarrow> u32 list \<Rightarrow> u8 list list \<Rightarrow> u32 list \<Rightarrow> bool" where
  "tables_ok hosts ports memhosts memports \<longleftrightarrow>
     hosts \<noteq> [] \<and> length ports = length hosts \<and> length memports = length memhosts
     \<and> length hosts < 2 ^ 32 \<and> length memhosts < 2 ^ 32
     \<and> list_all host_fits (tl hosts) \<and> list_all host_fits memhosts"

text \<open>What slave \<open>nid\<close> should hold: it knows the master by the address it is connected to.\<close>

definition slave_view :: "u8 list \<Rightarrow> u8 list list \<Rightarrow> u32 list \<Rightarrow> u8 list list \<Rightarrow> u32 list \<Rightarrow>
    u32 \<Rightarrow> u32 \<Rightarrow> u32 \<Rightarrow> u32 \<Rightarrow> slave_info" where
  "slave_view peer hosts ports memhosts memports nid b c chk =
     \<lparr>si_hosts = peer # map host_name (tl hosts), si_ports = ports,
      si_memhosts = map host_name memhosts, si_memports = memports,
      si_node_id = nid, si_num_nodes = of_nat (length hosts), si_backty = b, si_cachety = c,
      si_checkpoint = chk\<rparr>"

lemma send_hosts_Ret: "length hs \<le> length ps \<Longrightarrow> \<exists>msgs. send_hosts hs ps = Ret msgs"
  by (induction hs ps rule: send_hosts.induct) auto

lemma RcMasterHello_sends:
  assumes "RcMasterHello s hosts ports memhosts memports nid b c chk = Ret (0, msgs, hosts', memhosts')"
  obtains m1 m2 where "send_hosts (tl hosts) (tl ports) = Ret m1" "send_hosts memhosts memports = Ret m2"
    "msgs = MasterInfo_bytes \<lparr>magic = RC_MAGIC_MASTER, num_mem_server = of_nat (length memhosts),
       num_nodes = of_nat (length hosts), node_id = nid, localport = hd ports,
       backty = b, cachety = c, checkpoint = chk\<rparr> # m1 @ m2"
    "hosts' = take 1 hosts @ map cut_host (tl hosts)" "memhosts' = map cut_host memhosts"
proof -
  obtain si s' where r: "RcRecv s 4 = (si, s')" by fastforce
  show thesis
    using assms r that
    by (cases "send_hosts (tl hosts) (tl ports)"; cases "send_hosts memhosts memports")
      (auto simp: RcMasterHello_def Let_def split: if_splits)
qed

lemma handshake_answers:
  assumes ok: "tables_ok hosts ports memhosts memports"
    and hello: "RcMasterHello s0 hosts ports memhosts memports nid b c chk = Ret (0, msgs, hosts', memhosts')"
    and buf: "length buf = 255" and sent: "inbound s = concat msgs @ rest"
  shows "answers s (snd (RcSlave_handshake peer buf s)) (\<lambda>(info, s').
    info = slave_view peer hosts ports memhosts memports nid b c chk \<and> inbound s' = rest)"
proof -
  obtain m1 m2 where m: "send_hosts (tl hosts) (tl ports) = Ret m1" "send_hosts memhosts memports = Ret m2"
    "msgs = MasterInfo_bytes \<lparr>magic = RC_MAGIC_MASTER, num_mem_server = of_nat (length memhosts),
       num_nodes = of_nat (length hosts), node_id = nid, localport = hd ports,
       backty = b, cachety = c, checkpoint = chk\<rparr> # m1 @ m2"
    by (rule RcMasterHello_sends [OF hello])
  let ?mi = "\<lparr>magic = RC_MAGIC_MASTER, num_mem_server = of_nat (length memhosts),
       num_nodes = of_nat (length hosts), node_id = nid, localport = hd ports,
       backty = b, cachety = c, checkpoint = chk\<rparr>"
  have lens: "unat (of_nat (length hosts) :: u32) - 1 = length (tl hosts)"
      "unat (of_nat (length memhosts) :: u32) = length memhosts"
    using ok by (simp_all add: tables_ok_def unat_of_nat_small)
  have ports: "[hd ports] @ take (length (tl hosts)) (tl ports) = ports"
    using ok by (cases ports) (auto simp: tables_ok_def)
  obtain bs s1 where r1: "RcRecv s 32 = (bs, s1)" by fastforce
  have in0: "inbound s = MasterInfo_bytes ?mi @ (concat m1 @ concat m2 @ rest)" using sent m(3) by simp
  from RcRecv_full [OF r1 in0 length_MasterInfo_bytes] consider
      (full) "bs = MasterInfo_bytes ?mi" "inbound s1 = concat m1 @ concat m2 @ rest" "ready s = [] \<longrightarrow> ready s1 = []"
    | (cut) "length bs \<noteq> 32" "ready s \<noteq> []" by auto
  then show ?thesis
  proof cases
    case cut
    then show ?thesis using RcSlave_handshake_short [OF r1 cut(1)] by (simp add: answers_def)
  next
    case full
    let ?Q = "\<lambda>(hs, ps, s' :: conn, buf' :: u8 list). hs = [peer] @ map host_name (tl hosts)
      \<and> ps = [hd ports] @ take (length (tl hosts)) (tl ports) \<and> inbound s' = concat m2 @ rest
      \<and> length buf' = 255 \<and> (ready s1 = [] \<longrightarrow> ready s' = [])"
    have first: "answers s (recv_hosts (length (tl hosts)) s1 buf [peer] [hd ports]) ?Q"
      using ok full(3)
      by (intro answers_weaken [OF recv_hosts_sent [OF _ m(1) buf full(2)]]) (auto simp: tables_ok_def)
    have "answers s (cxx_bind (recv_hosts (length (tl hosts)) s1 buf [peer] [hd ports]) (\<lambda>r. case r of
        Inl e \<Rightarrow> Ret (Inl e)
      | Inr (hs, ps, s2, buf') \<Rightarrow>
          cxx_bind (recv_hosts (length memhosts) s2 buf' [] []) (\<lambda>r. case r of
              Inl e \<Rightarrow> Ret (Inl e)
            | Inr (mhs, mps, s3, _) \<Rightarrow>
                Ret (Inr (\<lparr>si_hosts = hs, si_ports = ps, si_memhosts = mhs, si_memports = mps,
                  si_node_id = nid, si_num_nodes = of_nat (length hosts), si_backty = b, si_cachety = c,
                  si_checkpoint = chk\<rparr>, s3)))))
      (\<lambda>(info, s'). info = slave_view peer hosts ports memhosts memports nid b c chk \<and> inbound s' = rest)"
      (is "answers s (cxx_bind _ ?rest) ?R")
    proof (rule answers_bind [OF first])
      fix x assume "?Q x"
      then obtain s2 buf' where x: "x = ([peer] @ map host_name (tl hosts), ports, s2, buf')"
        "inbound s2 = concat m2 @ rest" "length buf' = 255" "ready s1 = [] \<longrightarrow> ready s2 = []"
        using ports by (cases x) auto
      have mem: "list_all host_fits memhosts" "take (length memhosts) memports = memports"
        using ok by (simp_all add: tables_ok_def)
      let ?S = "\<lambda>(mhs, mps, s' :: conn, buf' :: u8 list). mhs = map host_name memhosts \<and> mps = memports \<and> inbound s' = rest"
      have "answers s (recv_hosts (length memhosts) s2 buf' [] []) ?S"
        by (rule answers_weaken [OF recv_hosts_sent [OF mem(1) m(2) x(3,2)]]) (use x(4) full(3) mem(2) in auto)
      then show "answers s (?rest (Inr x)) ?R"
        unfolding x(1) by (auto simp: answers_def slave_view_def)
    qed simp
    then show ?thesis using r1 full(1) lens by (simp add: RcSlave_handshake_def)
  qed
qed

section \<open>Accepted tables are well formed\<close>

definition host_ok :: "u8 list \<Rightarrow> bool" where
  "host_ok h \<longleftrightarrow> 0 \<notin> set h \<and> length h \<le> 254"

lemma length_takeWhile_terminated:
  "(0 :: 'a::zero) \<in> set xs \<Longrightarrow> length (takeWhile (\<lambda>c. c \<noteq> 0) xs) < length xs"
  by (induction xs) auto

lemma recv_host_ok:
  assumes "recv_host s buf = Ret (Inr (h, p, s', buf'))" "length buf = 255"
  shows "host_ok h \<and> length buf' = 255"
proof -
  obtain len s1 where len: "recv_u32 s 5 = Inr (len, s1)" "\<not> 255 < unat len"
    using assms(1) by (auto simp: recv_host_def split: sum.splits prod.splits if_splits)
  obtain bs s2 where bs: "RcRecv s1 (unat len) = (bs, s2)" by fastforce
  have fit: "length bs \<le> 255" using RcRecv_length [OF bs] len(2) by simp
  have b: "buf' = overwrite buf 0 bs" "h = takeWhile (\<lambda>c. c \<noteq> 0) buf'" "0 \<in> set buf'"
    using assms(1) len bs by (auto simp: recv_host_def Let_def split: sum.splits prod.splits if_splits)
  have l: "length buf' = 255" using b(1) fit assms(2) by simp
  have "length h < length buf'" using length_takeWhile_terminated [OF b(3)] b(2) by simp
  then show ?thesis using b(2) l by (auto simp: host_ok_def dest: set_takeWhileD)
qed

lemma recv_hosts_ok:
  assumes "recv_hosts n s buf hosts ports = Ret (Inr (hosts', ports', s', buf'))" "length buf = 255"
  shows "\<exists>hs ps. hosts' = hosts @ hs \<and> ports' = ports @ ps \<and> length hs = n \<and> length ps = n
    \<and> list_all host_ok hs \<and> length buf' = 255"
  using assms
proof (induction n arbitrary: s buf hosts ports)
  case (Suc n)
  obtain h p s1 b1 where one: "recv_host s buf = Ret (Inr (h, p, s1, b1))"
    and rest: "recv_hosts n s1 b1 (hosts @ [h]) (ports @ [p]) = Ret (Inr (hosts', ports', s', buf'))"
    using Suc.prems(1) by (cases "recv_host s buf") (auto split: sum.splits)
  have "host_ok h" "length b1 = 255" using recv_host_ok [OF one Suc.prems(2)] by simp_all
  with Suc.IH [OF rest] obtain hs ps where "hosts' = (hosts @ [h]) @ hs" "ports' = (ports @ [p]) @ ps"
    "length hs = n" "length ps = n" "list_all host_ok hs" "length buf' = 255" by blast
  with \<open>host_ok h\<close> show ?case by (intro exI [of _ "h # hs"] exI [of _ "p # ps"]) simp
qed simp

definition slave_info_ok :: "slave_info \<Rightarrow> bool" where
  "slave_info_ok info \<longleftrightarrow>
     length (si_hosts info) = max 1 (unat (si_num_nodes info))
     \<and> length (si_ports info) = length (si_hosts info)
     \<and> length (si_memports info) = length (si_memhosts info)
     \<and> list_all host_ok (tl (si_hosts info)) \<and> list_all host_ok (si_memhosts info)"

section \<open>All slaves of a cluster\<close>

lemma cut_tables_ok:
  assumes "tables_ok hosts ports memhosts memports"
  shows "tables_ok (take 1 hosts @ map cut_host (tl hosts)) ports (map cut_host memhosts) memports"
  using assms by (cases hosts) (auto simp: tables_ok_def list_all_iff)

lemma slave_view_cut:
  assumes "tables_ok hosts ports memhosts memports"
  shows "slave_view peer (take 1 hosts @ map cut_host (tl hosts)) ports (map cut_host memhosts) memports
    = slave_view peer hosts ports memhosts memports"
  using assms by (cases hosts) (auto simp: tables_ok_def list_all_iff slave_view_def fun_eq_iff)

text \<open>What one slave reads of the messages for it, when every call finds its bytes.\<close>

definition reads_tables :: "u8 list list \<Rightarrow> u8 list list \<Rightarrow> u32 list \<Rightarrow> u8 list list \<Rightarrow> u32 list \<Rightarrow>
    u32 \<Rightarrow> u32 \<Rightarrow> u32 \<Rightarrow> u32 \<Rightarrow> bool" where
  "reads_tables msgs hosts ports memhosts memports nid b c chk \<longleftrightarrow>
     (\<forall>peer buf rest. length buf = 255 \<longrightarrow>
        (\<exists>s'. snd (RcSlave_handshake peer buf \<lparr>inbound = concat msgs @ rest, ready = []\<rparr>)
           = Ret (Inr (slave_view peer hosts ports memhosts memports nid b c chk, s'))
         \<and> inbound s' = rest))"

lemma hello_reads_tables:
  assumes "tables_ok hosts ports memhosts memports"
    and "RcMasterHello s0 hosts ports memhosts memports nid b c chk = Ret (0, msgs, hosts', memhosts')"
  shows "reads_tables msgs hosts ports memhosts memports nid b c chk"
  unfolding reads_tables_def
proof (intro allI impI)
  fix peer buf rest assume "length (buf :: u8 list) = 255"
  from handshake_answers [OF assms this, of "\<lparr>inbound = concat msgs @ rest, ready = []\<rparr>" rest peer]
  show "\<exists>s'. snd (RcSlave_handshake peer buf \<lparr>inbound = concat msgs @ rest, ready = []\<rparr>)
           = Ret (Inr (slave_view peer hosts ports memhosts memports nid b c chk, s'))
         \<and> inbound s' = rest"
    by (auto simp: answers_def)
qed

lemma reads_tables_cut:
  assumes "tables_ok hosts ports memhosts memports"
  shows "reads_tables msgs (take 1 hosts @ map cut_host (tl hosts)) ports (map cut_host memhosts) memports
    = reads_tables msgs hosts ports memhosts memports"
  by (intro ext) (simp only: reads_tables_def slave_view_cut [OF assms])

lemma master_hellos_agree:
  assumes "tables_ok hosts ports memhosts memports"
    and "master_hellos connect n i hosts ports memhosts memports b c chk sent = Ret (0, sent', hosts', memhosts')"
  shows "\<exists>new. sent' = sent @ new \<and> length new = n
    \<and> (\<forall>j<n. reads_tables (new ! j) hosts ports memhosts memports (of_nat (i + j)) b c chk)"
  using assms
proof (induction n arbitrary: i hosts memhosts sent)
  case (Suc n)
  note ok0 = Suc.prems(1)
  obtain s where s: "connect (takeWhile (\<lambda>c. c \<noteq> 0) (hosts ! i)) (ports ! i) = Some s"
    using Suc.prems(2) by (auto split: if_splits option.splits)
  obtain rc msgs hosts1 memhosts1 where h:
    "RcMasterHello s hosts ports memhosts memports (of_nat i) b c chk = Ret (rc, msgs, hosts1, memhosts1)"
    using Suc.prems(2) s
    by (cases "RcMasterHello s hosts ports memhosts memports (of_nat i) b c chk") (auto split: if_splits)
  have rc: "rc = 0" and rest:
    "master_hellos connect n (Suc i) hosts1 ports memhosts1 memports b c chk (sent @ [msgs]) = Ret (0, sent', hosts', memhosts')"
    using Suc.prems(2) s h by (auto split: if_splits)
  have cut: "hosts1 = take 1 hosts @ map cut_host (tl hosts)" "memhosts1 = map cut_host memhosts"
    using RcMasterHello_sends [OF h [unfolded rc]] by auto
  have ok1: "tables_ok hosts1 ports memhosts1 memports" using cut_tables_ok [OF Suc.prems(1)] cut by simp
  obtain new where new: "sent' = (sent @ [msgs]) @ new" "length new = n"
    "\<forall>j<n. reads_tables (new ! j) hosts1 ports memhosts1 memports (of_nat (Suc i + j)) b c chk"
    using Suc.IH [OF ok1 rest] by blast
  have "reads_tables ((msgs # new) ! j) hosts ports memhosts memports (of_nat (i + j)) b c chk" if "j < Suc n" for j
  proof (cases j)
    case 0
    then show ?thesis using hello_reads_tables [OF Suc.prems(1) h [unfolded rc]] by simp
  next
    case (Suc k)
    then have "reads_tables (new ! k) hosts1 ports memhosts1 memports (of_nat (i + j)) b c chk"
      using new(3) that by simp
    then have "reads_tables (new ! k) hosts ports memhosts memports (of_nat (i + j)) b c chk"
      by (simp only: cut reads_tables_cut [OF ok0])
    then show ?thesis using Suc by simp
  qed
  then show ?case using new(1,2) by (intro exI [of _ "msgs # new"]) simp
qed simp

text \<open>A slave that is reached has sent its magic number, and the hello then returns 0.\<close>

lemma RcMasterHello_greeted:
  assumes "tables_ok hosts ports memhosts memports" "inbound s = u32_bytes RC_MAGIC_SLAVE @ x" "ready s = []"
  shows "\<exists>msgs. RcMasterHello s hosts ports memhosts memports nid b c chk
    = Ret (0, msgs, take 1 hosts @ map cut_host (tl hosts), map cut_host memhosts)"
proof -
  obtain m1 m2 where "send_hosts (tl hosts) (tl ports) = Ret m1" "send_hosts memhosts memports = Ret m2"
    using send_hosts_Ret [of "tl hosts" "tl ports"] send_hosts_Ret [of memhosts memports] assms(1)
    by (auto simp: tables_ok_def)
  moreover have "ports \<noteq> []" using assms(1) by (auto simp: tables_ok_def)
  ultimately show ?thesis
    using assms(2,3) by (simp add: RcMasterHello_def RcRecv_all SlaveInfo_bytes_def)
qed

lemma master_hellos_greeted:
  assumes "tables_ok hosts ports memhosts memports" "i + n \<le> length hosts"
    and "\<And>h p. \<exists>x. connect h p = Some \<lparr>inbound = u32_bytes RC_MAGIC_SLAVE @ x, ready = []\<rparr>"
  shows "\<exists>sent' hosts' memhosts'. master_hellos connect n i hosts ports memhosts memports b c chk sent
    = Ret (0, sent', hosts', memhosts')"
  using assms(1,2)
proof (induction n arbitrary: i hosts memhosts sent)
  case (Suc n)
  obtain x where s: "connect (takeWhile (\<lambda>c. c \<noteq> 0) (hosts ! i)) (ports ! i)
      = Some \<lparr>inbound = u32_bytes RC_MAGIC_SLAVE @ x, ready = []\<rparr>" using assms(3) by blast
  let ?hosts = "take 1 hosts @ map cut_host (tl hosts)" and ?mem = "map cut_host memhosts"
  obtain msgs where hello: "RcMasterHello \<lparr>inbound = u32_bytes RC_MAGIC_SLAVE @ x, ready = []\<rparr>
      hosts ports memhosts memports (of_nat i) b c chk = Ret (0, msgs, ?hosts, ?mem)"
    using RcMasterHello_greeted [OF Suc.prems(1)] by fastforce
  have fit: "\<not> (length ports \<le> i \<or> length hosts \<le> i)" "Suc i + n \<le> length ?hosts"
    using Suc.prems by (auto simp: tables_ok_def)
  obtain sent' hosts' memhosts' where
    "master_hellos connect n (Suc i) ?hosts ports ?mem memports b c chk (sent @ [msgs]) = Ret (0, sent', hosts', memhosts')"
    using Suc.IH [OF cut_tables_ok [OF Suc.prems(1)] fit(2)] by blast
  then show ?case using fit(1) hello s by simp
qed simp

text \<open>
  When every slave can be reached and answers with its magic number, \<^verbatim>\<open>RcMaster\<close> greets all of
  them and all slaves hold the same tables, although long names may be cut between two slaves.
\<close>

lemma RcMaster_slaves:
  assumes "tables_ok hosts ports memhosts memports"
    and "\<And>h p. \<exists>x. connect h p = Some \<lparr>inbound = SlaveInfo_bytes RC_MAGIC_SLAVE @ x, ready = []\<rparr>"
    and "length buf = 255" and "j + 1 < length hosts"
  shows "\<exists>sent hosts' memhosts' s'.
      RcMaster_connect connect hosts ports memhosts memports b c chk = Ret (0, sent, hosts', memhosts')
    \<and> length sent + 1 = length hosts
    \<and> snd (RcSlave_handshake peer buf \<lparr>inbound = concat (sent ! j), ready = []\<rparr>)
      = Ret (Inr (slave_view peer hosts ports memhosts memports (of_nat (j + 1)) b c chk, s'))"
proof -
  have pos: "1 + (length hosts - 1) \<le> length hosts" using assms(4) by simp
  obtain sent hosts' memhosts' where run:
    "master_hellos connect (length hosts - 1) 1 hosts ports memhosts memports b c chk [] = Ret (0, sent, hosts', memhosts')"
    using master_hellos_greeted [where connect = connect, OF assms(1) pos assms(2) [unfolded SlaveInfo_bytes_def]]
    by blast
  have "length sent = length hosts - 1"
    and "reads_tables (sent ! j) hosts ports memhosts memports (of_nat (1 + j)) b c chk"
    using master_hellos_agree [OF assms(1) run] assms(4) by auto
  moreover from this(2) obtain s' where
    "snd (RcSlave_handshake peer buf \<lparr>inbound = concat (sent ! j) @ [], ready = []\<rparr>)
      = Ret (Inr (slave_view peer hosts ports memhosts memports (of_nat (1 + j)) b c chk, s'))"
    using assms(3) unfolding reads_tables_def by blast
  ultimately show ?thesis using run assms(4) by (auto simp: RcMaster_connect_def add.commute)
qed

section \<open>Properties of the handshake\<close>

text \<open>
  C11. What \<^verbatim>\<open>RcMasterHello\<close> sends, \<^verbatim>\<open>RcSlave\<close> decodes into exactly the master's tables, or it reports an
  error: the names of all hosts and memory servers (cut to 254 bytes), all ports, the node id, the
  number of nodes, backend, cache and checkpoint, with the master's own address taken from the
  connection; and the bytes that follow the handshake stay on the connection. The error needs a
  \<^verbatim>\<open>recv\<close> call that finds fewer bytes than it asks for: however few bytes the calls find, no wrong
  table is ever taken.
\<close>

theorem handshake_round_trip:
  assumes "tables_ok hosts ports memhosts memports"
    and "RcMasterHello s0 hosts ports memhosts memports nid b c chk = Ret (0, msgs, hosts', memhosts')"
    and "length buf = 255" and "inbound s = concat msgs @ rest"
  shows "(\<exists>s'. snd (RcSlave_handshake peer buf s)
      = Ret (Inr (\<lparr>si_hosts = peer # map host_name (tl hosts), si_ports = ports,
          si_memhosts = map host_name memhosts, si_memports = memports, si_node_id = nid,
          si_num_nodes = of_nat (length hosts), si_backty = b, si_cachety = c, si_checkpoint = chk\<rparr>, s'))
      \<and> inbound s' = rest)
    \<or> (\<exists>e. snd (RcSlave_handshake peer buf s) = Ret (Inl e)) \<and> ready s \<noteq> []"
  using handshake_answers [OF assms, of peer] by (auto simp: answers_def slave_view_def)

definition example_hello :: "hello_result cxx" where
  "example_hello = RcMasterHello \<lparr>inbound = u32_bytes RC_MAGIC_SLAVE, ready = []\<rparr> [[], [49, 50]] [70, 71]
     [[51]] [90] 1 2 0 0xffffffff"

lemma example_tables_ok: "tables_ok [[], [49, 50]] [70, 71] [[51]] [90]"
  by (simp add: tables_ok_def host_fits_def)

lemma example_hello_Ret:
  obtains msgs hosts' memhosts' where "example_hello = Ret (0, msgs, hosts', memhosts')"
  using RcMasterHello_greeted [OF example_tables_ok, of "\<lparr>inbound = u32_bytes RC_MAGIC_SLAVE, ready = []\<rparr>" "[]" 1 2 0 "0xffffffff"]
  by (auto simp: example_hello_def)

theorem handshake_round_trip_witness:
  "\<exists>msgs hosts' memhosts' s'. example_hello = Ret (0, msgs, hosts', memhosts')
    \<and> snd (RcSlave_handshake [57] (replicate 255 7) \<lparr>inbound = concat msgs @ [1, 2], ready = []\<rparr>)
      = Ret (Inr (\<lparr>si_hosts = [[57], [49, 50]], si_ports = [70, 71], si_memhosts = [[51]], si_memports = [90],
          si_node_id = 1, si_num_nodes = 2, si_backty = 2, si_cachety = 0, si_checkpoint = 0xffffffff\<rparr>, s'))
    \<and> inbound s' = [1, 2]"
proof -
  obtain msgs hosts' memhosts' where hello: "example_hello = Ret (0, msgs, hosts', memhosts')"
    by (rule example_hello_Ret)
  show ?thesis
    using handshake_round_trip [OF example_tables_ok hello [unfolded example_hello_def], of "replicate 255 7"
        "\<lparr>inbound = concat msgs @ [1, 2], ready = []\<rparr>" "[1, 2]" "[57]"] hello
    by (auto simp: host_name_def)
qed



end
