(* ===== verification/Dogee_ConfigFacts.thy ===== *)
theory Dogee_ConfigFacts
  imports Dogee_Config Dogee_HandshakeFacts
begin

text \<open>
  What the start-up and restart code guarantees: a configuration file laid out as documented
  gives the tables it lists, less the excluded nodes, and these are the tables every slave ends
  up with; the list of excluded nodes survives a restart on Windows and is lost on Linux.
\<close>

section \<open>Reading the configuration\<close>

lemma boot_bind_Ret [simp]: "boot_bind (Ret (Inr a)) f = f a" "boot_bind (Ret (Inl e)) f = Ret (Inl e)"
  by (simp_all add: boot_bind_def)

text \<open>The words of a configuration file.\<close>

definition table_words :: "(u8 list \<times> int) list \<Rightarrow> u8 list list" where
  "table_words t = concat (map (\<lambda>(h, p). [h, print_int p]) t)"

definition config_words :: "int \<Rightarrow> (u8 list \<times> int) list \<Rightarrow> (u8 list \<times> int) list \<Rightarrow> nat \<Rightarrow> nat \<Rightarrow> u8 list list" where
  "config_words mport sl mm bk ca =
     [ascii ''DogeeConfigVer='', print_int 1, ascii ''MasterPort='', print_int mport,
      ascii ''NumSlaves='', print_int (int (length sl)), ascii ''NumMemServers='', print_int (int (length mm)),
      ascii ''DSMBackend='', backend_names ! bk, ascii ''DSMCache='', cache_names ! ca, ascii ''Slaves='']
     @ table_words sl @ ascii ''MemServers='' # table_words mm"

definition int_range :: "int \<Rightarrow> bool" where
  "int_range v \<longleftrightarrow> INT_MIN \<le> v \<and> v \<le> INT_MAX"

definition kept :: "(u8 list \<times> int) list \<Rightarrow> (u8 list \<times> int) list \<Rightarrow> (u8 list \<times> int) list" where
  "kept ex t = filter (\<lambda>e. e \<notin> set ex) t"

lemma read_string_word:
  assumes "between f (w # ws)"
  obtains g where "read_string f str = (w, g)" "between g ws"
proof -
  obtain g where "extract_string f = (Some w, g)" "between g ws" by (rule extract_string_word [OF assms])
  then show thesis by (intro that [of g]) (simp_all add: read_string_def)
qed

lemma read_int_word:
  assumes "between f (print_int v # ws)" "int_range v"
  obtains g where "read_int f n = (Some v, g)" "between g ws"
proof -
  have "INT_MIN \<le> v" "v \<le> INT_MAX" using assms(2) by (simp_all add: int_range_def)
  then obtain g where "extract_int INT_MIN INT_MAX f = (Some v, g)" "between g ws"
    by (rule extract_int_word [OF assms(1)])
  then show thesis by (intro that [of g]) (simp_all add: read_int_def)
qed

text \<open>The steps of \<^verbatim>\<open>HelperInitCluster\<close>, each as a rule that moves on to the next word.\<close>

lemma read_int_step:
  assumes "between f (print_int v # ws)" "int_range v" "\<And>g. between g ws \<Longrightarrow> F (Some v) g = R"
  shows "(case read_int f n of (x, g) \<Rightarrow> F x g) = R"
proof -
  obtain g where "read_int f n = (Some v, g)" "between g ws" by (rule read_int_word [OF assms(1,2)])
  then show ?thesis using assms(3) by simp
qed

lemma expect_key_step:
  assumes "between f (key # ws)" "\<And>g. between g ws \<Longrightarrow> F key g = R"
  shows "boot_bind (expect_key key msg f str) (\<lambda>(s, g). F s g) = R"
proof -
  obtain g where "read_string f str = (key, g)" "between g ws" by (rule read_string_word [OF assms(1)])
  then show ?thesis using assms(2) by (simp add: expect_key_def str_starts_with_def MyAssert_def)
qed

lemma read_choice_step:
  assumes "between f (names ! i # ws)" "distinct names" "i < length names"
    and "\<And>g. between g ws \<Longrightarrow> F (int i) (names ! i) g = R"
  shows "boot_bind (read_choice names msg f str) (\<lambda>(i, s, g). F i s g) = R"
proof -
  obtain g where "read_string f str = (names ! i, g)" "between g ws" by (rule read_string_word [OF assms(1)])
  then show ?thesis using assms(4) by (simp add: read_choice_def MyAssert_def FindIndex_nth [OF assms(2,3)])
qed

lemma table_words_simps [simp]:
  "table_words [] = []" "table_words ((h, p) # t) = h # print_int p # table_words t"
  by (simp_all add: table_words_def)

lemma read_table_words:
  assumes "between f (table_words t @ ws)" "list_all (\<lambda>(h, p). int_range p) t"
  shows "\<exists>str' port' g. read_table (length t) ex f str port hosts ports
      = Ret (Inr (hosts @ map fst (kept ex t), ports @ map snd (kept ex t), str', port', g)) \<and> between g ws"
  using assms
proof (induction t arbitrary: f str port hosts ports)
  case (Cons e t)
  obtain h p where e: "e = (h, p)" by (cases e)
  have b: "between f (h # print_int p # table_words t @ ws)" "int_range p" "list_all (\<lambda>(h, p). int_range p) t"
    using Cons.prems e by simp_all
  obtain g1 where g1: "read_string f str = (h, g1)" "between g1 (print_int p # table_words t @ ws)"
    by (rule read_string_word [OF b(1)])
  obtain g2 where g2: "read_int g1 port = (Some p, g2)" "between g2 (table_words t @ ws)"
    by (rule read_int_word [OF g1(2) b(2)])
  show ?case
    using Cons.IH [OF g2(2) b(3), of h "Some p" hosts ports]
      Cons.IH [OF g2(2) b(3), of h "Some p" "hosts @ [h]" "ports @ [p]"] g1(1) g2(1) e
    by (cases "(h, p) \<in> set ex") (simp_all add: use_int_def kept_def)
qed (simp add: kept_def)

lemma read_table_step:
  assumes "between f (table_words t @ ws)" "list_all (\<lambda>(h, p). int_range p) t"
    and "\<And>str' port' g. between g ws \<Longrightarrow>
      F (hosts @ map fst (kept ex t)) (ports @ map snd (kept ex t)) str' port' g = R"
  shows "boot_bind (read_table (nat (int (length t))) ex f str port hosts ports) (\<lambda>(hs, ps, s, p, g). F hs ps s p g) = R"
  using read_table_words [OF assms(1,2), of ex str port hosts ports] assms(3) by auto

lemma use_int_step: "F v = R \<Longrightarrow> boot_bind (use_int (Some v)) F = R"
  by (simp add: use_int_def)

lemma MyAssert_step: "b \<Longrightarrow> F () = R \<Longrightarrow> boot_bind (MyAssert b msg) F = R"
  by (simp add: MyAssert_def)

lemma names_distinct: "distinct backend_names" "distinct cache_names" "length backend_names = 3" "length cache_names = 2"
  by (simp_all add: backend_names_def cache_names_def ascii_def)

lemma int_range_1: "int_range 1"
  by (simp add: int_range_def INT_MIN_def INT_MAX_def)

lemma read_config_words:
  assumes "words text = config_words mport sl mm bk ca"
    and tables: "list_all (\<lambda>(h, p). int_range p) sl" "list_all (\<lambda>(h, p). int_range p) mm"
    and range: "int_range mport" "int_range (int (length sl))" "int_range (int (length mm))"
    and choice: "bk < 3" "ca < 2"
  shows "read_config ex (open_istream (Some text)) = Ret (Inr
    \<lparr>ca_slaves = [] # map fst (kept ex sl), ca_ports = mport # map snd (kept ex sl),
     ca_mem = map fst (kept ex mm), ca_mem_ports = map snd (kept ex mm), ca_back = int bk, ca_cache = int ca\<rparr>)"
proof -
  have b0: "between (open_istream (Some text)) (config_words mport sl mm bk ca)"
    using assms(1) by (simp add: between_def open_istream_def)
  have mm: "between g (table_words mm) \<Longrightarrow> between g (table_words mm @ [])" for g by simp
  note choices = read_choice_step [OF _ names_distinct(1)] read_choice_step [OF _ names_distinct(2)]
  note numbers = read_int_step [OF _ int_range_1] read_int_step [OF _ range(1)] read_int_step [OF _ range(2)]
    read_int_step [OF _ range(3)]
  show ?thesis
    by (insert b0, unfold config_words_def append_Cons append_Nil read_config_def Let_def,
        (erule expect_key_step | erule numbers | erule choices, simp add: names_distinct choice
         | rule use_int_step | rule MyAssert_step [OF refl] | erule read_table_step [OF _ tables(1)]
         | drule mm, erule read_table_step [OF _ tables(2)])+, simp)
qed

section \<open>The list of excluded nodes\<close>

definition addr_ok :: "u8 list \<Rightarrow> bool" where
  "addr_ok ip \<longleftrightarrow> list_all (\<lambda>c. \<not> isspace c \<and> c \<noteq> 58 \<and> c \<noteq> 59) ip"

definition exclude_ok :: "(u8 list \<times> int) list \<Rightarrow> bool" where
  "exclude_ok ex \<longleftrightarrow> list_all (\<lambda>(ip, port). addr_ok ip \<and> int_range port) ex"

lemma print_int_no_sep: "58 \<notin> set (print_int v)" "59 \<notin> set (print_int v)"
proof -
  have "58 \<notin> set (sprintf_lu n)" "59 \<notin> set (sprintf_lu n)" for n
    using sprintf_lu_digits [of n] by (auto simp: list_all_iff isdigit_def)
  then show "58 \<notin> set (print_int v)" "59 \<notin> set (print_int v)" by (simp_all add: print_int_def)
qed

lemma print_int_not_Nil [simp]: "print_int v \<noteq> []"
  by (simp add: print_int_def)

definition exclude_pieces :: "(u8 list \<times> int) list \<Rightarrow> u8 list list" where
  "exclude_pieces ex = map (\<lambda>(ip, port). ip @ [58] @ print_int port) ex"

lemma str_split_exclude_list:
  assumes "exclude_ok ex"
  shows "str_split (exclude_list ex) 59 = exclude_pieces ex"
  using assms
proof (induction ex rule: exclude_list.induct)
  case (2 ip port)
  then show ?case
    using print_int_no_sep [of port]
    by (subst exclude_list.simps, subst str_split_single)
      (auto simp: exclude_pieces_def exclude_ok_def addr_ok_def list_all_iff)
next
  case (3 ip port e ex)
  have "59 \<notin> set (ip @ [58] @ print_int port)"
    using 3(2) print_int_no_sep [of port] by (auto simp: exclude_ok_def addr_ok_def list_all_iff)
  from str_split_append [OF this, of "exclude_list (e # ex)"]
  show ?case using 3 by (simp add: exclude_pieces_def exclude_ok_def)
qed (simp add: exclude_pieces_def)

lemma read_excludes_pieces:
  assumes "exclude_ok ex"
  shows "read_excludes (exclude_pieces ex) = Ret ex"
  using assms
proof (induction ex)
  case (Cons e ex)
  obtain ip port where e: "e = (ip, port)" by (cases e)
  have ok: "58 \<notin> set ip" "int_range port" using Cons.prems e by (auto simp: exclude_ok_def addr_ok_def list_all_iff)
  have "str_split (ip @ 58 # print_int port) 58 = [ip, print_int port]"
    using str_split_append [OF ok(1)] str_split_single [OF print_int_no_sep(1)] by simp
  moreover have "atoi (print_int port) = port" using ok(2) by (simp add: atoi_print_int int_range_def)
  ultimately show ?case using Cons e by (simp add: exclude_pieces_def exclude_ok_def)
qed (simp add: exclude_pieces_def)

lemma param_excludes_list:
  assumes "m (ascii ''----exclude'') = Some (exclude_list ex)" "exclude_ok ex"
  shows "param_excludes m = Ret ex"
  by (simp add: param_excludes_def assms(1) str_split_exclude_list [OF assms(2)] read_excludes_pieces [OF assms(2)])

section \<open>Command lines\<close>

lemma While_stop:
  "\<not> P c \<Longrightarrow> takeWhile P (xs @ c # ys) = takeWhile P xs \<and> dropWhile P (xs @ c # ys) = dropWhile P xs @ c # ys"
  by (induction xs) auto

lemma words_append_space:
  assumes "isspace c"
  shows "words (xs @ c # ys) = words xs @ words ys"
proof (induction xs rule: words.induct)
  case (1 xs)
  let ?d = "dropWhile isspace xs"
  show ?case
  proof (cases "?d = []")
    case True
    then have "dropWhile isspace (xs @ c # ys) = dropWhile isspace ys"
      using assms by (simp add: dropWhile_append)
    then show ?thesis using True by (simp add: words.simps [of "xs @ c # ys"] words.simps [of ys] words.simps [of xs] Let_def)
  next
    case False
    then have d: "dropWhile isspace (xs @ c # ys) = ?d @ c # ys"
      using dropWhile_append1 by (metis dropWhile_eq_Nil_conv)
    have t: "takeWhile (\<lambda>c. \<not> isspace c) (?d @ c # ys) = takeWhile (\<lambda>c. \<not> isspace c) ?d"
      "dropWhile (\<lambda>c. \<not> isspace c) (?d @ c # ys) = dropWhile (\<lambda>c. \<not> isspace c) ?d @ c # ys"
      using While_stop [of "\<lambda>c. \<not> isspace c"] assms by blast+
    show ?thesis
      using 1 [OF refl False] False
      by (simp add: words.simps [of "xs @ c # ys"] words.simps [of xs] Let_def d t)
  qed
qed

lemma words_token: "list_all (\<lambda>c. \<not> isspace c) w \<Longrightarrow> w \<noteq> [] \<Longrightarrow> words w = [w]"
proof -
  assume w: "list_all (\<lambda>c. \<not> isspace c) w" "w \<noteq> []"
  then have "dropWhile isspace w = w" by (cases w) simp_all
  moreover have "takeWhile (\<lambda>c. \<not> isspace c) w = w" "dropWhile (\<lambda>c. \<not> isspace c) w = []"
    using w(1) by (simp_all only: list_all_iff takeWhile_eq_all_conv dropWhile_eq_Nil_conv)
  moreover have "words [] = []" by (simp add: words.simps)
  ultimately show ?thesis using w(2) by (subst words.simps) (simp only: Let_def if_False)
qed

lemma set_params_append:
  assumes "even (length xs)"
  shows "set_params m (xs @ ys) = set_params (set_params m xs) ys"
  using assms by (induction m xs rule: set_params.induct) auto

lemma exclude_list_nonspace:
  "exclude_ok ex \<Longrightarrow> list_all (\<lambda>c. \<not> isspace c) (exclude_list ex)"
proof (induction ex rule: exclude_list.induct)
  case (2 ip port)
  then have "list_all (\<lambda>c. \<not> isspace c) ip" by (simp add: exclude_ok_def addr_ok_def list_all_iff)
  then show ?case using print_int_nonspace [of port] by (simp add: isspace_def [of 58])
next
  case (3 ip port e ex)
  have "list_all (\<lambda>c. \<not> isspace c) ip" "exclude_ok (e # ex)"
    using 3(2) by (simp_all add: exclude_ok_def addr_ok_def list_all_iff)
  moreover have "\<not> isspace 58" "\<not> isspace 59" by (simp_all add: isspace_def)
  ultimately show ?case
    using print_int_nonspace [of port] 3(1) by (simp only: exclude_list.simps list_all_append list.pred_inject simp_thms)
qed simp

lemma exclude_list_not_Nil: "ex \<noteq> [] \<Longrightarrow> exclude_list ex \<noteq> []"
  by (induction ex rule: exclude_list.induct) simp_all

lemma option_words:
  "words (ascii ''----restart'') = [ascii ''----restart'']" "words (ascii ''----exclude'') = [ascii ''----exclude'']"
  by (rule words_token; simp add: ascii_def isspace_def)+

lemma words_restart_command_line:
  assumes "exclude_ok ex" "ex \<noteq> []"
  shows "words (restart_command_line cmd h ex)
    = words cmd @ [ascii ''----restart'', print_int h, ascii ''----exclude'', exclude_list ex]"
proof -
  have line: "restart_command_line cmd h ex = cmd @ 32 # ascii ''----restart'' @ 32 # print_int h @ 32
      # ascii ''----exclude'' @ 32 # exclude_list ex"
    using assms(2) by (simp add: restart_command_line_def ascii_def)
  have sp: "isspace 32" by (simp add: isspace_def)
  show ?thesis
    unfolding line words_append_space [OF sp] option_words
    using words_token [OF print_int_nonspace, of h] words_token [OF exclude_list_nonspace [OF assms(1)]]
      exclude_list_not_Nil [OF assms(2)]
    by simp
qed

section \<open>From the configuration to the slaves\<close>

definition config_ok :: "int \<Rightarrow> (u8 list \<times> int) list \<Rightarrow> (u8 list \<times> int) list \<Rightarrow> nat \<Rightarrow> nat \<Rightarrow> bool" where
  "config_ok mport sl mm bk ca \<longleftrightarrow>
     list_all (\<lambda>(h, p). int_range p \<and> host_fits h) sl \<and> list_all (\<lambda>(h, p). int_range p \<and> host_fits h) mm
     \<and> int_range mport \<and> int_range (int (length sl)) \<and> int_range (int (length mm)) \<and> bk < 3 \<and> ca < 2"

lemma config_okD:
  assumes "config_ok mport sl mm bk ca"
  shows "list_all (\<lambda>(h, p). int_range p) sl" "list_all (\<lambda>(h, p). int_range p) mm"
    "list_all host_fits (map fst (kept ex sl))" "list_all host_fits (map fst (kept ex mm))"
    "int_range mport" "int_range (int (length sl))" "int_range (int (length mm))" "bk < 3" "ca < 2"
  using assms by (auto simp: config_ok_def list_all_iff kept_def)

lemma length_kept: "length (kept ex t) \<le> length t"
  by (simp add: kept_def)

lemma config_tables_ok:
  assumes "config_ok mport sl mm bk ca"
  shows "tables_ok ([] # map fst (kept ex sl)) (map of_int (mport # map snd (kept ex sl)))
    (map fst (kept ex mm)) (map of_int (map snd (kept ex mm)))"
  using config_okD(6,7) [OF assms] config_okD(3,4) [OF assms, of ex] length_kept [of ex sl] length_kept [of ex mm]
  by (simp add: tables_ok_def int_range_def INT_MAX_def)


definition example_text :: "u8 list" where
  "example_text = concat (map (\<lambda>w. w @ [10])
     (config_words 19090 [([49], 80), ([50], 81), ([51], 82)] [([52], 90)] 1 0))"

lemma words_lines:
  assumes "list_all (\<lambda>w. list_all (\<lambda>c. \<not> isspace c) w \<and> w \<noteq> []) ws"
  shows "words (concat (map (\<lambda>w. w @ [10]) ws)) = ws"
  using assms
proof (induction ws)
  case Nil
  then show ?case by (simp add: words.simps)
next
  case (Cons w ws)
  have "isspace 10" by (simp add: isspace_def)
  from words_append_space [OF this, of w] words_token [of w] Cons show ?case by simp
qed

lemma ascii_nonspace: "list_all (\<lambda>c. \<not> isspace c) (ascii s) = list_all (\<lambda>c. \<not> isspace (of_nat (of_char c))) s"
  by (simp add: ascii_def list_all_iff)

lemma example_words: "words example_text = config_words 19090 [([49], 80), ([50], 81), ([51], 82)] [([52], 90)] 1 0"
  unfolding example_text_def
  by (rule words_lines)
    (simp add: config_words_def print_int_nonspace backend_names_def cache_names_def ascii_def, simp add: isspace_def)

definition example_argv :: "u8 list list" where
  "example_argv = [[97], ascii ''----exclude'', [50, 58, 56, 49]]"

lemma example_excludes: "param_excludes (read_params example_argv) = Ret [([50], 81)]"
  by (simp add: example_argv_def read_params_def param_excludes_def atoi_def atoll_def isspace_def isdigit_def
    LONG_MIN_def LONG_MAX_def)


section \<open>Restarting a cluster\<close>

lemma set_params_restart:
  assumes "argv \<noteq> []" "odd (length argv)"
  shows "read_params (argv @ args) = set_params (read_params argv) args"
  using assms by (cases argv) (simp_all add: read_params_def set_params_append)

text \<open>
  C27. A restart drops exactly the nodes that gave no sign of life for five seconds and those the
  restart command could not be sent to: \<^verbatim>\<open>RcMasterAliveListen\<close> finds them, \<^verbatim>\<open>RestartCluster\<close> takes
  the lock, and with the command line built for Windows the new process reads the same list back
  from its \<^verbatim>\<open>----exclude\<close> option (for addresses without white space, colon or semicolon) and waits
  for the old process; a further round while the lock is held starts no second restart.
\<close>

theorem restart_excludes_dead_nodes:
  assumes "RcMasterAliveListen_round send_fails now lv = (Some ex, lv')" "exclude_ok ex"
    and "odd (length (words cmd))" "int_range hnd"
  shows "param_excludes (read_params (words (restart_command_line cmd hnd ex))) = Ret ex
    \<and> map_option atoi (read_params (words (restart_command_line cmd hnd ex)) (ascii ''----restart'')) = Some hnd
    \<and> set ex = node_pair lv ` {i. 1 \<le> i \<and> i < length (lv_hosts lv)
         \<and> (5000 < int now - int (lv_clocks lv ! i) \<or> send_fails i)}
    \<and> fst (RcMasterAliveListen_round send_fails' now' lv') = None"
proof -
  have dead: "map (node_pair lv) (dead_nodes now lv) \<noteq> []" and free: "\<not> lv_restart_lock lv"
    using assms(1) by (auto simp: RcMasterAliveListen_round_def RestartCluster_def Let_def split: if_splits)
  then have ex: "ex = map (node_pair lv) (dead_nodes now lv)
      @ map (node_pair lv) (filter send_fails [1..<length (lv_hosts lv)])" "lv_restart_lock lv'"
    using assms(1) by (auto simp: RcMasterAliveListen_round_def RestartCluster_def Let_def node_pair_def split: if_splits)
  then have "ex \<noteq> []" using dead by simp
  note line = words_restart_command_line [OF assms(2) this]
  have ne: "words cmd \<noteq> []" using assms(3) by auto
  have opt: "ascii ''----exclude'' \<noteq> ascii ''----restart''" by (simp add: ascii_def)
  have par: "read_params (words (restart_command_line cmd hnd ex)) = (read_params (words cmd))
      (ascii ''----restart'' \<mapsto> print_int hnd, ascii ''----exclude'' \<mapsto> exclude_list ex)"
    by (simp add: line set_params_restart [OF ne assms(3)])
  have "param_excludes (read_params (words (restart_command_line cmd hnd ex))) = Ret ex"
    by (rule param_excludes_list [OF _ assms(2)]) (simp add: par)
  moreover have "map_option atoi (read_params (words (restart_command_line cmd hnd ex)) (ascii ''----restart'')) = Some hnd"
    using assms(4) opt by (simp add: par atoi_print_int int_range_def)
  moreover have "set ex = node_pair lv ` {i. 1 \<le> i \<and> i < length (lv_hosts lv)
      \<and> (5000 < int now - int (lv_clocks lv ! i) \<or> send_fails i)}"
    by (auto simp: ex(1) dead_nodes_def)
  moreover have "fst (RcMasterAliveListen_round send_fails' now' lv') = None"
    using ex(2) by (simp add: RcMasterAliveListen_round_def RestartCluster_def Let_def)
  ultimately show ?thesis by blast
qed

definition example_liveness :: liveness where
  "example_liveness = \<lparr>lv_hosts = [[], [49], [50], [51]], lv_ports = [70, 80, 81, 82], lv_clocks = [0, 9000, 2000, 9000],
     lv_restart_lock = False, lv_closing = False, lv_sent = []\<rparr>"

theorem restart_excludes_dead_nodes_witness:
  "\<exists>lv'. RcMasterAliveListen_round (\<lambda>i. i = 3) 10000 example_liveness = (Some [([50], 81), ([51], 82)], lv')
    \<and> param_excludes (read_params (words (restart_command_line [97] 7 [([50], 81), ([51], 82)]))) = Ret [([50], 81), ([51], 82)]
    \<and> fst (RcMasterAliveListen_round (\<lambda>i. False) 20000 lv') = None"
proof -
  obtain lv' where run: "RcMasterAliveListen_round (\<lambda>i. i = 3) 10000 example_liveness = (Some [([50], 81), ([51], 82)], lv')"
    by (simp add: RcMasterAliveListen_round_def RestartCluster_def dead_nodes_def node_pair_def example_liveness_def upt_conv_Cons Let_def)
  have ok: "exclude_ok [([50], 81), ([51], 82)]" "int_range 7"
    by (simp_all add: exclude_ok_def addr_ok_def int_range_def isspace_def INT_MIN_def INT_MAX_def)
  have cmd: "words [97] = [[97]]" by (rule words_token) (simp_all add: isspace_def)
  show ?thesis
    using restart_excludes_dead_nodes [OF run ok(1), of "[97]" 7 "\<lambda>i. False" 20000] ok(2) run by (auto simp: cmd)
qed

text \<open>
  On Linux the restart is broken twice. The new argument vector is written into an array that
  has room for four pointers whatever the number of arguments, so that the code writes past it
  as soon as the process was started with an argument, or a node is to be excluded; and where
  the write does no harm, the option and its list are one argument, so that the new process,
  started with an even number of arguments before, finds no \<^verbatim>\<open>----exclude\<close> option (if it had none)
  and keeps the dead nodes.
\<close>

theorem linux_restart_forgets:
  assumes "odd (length argv)"
  shows "(2 \<le> length argv \<or> ex \<noteq> []) = (RestartCurrentProcess argv pid ex = Indeterminate)
    \<and> param_excludes (read_params (restart_args argv pid ex))
      = (if read_params argv (ascii ''----exclude'') = None then Ret [] else param_excludes (read_params argv))"
proof -
  have ne: "argv \<noteq> []" using assms by auto
  have opt: "ascii ''----exclude'' \<noteq> ascii ''----restart''" by (simp add: ascii_def)
  have "read_params (restart_args argv pid ex) = (read_params argv)(ascii ''----restart'' \<mapsto> print_int pid)"
    by (simp add: restart_args_def set_params_restart [OF ne assms])
  then have "param_excludes (read_params (restart_args argv pid ex))
      = (if read_params argv (ascii ''----exclude'') = None then Ret [] else param_excludes (read_params argv))"
    using opt by (auto simp: param_excludes_def)
  moreover have "(2 \<le> length argv \<or> ex \<noteq> []) = (RestartCurrentProcess argv pid ex = Indeterminate)"
    using ne by (cases argv) (auto simp: RestartCurrentProcess_def restart_slots_def restart_args_def Let_def Suc_le_eq)
  ultimately show ?thesis by blast
qed

theorem linux_restart_forgets_witness:
  "RestartCurrentProcess [[97]] 7 [([50], 81)] = Indeterminate
    \<and> param_excludes (read_params (restart_args [[97]] 7 [([50], 81)])) = Ret []"
  using linux_restart_forgets [of "[[97]]" "[([50], 81)]" 7] by (simp add: read_params_def)

end
