(* ===== verification/Dogee_Csv.thy ===== *)
theory Dogee_Csv
  imports Dogee_Text
begin

text \<open>
  \<^verbatim>\<open>ParseCSV\<close> of \<^verbatim>\<open>Dogee/DogeeShared.cpp\<close>: the 2048-byte buffer, the scan that cuts it at commas and
  line ends, the carry of an unfinished cell to the next \<^verbatim>\<open>fgets\<close>, the callback, and the file that
  remembers where a line starts; and \<^verbatim>\<open>SkipFileToLine\<close> with its own position files.
\<close>

section \<open>fgets\<close>

text \<open>
  At most \<open>n\<close> bytes, up to and including a line end; the flag says that the end of the file was
  met on the way.
\<close>

fun fgets_take :: "nat \<Rightarrow> u8 list \<Rightarrow> u8 list \<times> u8 list \<times> bool" where
  "fgets_take 0 cs = ([], cs, False)"
| "fgets_take (Suc n) [] = ([], [], True)"
| "fgets_take (Suc n) (c # cs) =
     (if c = 10 then ([c], cs, False)
      else let (xs, rest, eof) = fgets_take n cs in (c # xs, rest, eof))"

section \<open>The state of ParseCSV\<close>

text \<open>
  A call of the callback is the cell, the line and the index in the line. \<^verbatim>\<open>func\<close> decides from the
  calls so far and the new one whether to go on. The line and cell counters are unbounded here:
  the code counts them in \<^verbatim>\<open>int\<close>, which a file of fewer than 2^31 lines and cells does not leave.
\<close>

type_synonym csv_call = "u8 list \<times> int \<times> int"
type_synonym csv_func = "csv_call list \<Rightarrow> csv_call \<Rightarrow> bool"

record csv =
  cs_buf :: "u8 list"
  cs_cnt :: int
  cs_line :: int
  cs_lagacy :: nat
  cs_unread :: "u8 list"
  cs_ftell :: nat
  cs_feof :: bool
  cs_calls :: "csv_call list"
  cs_cache :: "u8 list option"

text \<open>
  \<^verbatim>\<open>fgets (st, 2048 - lagacy, f)\<close>: with room for the terminator only it stores just that; when it
  meets the end of the file before any byte the buffer stays as it is.
\<close>

definition csv_fgets :: "csv \<Rightarrow> csv" where
  "csv_fgets st =
     (let room = 2048 - cs_lagacy st - 1; (xs, rest, eof) = fgets_take room (cs_unread st);
          st' = st\<lparr>cs_unread := rest, cs_ftell := cs_ftell st + length xs, cs_feof := eof\<rparr>
      in if eof \<and> xs = [] then st'
         else st'\<lparr>cs_buf := overwrite (cs_buf st) (cs_lagacy st) (xs @ [0])\<rparr>)"

text \<open>\<^verbatim>\<open>func (last, line, cnt)\<close>: the flag says that the callback asked to stop.\<close>

definition csv_invoke :: "csv_func \<Rightarrow> nat \<Rightarrow> csv \<Rightarrow> bool \<times> csv" where
  "csv_invoke func lst st =
     (let c = (takeWhile (\<lambda>x. x \<noteq> 0) (drop lst (cs_buf st)), cs_line st, cs_cnt st)
      in (\<not> func (cs_calls st) c, st\<lparr>cs_calls := cs_calls st @ [c]\<rparr>))"

definition csv_report :: "csv_func \<Rightarrow> int \<Rightarrow> nat \<Rightarrow> csv \<Rightarrow> bool \<times> csv" where
  "csv_report func skip lst st = (if skip \<le> cs_line st then csv_invoke func lst st else (False, st))"

definition csv_mark :: "int \<Rightarrow> bool \<Rightarrow> nat \<Rightarrow> csv \<Rightarrow> csv" where
  "csv_mark skip use_cache p st =
     (if use_cache \<and> cs_line st + 1 = skip
      then st\<lparr>cs_cache := Some (print_int (int (cs_ftell st)
                - (int (length (takeWhile (\<lambda>x. x \<noteq> 0) (drop p (cs_buf st)))) - 1)))\<rparr>
      else st)"

text \<open>The \<^verbatim>\<open>while (*p)\<close> loop. The result holds whether the callback stopped it, \<^verbatim>\<open>p\<close> and \<^verbatim>\<open>last\<close>.\<close>

lemma csv_scan_buffer [simp]:
  "length (cs_buf (csv_mark skip uc p st)) = length (cs_buf st)"
  "length (cs_buf (snd (csv_report func skip lst st))) = length (cs_buf st)"
  by (simp_all add: csv_mark_def csv_report_def csv_invoke_def Let_def)

function csv_scan :: "csv_func \<Rightarrow> int \<Rightarrow> bool \<Rightarrow> nat \<Rightarrow> nat \<Rightarrow> csv \<Rightarrow> (bool \<times> nat \<times> nat \<times> csv) cxx" where
  "csv_scan func skip uc p lst st =
     (if length (cs_buf st) \<le> p then Indeterminate
      else let c = cs_buf st ! p
      in if c = 0 then Ret (False, p, lst, st)
      else if c = 10 then
        (let st1 = csv_mark skip uc p st; st2 = st1\<lparr>cs_buf := (cs_buf st1)[p := 0]\<rparr>;
             r = csv_report func skip lst st2
         in if fst r then Ret (True, p, lst, snd r)
            else csv_scan func skip uc (p + 1) (p + 1) ((snd r)\<lparr>cs_line := cs_line (snd r) + 1, cs_cnt := 0\<rparr>))
      else if c = 44 then
        (let st2 = st\<lparr>cs_buf := (cs_buf st)[p := 0]\<rparr>; r = csv_report func skip lst st2
         in if fst r then Ret (True, p, lst, snd r)
            else csv_scan func skip uc (p + 1) (p + 1) ((snd r)\<lparr>cs_cnt := cs_cnt (snd r) + 1\<rparr>))
      else csv_scan func skip uc (p + 1) lst st)"
  by pat_completeness auto

termination
  by (relation "measure (\<lambda>(_, _, _, p, _, st). length (cs_buf st) - p)") (auto simp: Let_def)

text \<open>The outer loop; \<open>None\<close> says that it does not end.\<close>

partial_function (option) csv_loop :: "csv_func \<Rightarrow> int \<Rightarrow> bool \<Rightarrow> csv \<Rightarrow> csv cxx option" where
  "csv_loop func skip uc st =
     (case csv_scan func skip uc (cs_lagacy st) 0 (csv_fgets st) of
        Ret (stopped, p, lst, st2) \<Rightarrow>
          if stopped then Some (Ret st2)
          else if p = 0 \<or> cs_feof st2 then Some (Ret (snd (csv_report func skip lst st2)))
          else csv_loop func skip uc
                 (st2\<lparr>cs_lagacy := p - lst, cs_buf := overwrite (cs_buf st2) 0 (take (p - lst) (drop lst (cs_buf st2)))\<rparr>)
      | _ \<Rightarrow> Some Indeterminate)"

text \<open>
  The start: \<open>junk\<close> is what the stack buffer happens to hold, \<open>content\<close> the file, \<open>cache\<close> the
  position file of line \<open>skip\<close>. A file that cannot be opened gives a null pointer to \<^verbatim>\<open>fgets\<close>.
\<close>

definition csv_start :: "u8 list \<Rightarrow> u8 list \<Rightarrow> u8 list option \<Rightarrow> csv" where
  "csv_start junk content cache =
     \<lparr>cs_buf = junk[0 := 0], cs_cnt = 0, cs_line = 0, cs_lagacy = 0, cs_unread = content, cs_ftell = 0,
      cs_feof = False, cs_calls = [], cs_cache = cache\<rparr>"

definition csv_seek :: "int \<Rightarrow> int \<Rightarrow> csv \<Rightarrow> csv" where
  "csv_seek skip fp st =
     (let st' = (if 0 \<le> fp then st\<lparr>cs_unread := drop (nat fp) (cs_unread st), cs_ftell := nat fp\<rparr> else st)
      in st'\<lparr>cs_line := skip\<rparr>)"

definition ParseCSV :: "u8 list \<Rightarrow> u8 list option \<Rightarrow> csv_func \<Rightarrow> int \<Rightarrow> bool \<Rightarrow> u8 list option \<Rightarrow> csv cxx option" where
  "ParseCSV junk content func skip uc cache =
     (case content of
        None \<Rightarrow> Some Indeterminate
      | Some text \<Rightarrow>
          let st = csv_start junk text cache
          in if uc \<and> cache \<noteq> None
             then (case fst (extract_int LONG_MIN LONG_MAX (open_istream cache)) of
                     None \<Rightarrow> Some Indeterminate
                   | Some fp \<Rightarrow> csv_loop func skip uc (csv_seek skip fp st))
             else csv_loop func skip uc st)"

section \<open>SkipFileToLine\<close>

text \<open>
  The stream is a file and a position; \<^verbatim>\<open>tellg\<close> of a stream that ran into the end is -1. The
  position file for a line belongs to the same path.
\<close>

definition cache_path :: "u8 list \<Rightarrow> nat \<Rightarrow> u8 list" where
  "cache_path path mark = path @ [46] @ print_int (int mark) @ ascii ''.cache''"

definition WriteFilePointerCache :: "files \<Rightarrow> int \<Rightarrow> u8 list \<Rightarrow> nat \<Rightarrow> files" where
  "WriteFilePointerCache fs pos path mark = fs(cache_path path mark \<mapsto> print_int pos)"

text \<open>\<^verbatim>\<open>file.ignore (max, '\n')\<close>, \<open>n\<close> times, from a position: \<open>None\<close> when the end was met.\<close>

fun ignore_lines :: "nat \<Rightarrow> u8 list \<Rightarrow> nat \<Rightarrow> nat option" where
  "ignore_lines 0 cs pos = Some pos"
| "ignore_lines (Suc n) [] pos = None"
| "ignore_lines (Suc n) (c # cs) pos =
     (if c = 10 then ignore_lines n cs (pos + 1) else ignore_lines (Suc n) cs (pos + 1))"

text \<open>The new position of the stream and the files; the position is \<open>None\<close> when the stream failed.\<close>

definition RestoreFilePointerCache :: "files \<Rightarrow> u8 list \<Rightarrow> nat \<Rightarrow> nat option option cxx" where
  "RestoreFilePointerCache fs path mark =
     (case fs (cache_path path mark) of
        None \<Rightarrow> Ret None
      | Some bs \<Rightarrow> (case fst (extract_int (- (2 ^ 64 - 1)) (2 ^ 64 - 1) (open_istream (Some bs))) of
            None \<Rightarrow> Indeterminate
          | Some f \<Rightarrow> let u = f mod 2 ^ 64 in Ret (Some (if u \<le> LONG_MAX then Some (nat u) else None))))"

definition SkipFileToLine :: "files \<Rightarrow> u8 list \<Rightarrow> u8 list \<Rightarrow> nat \<Rightarrow> (nat option \<times> files) cxx" where
  "SkipFileToLine fs content path num =
     (if num = 0 then Ret (Some 0, fs)
      else cxx_bind (RestoreFilePointerCache fs path num) (\<lambda>r. case r of
          Some pos \<Rightarrow> Ret (pos, fs)
        | None \<Rightarrow> let pos = ignore_lines num content 0
                   in Ret (pos, WriteFilePointerCache fs (case pos of None \<Rightarrow> -1 | Some p \<Rightarrow> int p) path num)))"

end
