(* ===== verification/Dogee_CsvFacts.thy ===== *)
theory Dogee_CsvFacts
  imports Dogee_Csv
begin

text \<open>
  \<^verbatim>\<open>ParseCSV\<close> against a reference that reads the text byte by byte: which cells it reports and in
  which order, when it ends, what the position file is worth, and where the carry over of cells in
  the buffer goes wrong.
\<close>

section \<open>The reference\<close>

definition is_sep :: "u8 \<Rightarrow> bool" where
  "is_sep c \<longleftrightarrow> c = 10 \<or> c = 44"

text \<open>The finished cells of a text, and the unfinished one with its place.\<close>

fun csv_ref :: "u8 list \<Rightarrow> int \<Rightarrow> int \<Rightarrow> u8 list \<Rightarrow> csv_call list \<times> csv_call" where
  "csv_ref acc line cnt [] = ([], (acc, line, cnt))"
| "csv_ref acc line cnt (c # cs) =
     (if c = 10 then let (cells, r) = csv_ref [] (line + 1) 0 cs in ((acc, line, cnt) # cells, r)
      else if c = 44 then let (cells, r) = csv_ref [] line (cnt + 1) cs in ((acc, line, cnt) # cells, r)
      else csv_ref (acc @ [c]) line cnt cs)"

definition from_line :: "int \<Rightarrow> csv_call list \<Rightarrow> csv_call list" where
  "from_line skip cells = filter (\<lambda>(_, l, _). skip \<le> l) cells"

text \<open>A callback that is offered calls until it refuses one.\<close>

fun offer :: "csv_func \<Rightarrow> csv_call list \<Rightarrow> csv_call list \<Rightarrow> bool \<times> csv_call list" where
  "offer func hist [] = (False, hist)"
| "offer func hist (c # cs) = (if func hist c then offer func (hist @ [c]) cs else (True, hist @ [c]))"

text \<open>The position file: the offset after the line end that starts line \<open>skip\<close>, counted from the end.\<close>

fun mark_ref :: "int \<Rightarrow> bool \<Rightarrow> int \<Rightarrow> nat \<Rightarrow> u8 list option \<Rightarrow> u8 list \<Rightarrow> u8 list option" where
  "mark_ref skip uc line pos cache [] = cache"
| "mark_ref skip uc line pos cache (c # cs) =
     (if c = 10 then mark_ref skip uc (line + 1) pos
        (if uc \<and> line + 1 = skip then Some (print_int (int pos - int (length cs))) else cache) cs
      else mark_ref skip uc line pos cache cs)"

definition zero_sep :: "u8 \<Rightarrow> u8" where
  "zero_sep c = (if is_sep c then 0 else c)"

abbreviation plain :: "u8 list \<Rightarrow> bool" where
  "plain xs \<equiv> (\<forall>c\<in>set xs. c \<noteq> 0 \<and> \<not> is_sep c)"

lemma map_zero_sep: "plain xs \<Longrightarrow> map zero_sep xs = xs"
  by (simp add: zero_sep_def map_idI)

lemma csv_ref_append:
  "csv_ref acc line cnt (xs @ ys) =
     (let (c1, (a, l, n)) = csv_ref acc line cnt xs; (c2, r) = csv_ref a l n ys in (c1 @ c2, r))"
  by (induction acc line cnt xs rule: csv_ref.induct) (auto simp: Let_def split: prod.splits)

lemma offer_append:
  "offer func hist (xs @ ys) = (let (stop, h) = offer func hist xs in if stop then (True, h) else offer func h ys)"
  by (induction func hist xs rule: offer.induct) auto

lemma from_line_simps [simp]:
  "from_line skip [] = []"
  "from_line skip ((x, l, n) # cs) = (if skip \<le> l then (x, l, n) # from_line skip cs else from_line skip cs)"
  "from_line skip (xs @ ys) = from_line skip xs @ from_line skip ys"
  by (simp_all add: from_line_def)

text \<open>The unfinished cell is the end of the text.\<close>

lemma csv_ref_rest:
  assumes "csv_ref acc line cnt cs = (cells, (r, l, n))" "plain acc" "0 \<notin> set cs"
  shows "plain r \<and> (\<exists>pre. acc @ cs = pre @ r)"
  using assms
proof (induction acc line cnt cs arbitrary: cells rule: csv_ref.induct)
  case (2 acc line cnt c cs)
  show ?case
  proof (cases "is_sep c")
    case True
    then obtain cells' where r: "csv_ref [] (if c = 10 then line + 1 else line) (if c = 10 then 0 else cnt + 1) cs = (cells', (r, l, n))"
      using 2(4) by (auto simp: is_sep_def split: prod.splits if_splits)
    have "plain r \<and> (\<exists>pre. [] @ cs = pre @ r)"
    proof (cases "c = 10")
      case True
      then show ?thesis using 2(1) [OF True] r 2(6) by simp
    next
      case False
      then have "c = 44" using \<open>is_sep c\<close> by (simp add: is_sep_def)
      then show ?thesis using 2(2) [OF False] r 2(6) by simp
    qed
    then obtain pre where "plain r" "cs = pre @ r" by auto
    then have "acc @ c # cs = (acc @ c # pre) @ r" by simp
    then show ?thesis using \<open>plain r\<close> by blast
  next
    case False
    then have c: "c \<noteq> 10" "c \<noteq> 44" by (simp_all add: is_sep_def)
    have "csv_ref (acc @ [c]) line cnt cs = (cells, (r, l, n))" using 2(4) c by simp
    from 2(3) [OF c this] 2(5,6) False show ?thesis by simp
  qed
qed simp

section \<open>The scan\<close>

text \<open>
  The buffer seen from the scan: what is behind \<^verbatim>\<open>last\<close>, the cell read so far, the bytes still to
  read, the terminator and whatever follows it.
\<close>

lemma scan_cell:
  assumes "buf = pre @ acc @ y # zs" "plain acc"
  shows "takeWhile (\<lambda>x. x \<noteq> 0) (drop (length pre) (buf[length pre + length acc := 0])) = acc"
proof -
  have "buf[length pre + length acc := 0] = pre @ acc @ 0 # zs"
    using assms(1) by (simp add: list_update_append)
  moreover have "takeWhile (\<lambda>x. x \<noteq> 0) (acc @ 0 # zs) = acc" using assms(2) by (induction acc) auto
  ultimately show ?thesis by simp
qed

lemma scan_strlen:
  assumes "buf = xs @ cs @ 0 # zs" "0 \<notin> set cs"
  shows "takeWhile (\<lambda>x. x \<noteq> 0) (drop (length xs) buf) = cs"
  using assms by (simp add: takeWhile_append)

declare csv_scan.simps [simp del]

text \<open>The state after a separator was cut out and its cell reported.\<close>

definition cut_state :: "int \<Rightarrow> bool \<Rightarrow> nat \<Rightarrow> u8 \<Rightarrow> u8 list \<Rightarrow> csv \<Rightarrow> csv" where
  "cut_state skip uc p c rest st = st\<lparr>cs_buf := (cs_buf st)[p := 0],
     cs_cache := (if c = 10 \<and> uc \<and> cs_line st + 1 = skip then Some (print_int (int (cs_ftell st) - int (length rest)))
       else cs_cache st)\<rparr>"

definition next_place :: "u8 \<Rightarrow> csv \<Rightarrow> csv" where
  "next_place c st = (if c = 10 then st\<lparr>cs_line := cs_line st + 1, cs_cnt := 0\<rparr> else st\<lparr>cs_cnt := cs_cnt st + 1\<rparr>)"

lemma csv_scan_sep:
  assumes "cs_buf st = xs @ (c # rest) @ 0 # junk" "is_sep c" "0 \<notin> set (c # rest)"
  shows "csv_scan func skip uc (length xs) lst st =
    (let r = csv_report func skip lst (cut_state skip uc (length xs) c rest st)
     in if fst r then Ret (True, length xs, lst, snd r)
        else csv_scan func skip uc (length xs + 1) (length xs + 1) (next_place c (snd r)))"
proof -
  have at: "cs_buf st ! length xs = c" "\<not> length (cs_buf st) \<le> length xs" using assms(1) by simp_all
  have len: "length (takeWhile (\<lambda>x. x \<noteq> 0) (drop (length xs) (cs_buf st))) = Suc (length rest)"
    using scan_strlen [OF assms(1,3)] by simp
  have "c \<noteq> 0" using assms(3) by auto
  then consider "c = 10" | "c = 44" "c \<noteq> 10" using assms(2) by (auto simp: is_sep_def)
  then show ?thesis
  proof cases
    case 1
    then have "(csv_mark skip uc (length xs) st)\<lparr>cs_buf := (cs_buf (csv_mark skip uc (length xs) st))[length xs := 0]\<rparr>
        = cut_state skip uc (length xs) c rest st"
      by (simp add: csv_mark_def cut_state_def len)
    then show ?thesis using 1 at by (subst csv_scan.simps) (simp add: Let_def next_place_def)
  next
    case 2
    then have "st\<lparr>cs_buf := (cs_buf st)[length xs := 0]\<rparr> = cut_state skip uc (length xs) c rest st"
      by (simp add: cut_state_def)
    then show ?thesis using 2 at by (subst csv_scan.simps) (simp add: Let_def next_place_def)
  qed
qed

lemma csv_scan_ref:
  assumes "cs_buf st = pre @ acc @ rest @ 0 # junk" "plain acc" "0 \<notin> set rest"
    and "csv_ref acc (cs_line st) (cs_cnt st) rest = (cells, (a, l, n))"
    and "offer func (cs_calls st) (from_line skip cells) = (stop, calls)"
  shows "\<exists>p lst st'. csv_scan func skip uc (length pre + length acc) (length pre) st = Ret (stop, p, lst, st')
    \<and> cs_calls st' = calls
    \<and> (\<not> stop \<longrightarrow> p = length pre + length acc + length rest \<and> lst + length a = p
         \<and> st' = st\<lparr>cs_buf := pre @ map zero_sep (acc @ rest) @ 0 # junk, cs_line := l, cs_cnt := n, cs_calls := calls,
               cs_cache := mark_ref skip uc (cs_line st) (cs_ftell st) (cs_cache st) rest\<rparr>)"
  using assms
proof (induction rest arbitrary: pre acc st cells)
  case Nil
  then have "cs_buf st ! (length pre + length acc) = 0" by (simp add: nth_append)
  then show ?case using Nil map_zero_sep [of acc] by (subst csv_scan.simps) simp
next
  case (Cons c rest)
  let ?p = "length pre + length acc"
  have at: "\<not> length (cs_buf st) \<le> ?p" "cs_buf st ! ?p = c" "c \<noteq> 0" using Cons.prems(1,3) by (auto simp: nth_append)
  show ?case
  proof (cases "is_sep c")
    case False
    have "cs_buf st = pre @ (acc @ [c]) @ rest @ 0 # junk" "plain (acc @ [c])" "0 \<notin> set rest"
      "csv_ref (acc @ [c]) (cs_line st) (cs_cnt st) rest = (cells, (a, l, n))"
      using Cons.prems False at(3) by (auto simp: is_sep_def)
    note IH = Cons.IH [OF this Cons.prems(5)]
    have scan: "csv_scan func skip uc ?p (length pre) st = csv_scan func skip uc (?p + 1) (length pre) st"
      using at False by (subst csv_scan.simps) (simp add: is_sep_def)
    have mark: "mark_ref skip uc ln pos m (c # rest) = mark_ref skip uc ln pos m rest" for ln pos m
      using False by (simp add: is_sep_def)
    show ?thesis using IH unfolding scan mark by simp
  next
    case True
    let ?cut = "cut_state skip uc ?p c rest st" and ?cell = "(acc, cs_line st, cs_cnt st)"
    obtain cells' where cells: "cells = ?cell # cells'"
      "csv_ref [] (cs_line (next_place c st)) (cs_cnt (next_place c st)) rest = (cells', (a, l, n))"
      using Cons.prems(4) True by (auto simp: is_sep_def next_place_def split: prod.splits if_splits)
    have buf: "cs_buf st = (pre @ acc) @ (c # rest) @ 0 # junk" using Cons.prems(1) by simp
    have cut_buf: "cs_buf ?cut = pre @ acc @ 0 # rest @ 0 # junk"
      using buf by (simp add: cut_state_def list_update_append)
    have cell: "takeWhile (\<lambda>x. x \<noteq> 0) (drop (length pre) (cs_buf ?cut)) = acc"
      using scan_cell [of "cs_buf ?cut" pre acc 0 "rest @ 0 # junk"] cut_buf Cons.prems(2)
      by (simp add: list_update_append)
    have rep: "csv_report func skip (length pre) ?cut =
        (if skip \<le> cs_line st then (\<not> func (cs_calls st) ?cell, ?cut\<lparr>cs_calls := cs_calls st @ [?cell]\<rparr>) else (False, ?cut))"
      using cell by (simp add: csv_report_def csv_invoke_def Let_def) (simp add: cut_state_def)
    note step = csv_scan_sep [OF buf True Cons.prems(3), of func skip uc "length pre", simplified length_append]
    show ?thesis
    proof (cases "skip \<le> cs_line st \<and> \<not> func (cs_calls st) ?cell")
      case True
      then show ?thesis using Cons.prems(5) cells(1) by (simp add: step rep Let_def)
    next
      case go: False
      let ?calls = "if skip \<le> cs_line st then cs_calls st @ [?cell] else cs_calls st"
      let ?st = "next_place c (?cut\<lparr>cs_calls := ?calls\<rparr>)"
      have st: "cs_buf ?st = (pre @ acc @ [0]) @ [] @ rest @ 0 # junk" "cs_calls ?st = ?calls"
        "cs_line ?st = cs_line (next_place c st)" "cs_cnt ?st = cs_cnt (next_place c st)" "cs_ftell ?st = cs_ftell st"
        using cut_buf by (simp_all add: next_place_def cut_state_def)
      have cut: "?cut = ?cut\<lparr>cs_calls := cs_calls st\<rparr>" by (simp add: cut_state_def)
      have scan: "csv_scan func skip uc ?p (length pre) st = csv_scan func skip uc (?p + 1) (?p + 1) ?st"
        using go cut by (auto simp: step rep Let_def)
      have "offer func (cs_calls ?st) (from_line skip cells') = (stop, calls)"
        using Cons.prems(5) go cells(1) by (auto simp: st split: if_splits)
      moreover have "csv_ref [] (cs_line ?st) (cs_cnt ?st) rest = (cells', (a, l, n))" using cells(2) st by simp
      ultimately obtain p lst st' where
        res: "csv_scan func skip uc (?p + 1) (?p + 1) ?st = Ret (stop, p, lst, st')" "cs_calls st' = calls" and
        go': "\<not> stop \<longrightarrow> p = ?p + 1 + length rest \<and> lst + length a = p
          \<and> st' = ?st\<lparr>cs_buf := (pre @ acc @ [0]) @ map zero_sep rest @ 0 # junk, cs_line := l, cs_cnt := n, cs_calls := calls,
               cs_cache := mark_ref skip uc (cs_line ?st) (cs_ftell ?st) (cs_cache ?st) rest\<rparr>"
        using Cons.IH [OF st(1), of cells'] Cons.prems(3) by force
      have mark: "mark_ref skip uc (cs_line ?st) (cs_ftell ?st) (cs_cache ?st) rest
          = mark_ref skip uc (cs_line st) (cs_ftell st) (cs_cache st) (c # rest)"
        by (simp add: next_place_def cut_state_def)
      have zero: "(pre @ acc @ [0]) @ map zero_sep rest @ 0 # junk = pre @ map zero_sep (acc @ c # rest) @ 0 # junk"
        using map_zero_sep [OF Cons.prems(2)] \<open>is_sep c\<close> by (simp add: zero_sep_def)
      have same: "?st\<lparr>cs_buf := b, cs_line := l, cs_cnt := n, cs_calls := calls, cs_cache := m\<rparr>
          = st\<lparr>cs_buf := b, cs_line := l, cs_cnt := n, cs_calls := calls, cs_cache := m\<rparr>" for b m
        by (simp add: next_place_def cut_state_def)
      show ?thesis
        using res go' unfolding scan mark same zero by auto
    qed
  qed
qed

section \<open>Reading a piece of the file\<close>

lemma fgets_take_split:
  assumes "fgets_take n cs = (xs, rest, eof)"
  shows "cs = xs @ rest" "length xs \<le> n" "10 \<notin> set (butlast xs)" "eof \<Longrightarrow> rest = [] \<and> 10 \<notin> set xs"
    "\<not> eof \<Longrightarrow> n \<noteq> 0 \<Longrightarrow> xs \<noteq> []"
  using assms by (induction n cs arbitrary: xs rule: fgets_take.induct) (auto split: if_splits prod.splits)

lemma fgets_take_line:
  "10 \<notin> set cs \<Longrightarrow> length cs < n \<Longrightarrow> fgets_take n cs = (cs, [], True)"
  by (induction n cs rule: fgets_take.induct) auto

lemma fgets_take_terminated:
  "10 \<notin> set cs \<Longrightarrow> length cs < n \<Longrightarrow> fgets_take n (cs @ 10 # rest) = (cs @ [10], rest, False)"
  by (induction n cs rule: fgets_take.induct) auto

text \<open>A piece that ends before the last line \<open>w\<close> either leaves a line end before it or ends in front of it.\<close>

lemma fgets_take_before:
  assumes "fgets_take n (u @ 10 # w) = (xs, rest, eof)" "n \<noteq> 0"
  shows "\<not> eof \<and> ((\<exists>u'. rest = u' @ 10 # w) \<or> rest = w \<and> (\<exists>ys. xs = ys @ [10]))"
proof -
  note sp = fgets_take_split [OF assms(1)]
  have "\<not> eof"
  proof
    assume "eof"
    with sp(4) have "u @ 10 # w = xs" "10 \<notin> set xs" using sp(1) by auto
    then show False by (metis in_set_conv_decomp)
  qed
  moreover have "length xs \<le> Suc (length u)"
  proof (rule ccontr)
    assume "\<not> length xs \<le> Suc (length u)"
    then have long: "Suc (length u) < length xs" by simp
    then have "xs ! length u = 10" using sp(1) by (metis Suc_lessD nth_append nth_append_length)
    then have "butlast xs ! length u = 10" "length u < length (butlast xs)" using long by (auto simp: nth_butlast)
    then show False using sp(3) by (metis nth_mem)
  qed
  moreover have "\<exists>u'. rest = u' @ 10 # w" if "length xs \<le> length u"
    using sp(1) that by (intro exI [of _ "drop (length xs) u"]) (metis append_eq_append_conv_if)
  moreover have "rest = w \<and> (\<exists>ys. xs = ys @ [10])" if "length xs = Suc (length u)"
  proof -
    have "(u @ [10]) @ w = xs @ rest" using sp(1) by simp
    then have "u @ [10] = xs \<and> w = rest" using that by (subst (asm) append_eq_append_conv) simp_all
    then show ?thesis by blast
  qed
  ultimately show ?thesis by (metis le_SucE)
qed

definition at_last :: "u8 list \<Rightarrow> u8 list \<Rightarrow> u8 list \<Rightarrow> bool" where
  "at_last w acc cs \<longleftrightarrow> (\<exists>u. cs = u @ 10 # w) \<or> acc = [] \<and> cs = w"

lemma csv_ref_newline: "csv_ref acc line cnt (ys @ [10]) = (cells, (a, l, n)) \<Longrightarrow> a = [] \<and> n = 0"
  by (auto simp: csv_ref_append Let_def split: prod.splits)

lemma csv_ref_plain: "plain xs \<Longrightarrow> csv_ref acc line cnt xs = ([], (acc @ xs, line, cnt))"
  by (induction xs arbitrary: acc) (auto simp: is_sep_def)

text \<open>Cells that fit into the buffer: fewer than 2047 bytes.\<close>

fun cells_fit :: "nat \<Rightarrow> u8 list \<Rightarrow> bool" where
  "cells_fit k [] = True"
| "cells_fit k (c # cs) = (if is_sep c then cells_fit 0 cs else k + 1 \<le> 2046 \<and> cells_fit (k + 1) cs)"

lemma cells_fit_append:
  assumes "cells_fit (length acc) (xs @ rest)" "csv_ref acc line cnt xs = (cells, (a, l, n))" "length acc \<le> 2046"
  shows "cells_fit (length a) rest \<and> length a \<le> 2046"
  using assms
proof (induction acc line cnt xs arbitrary: cells rule: csv_ref.induct)
  case (2 acc line cnt c cs)
  consider "c = 10" | "c = 44" "c \<noteq> 10" | "c \<noteq> 10" "c \<noteq> 44" by auto
  then show ?case
  proof cases
    case 1
    then show ?thesis using 2(1) [OF 1] 2(4,5) by (auto simp: is_sep_def split: prod.splits)
  next
    case 2
    then show ?thesis using "2.IH"(2) [OF 2(2,1)] "2.prems"(1,2) by (auto simp: is_sep_def split: prod.splits)
  next
    case 3
    then show ?thesis using "2.IH"(3) [OF 3] "2.prems" by (simp add: is_sep_def)
  qed
qed simp

lemma mark_ref_append:
  assumes "csv_ref acc line cnt xs = (cells, (a, l, n))"
  shows "mark_ref skip uc line (pos + length rest) m (xs @ rest)
    = mark_ref skip uc l (pos + length rest) (mark_ref skip uc line pos m xs) rest"
  using assms
  by (induction acc line cnt xs arbitrary: cells m rule: csv_ref.induct) (auto split: prod.splits if_splits)

section \<open>The outer loop\<close>

text \<open>
  The loop head: the unfinished cell is at the start of the buffer, then what an earlier piece left
  behind it, up to a zero.
\<close>

definition csv_at :: "csv \<Rightarrow> u8 list \<Rightarrow> u8 list \<Rightarrow> bool" where
  "csv_at st acc stale \<longleftrightarrow> length (cs_buf st) = 2048 \<and> cs_lagacy st = length acc \<and> plain acc \<and> plain stale
     \<and> length acc \<le> 2046 \<and> 0 \<notin> set (cs_unread st) \<and> cells_fit (length acc) (cs_unread st)
     \<and> (\<exists>junk. cs_buf st = acc @ stale @ 0 # junk)"

lemma csv_atI:
  assumes "length b = 2048" "plain acc" "plain stale" "length acc \<le> 2046" "0 \<notin> set (cs_unread st)"
    "cells_fit (length acc) (cs_unread st)" "b = acc @ stale @ 0 # junk"
  shows "csv_at (st\<lparr>cs_lagacy := length acc, cs_buf := b\<rparr>) acc stale"
proof -
  have "\<exists>junk. b = acc @ stale @ 0 # junk" using assms(7) by (rule exI)
  with assms(1-6) show ?thesis unfolding csv_at_def by simp
qed

lemma fgets_at_end:
  assumes "csv_at st acc stale" "cs_unread st = []"
  shows "csv_fgets st = st\<lparr>cs_feof := True\<rparr>"
proof -
  obtain r where "2048 - length acc - 1 = Suc r" using assms(1) by (cases "2048 - length acc - 1") (auto simp: csv_at_def)
  then show ?thesis using assms by (simp add: csv_fgets_def csv_at_def)
qed

lemma fgets_piece:
  assumes "csv_at st acc stale" "cs_unread st \<noteq> []"
  obtains xs rest eof junk where
    "fgets_take (2047 - length acc) (cs_unread st) = (xs, rest, eof)" "xs \<noteq> []" "cs_unread st = xs @ rest"
    "csv_fgets st = st\<lparr>cs_unread := rest, cs_ftell := cs_ftell st + length xs, cs_feof := eof,
       cs_buf := acc @ xs @ 0 # junk\<rparr>"
    "length acc + length xs + 1 + length junk = 2048" "eof \<Longrightarrow> rest = []"
proof -
  obtain xs rest eof where t: "fgets_take (2047 - length acc) (cs_unread st) = (xs, rest, eof)"
    by (cases "fgets_take (2047 - length acc) (cs_unread st)") auto
  note sp = fgets_take_split [OF t]
  have room: "2047 - length acc \<noteq> 0" "2048 - cs_lagacy st - 1 = 2047 - length acc" "length (cs_buf st) = 2048"
    "length acc \<le> 2046" and lag: "cs_lagacy st = length acc"
    using assms(1) by (auto simp: csv_at_def)
  have ne: "xs \<noteq> []" using sp room(1) assms(2) by (cases eof) auto
  let ?junk = "drop (length acc + length xs + 1) (cs_buf st)"
  have "take (length acc) (cs_buf st) = acc" using assms(1) by (auto simp: csv_at_def)
  then have buf: "overwrite (cs_buf st) (length acc) (xs @ [0]) = acc @ xs @ 0 # ?junk"
    by (simp add: overwrite_def)
  show thesis
  proof (rule that [OF t ne sp(1), of ?junk])
    show "csv_fgets st = st\<lparr>cs_unread := rest, cs_ftell := cs_ftell st + length xs, cs_feof := eof,
       cs_buf := acc @ xs @ 0 # ?junk\<rparr>"
      using t ne lag buf room(2) by (simp add: csv_fgets_def Let_def)
    show "length acc + length xs + 1 + length ?junk = 2048" using sp(2) room(3,4) by simp
  qed (use sp(4) in blast)
qed

text \<open>The report after the loop: the unfinished cell and what stands behind it up to the zero.\<close>

lemma csv_report_rest:
  assumes "cs_buf st = pre @ cell @ 0 # junk" "plain cell"
  shows "cs_calls (snd (csv_report (func :: csv_func) skip (length pre) st))
    = cs_calls st @ from_line skip [(cell, cs_line st, cs_cnt st)]"
    "cs_cache (snd (csv_report func skip (length pre) st)) = cs_cache st"
proof -
  have "takeWhile (\<lambda>x. x \<noteq> 0) (drop (length pre) (cs_buf st)) = cell"
    using assms scan_strlen [OF assms(1)] by blast
  then show "cs_calls (snd (csv_report func skip (length pre) st))
      = cs_calls st @ from_line skip [(cell, cs_line st, cs_cnt st)]"
    "cs_cache (snd (csv_report func skip (length pre) st)) = cs_cache st"
    by (simp_all add: csv_report_def csv_invoke_def Let_def)
qed

text \<open>After a piece the loop head is reached again with less to read.\<close>

lemma csv_at_next:
  assumes "csv_at st acc stale" "cs_unread st = xs @ rest" "csv_ref acc ln ct xs = (c1, (a1, l1, n1))"
    and "cs_buf st2 = map zero_sep (acc @ xs) @ 0 # junk" "length (cs_buf st2) = 2048" "cs_unread st2 = rest"
    and "lst + length a1 = length acc + length xs"
  shows "csv_at (st2\<lparr>cs_lagacy := length acc + length xs - lst,
      cs_buf := overwrite (cs_buf st2) 0 (take (length acc + length xs - lst) (drop lst (cs_buf st2)))\<rparr>)
    a1 (takeWhile (\<lambda>x. x \<noteq> 0) (drop (length a1) (map zero_sep (acc @ xs))))"
proof -
  have ok: "plain acc" "0 \<notin> set (xs @ rest)" "cells_fit (length acc) (xs @ rest)" "length acc \<le> 2046"
    using assms(1,2) by (auto simp: csv_at_def)
  obtain pre where a1: "plain a1" "acc @ xs = pre @ a1"
    using csv_ref_rest [OF assms(3) ok(1)] ok(2) by auto
  have fit: "cells_fit (length a1) rest" "length a1 \<le> 2046" using cells_fit_append [OF ok(3) assms(3) ok(4)] by auto
  have len: "length acc + length xs = length pre + length a1"
    using a1(2) by (metis length_append)
  then have lst: "lst = length pre" "length acc + length xs - lst = length a1" using assms(7) by simp_all
  have part: "take (length a1) (drop lst (cs_buf st2)) = a1"
    using assms(4) a1 lst(1) map_zero_sep [OF a1(1)] by simp
  let ?d = "drop (length a1) (map zero_sep (acc @ xs))" and ?stale = "takeWhile (\<lambda>x. x \<noteq> 0)"
  have "length a1 \<le> length (map zero_sep (acc @ xs))" using len by simp
  then have buf: "overwrite (cs_buf st2) 0 a1 = a1 @ ?d @ 0 # junk" using assms(4) by (simp add: overwrite_def)
  have "\<exists>junk'. ?d @ 0 # junk = ?stale ?d @ 0 # junk'"
  proof (cases "0 \<in> set ?d")
    case True
    then obtain ys zs where d: "?d = ys @ 0 # zs" "0 \<notin> set ys" by (meson split_list_first)
    then have "?stale ?d = ys" using scan_strlen [of "ys @ 0 # zs" "[]" ys zs] by simp
    then show ?thesis using d(1) by simp
  next
    case False
    then have "?stale ?d = ?d" by (simp add: takeWhile_eq_all_conv) blast
    then show ?thesis by metis
  qed
  then obtain junk' where junk': "overwrite (cs_buf st2) 0 a1 = a1 @ ?stale ?d @ 0 # junk'" using buf by auto
  have "plain (?stale ?d)"
  proof
    fix c assume "c \<in> set (?stale ?d)"
    then have "c \<in> set ?d" "c \<noteq> 0" by (auto dest: set_takeWhileD)
    then obtain b where "c = zero_sep b" "c \<noteq> 0" by (auto simp del: drop_map dest!: in_set_dropD)
    then show "c \<noteq> 0 \<and> \<not> is_sep c" by (auto simp: zero_sep_def split: if_splits)
  qed
  moreover have "length (overwrite (cs_buf st2) 0 a1) = 2048" using assms(5) fit(2) by simp
  moreover have "0 \<notin> set (cs_unread st2)" "cells_fit (length a1) (cs_unread st2)" using ok(2) fit(1) assms(6) by simp_all
  ultimately show ?thesis
    unfolding lst(2) part using csv_atI [OF _ a1(1) _ fit(2) _ _ junk'] by blast
qed

text \<open>
  What is reported behind the unfinished cell at the end: nothing when the file ends within a last
  line that is shorter than the buffer; the first cell of the last line once more when the file
  ends with a line end (and that line is shorter than the buffer).
\<close>

definition first_cell :: "u8 list \<Rightarrow> u8 list" where
  "first_cell line = takeWhile (\<lambda>c. \<not> is_sep c) line"

definition tail_spec :: "u8 list \<Rightarrow> u8 list \<Rightarrow> u8 list \<Rightarrow> u8 list \<Rightarrow> bool" where
  "tail_spec acc stale cs tail \<longleftrightarrow>
     (\<forall>w. at_last w acc cs \<and> w \<noteq> [] \<and> 10 \<notin> set w \<and> length w < 2047 \<longrightarrow> tail = []) \<and>
     (\<forall>w. at_last (w @ [10]) acc cs \<and> 10 \<notin> set w \<and> length w < 2047 \<or> cs = [] \<and> acc = [] \<and> stale = first_cell w
        \<longrightarrow> tail = first_cell w)"

lemma tail_end: "tail_spec acc stale [] stale"
  by (auto simp: tail_spec_def at_last_def)

lemma tail_eof:
  assumes "fgets_take (2047 - length acc) cs = (xs, [], True)" "cs \<noteq> []" "length acc \<le> 2046"
  shows "tail_spec acc stale cs []"
proof -
  have room: "2047 - length acc \<noteq> 0" using assms(3) by simp
  have "\<not> at_last (w @ [10]) acc cs" if "10 \<notin> set w" "length w < 2047" for w
  proof
    assume "at_last (w @ [10]) acc cs"
    then consider u where "cs = u @ 10 # w @ [10]" | "acc = []" "cs = w @ [10]" by (auto simp: at_last_def)
    then show False
    proof cases
      case 1
      then show ?thesis using fgets_take_before [OF _ room] assms(1) by blast
    next
      case 2
      then show ?thesis using fgets_take_terminated [OF that, of "[]"] assms(1) by simp
    qed
  qed
  then show ?thesis using assms(2) by (auto simp: tail_spec_def)
qed

lemma stale_line:
  assumes "0 \<notin> set w"
  shows "takeWhile (\<lambda>x. x \<noteq> 0) (map zero_sep (w @ [10])) = first_cell w"
  using assms by (induction w) (auto simp: first_cell_def zero_sep_def is_sep_def)

lemma tail_step:
  assumes t: "fgets_take (2047 - length acc) cs = (xs, rest, False)" "cs = xs @ rest" "xs \<noteq> []" "length acc \<le> 2046"
    and ref: "csv_ref acc ln ct xs = (c1, (a1, l1, n1))" and nz: "0 \<notin> set cs"
    and tl: "tail_spec a1 (takeWhile (\<lambda>x. x \<noteq> 0) (drop (length a1) (map zero_sep (acc @ xs)))) rest tail"
  shows "tail_spec acc stale cs tail"
proof -
  have room: "2047 - length acc \<noteq> 0" using t(4) by simp
  have before: "at_last w a1 rest" if "cs = u @ 10 # w" for u w
  proof -
    from fgets_take_before [OF _ room, of u w xs rest False] t(1) that
    consider u' where "rest = u' @ 10 # w" | "rest = w" "\<exists>ys. xs = ys @ [10]" by auto
    then show ?thesis using csv_ref_newline ref by cases (auto simp: at_last_def)
  qed
  have one: "tail = []" if "at_last w acc cs" "w \<noteq> []" "10 \<notin> set w" "length w < 2047" for w
  proof -
    have "\<not> (acc = [] \<and> cs = w)" using fgets_take_line [OF that(3,4)] t(1) by auto
    then have "at_last w a1 rest" using that(1) before unfolding at_last_def by blast
    then show ?thesis using tl that unfolding tail_spec_def by blast
  qed
  have two: "tail = first_cell w" if "at_last (w @ [10]) acc cs" "10 \<notin> set w" "length w < 2047" for w
  proof (cases "acc = [] \<and> cs = w @ [10]")
    case True
    then have "xs = w @ [10]" "rest = []" using fgets_take_terminated [OF that(2,3), of "[]"] t(1) by auto
    moreover from this have "a1 = []" using csv_ref_newline ref by blast
    moreover have "0 \<notin> set w" using nz True by simp
    ultimately show ?thesis using tl True stale_line [of w] by (simp add: tail_spec_def)
  next
    case False
    then have "at_last (w @ [10]) a1 rest" using that(1) before unfolding at_last_def by blast
    then show ?thesis using tl that by (simp add: tail_spec_def)
  qed
  show ?thesis unfolding tail_spec_def using one two t(2,3) by blast
qed

lemma csv_loop_unfold:
  assumes "csv_scan func skip uc (cs_lagacy st) 0 (csv_fgets st) = Ret (stopped, p, lst, st2)"
  shows "csv_loop func skip uc st =
    (if stopped then Some (Ret st2)
     else if p = 0 \<or> cs_feof st2 then Some (Ret (snd (csv_report func skip lst st2)))
     else csv_loop func skip uc (st2\<lparr>cs_lagacy := p - lst,
       cs_buf := overwrite (cs_buf st2) 0 (take (p - lst) (drop lst (cs_buf st2)))\<rparr>))"
  using assms by (subst csv_loop.simps) simp

text \<open>
  \<open>csv_result\<close>: the loop ends; either the callback refused, or all finished cells were offered and
  then the unfinished one.
\<close>

definition csv_result :: "csv_func \<Rightarrow> int \<Rightarrow> bool \<Rightarrow> csv \<Rightarrow> bool \<Rightarrow> csv_call list \<Rightarrow> csv_call \<Rightarrow> u8 list \<Rightarrow> csv cxx option \<Rightarrow> bool" where
  "csv_result func skip uc st stop h r tail res \<longleftrightarrow> (\<exists>st'. res = Some (Ret st')
     \<and> (stop \<longrightarrow> cs_calls st' = h)
     \<and> (\<not> stop \<longrightarrow> cs_calls st' = h @ from_line skip [(fst r @ tail, snd r)]
          \<and> cs_cache st' = mark_ref skip uc (cs_line st) (cs_ftell st + length (cs_unread st)) (cs_cache st) (cs_unread st)))"

lemma csv_loop_end:
  assumes "csv_at st acc stale" "cs_unread st = []"
  shows "csv_result func skip uc st False (cs_calls st) (acc, cs_line st, cs_cnt st) stale (csv_loop func skip uc st)"
proof -
  obtain junk where buf: "cs_buf st = acc @ stale @ 0 # junk" and pl: "plain acc" "plain stale"
    and lag: "cs_lagacy st = length acc" using assms(1) by (auto simp: csv_at_def)
  let ?st = "st\<lparr>cs_feof := True\<rparr>"
  have f: "csv_fgets st = ?st" by (rule fgets_at_end [OF assms])
  have "\<exists>p lst st'. csv_scan func skip uc (length ([] :: u8 list) + length acc) (length ([] :: u8 list)) ?st = Ret (False, p, lst, st')
      \<and> cs_calls st' = cs_calls st
      \<and> (\<not> False \<longrightarrow> p = length ([] :: u8 list) + length acc + length stale \<and> lst + length (acc @ stale) = p
         \<and> st' = ?st\<lparr>cs_buf := [] @ map zero_sep (acc @ stale) @ 0 # junk, cs_line := cs_line st, cs_cnt := cs_cnt st, cs_calls := cs_calls st,
               cs_cache := mark_ref skip uc (cs_line ?st) (cs_ftell ?st) (cs_cache ?st) stale\<rparr>)"
    by (rule csv_scan_ref) (use buf pl in \<open>auto simp: csv_ref_plain\<close>)
  then have scan: "csv_scan func skip uc (cs_lagacy st) 0 (csv_fgets st)
      = Ret (False, length acc + length stale, 0, ?st\<lparr>cs_buf := (acc @ stale) @ 0 # junk, cs_cache := mark_ref skip uc (cs_line st) (cs_ftell st) (cs_cache st) stale\<rparr>)"
    using lag f map_zero_sep [OF pl(1)] map_zero_sep [OF pl(2)] by auto
  have nomark: "mark_ref skip uc ln pos m stale = m" for ln pos m
    using pl(2) by (induction stale arbitrary: ln m) (auto simp: is_sep_def)
  let ?st2 = "?st\<lparr>cs_buf := (acc @ stale) @ 0 # junk, cs_cache := mark_ref skip uc (cs_line st) (cs_ftell st) (cs_cache st) stale\<rparr>"
  have "csv_loop func skip uc st = Some (Ret (snd (csv_report func skip (length ([] :: u8 list)) ?st2)))"
    using csv_loop_unfold [OF scan] by simp
  moreover have "cs_calls (snd (csv_report func skip (length ([] :: u8 list)) ?st2)) = cs_calls ?st2 @ from_line skip [(acc @ stale, cs_line ?st2, cs_cnt ?st2)]"
    "cs_cache (snd (csv_report func skip (length ([] :: u8 list)) ?st2)) = cs_cache ?st2"
    by (rule csv_report_rest [where cell = "acc @ stale" and pre = "[]" and junk = junk]; use pl in auto)+
  ultimately show ?thesis using assms(2) nomark by (simp add: csv_result_def)
qed

lemma csv_loop_ref:
  assumes "csv_at st acc stale"
    and "csv_ref acc (cs_line st) (cs_cnt st) (cs_unread st) = (cells, r)"
    and "offer func (cs_calls st) (from_line skip cells) = (stop, h)"
  shows "\<exists>tail. csv_result func skip uc st stop h r tail (csv_loop func skip uc st)
    \<and> (\<not> stop \<longrightarrow> tail_spec acc stale (cs_unread st) tail)"
  using assms
proof (induction "length (cs_unread st)" arbitrary: st acc stale cells rule: less_induct)
  case less
  show ?case
  proof (cases "cs_unread st = []")
    case True
    then show ?thesis
      using csv_loop_end [OF less.prems(1) True, of func skip uc] less.prems(2,3) tail_end [of acc stale]
      by (intro exI [of _ stale]) simp
  next
    case False
    have ok: "plain acc" "length acc \<le> 2046" "0 \<notin> set (cs_unread st)" "cs_lagacy st = length acc"
      using less.prems(1) by (auto simp: csv_at_def)
    obtain xs rest eof junk where piece:
      "fgets_take (2047 - length acc) (cs_unread st) = (xs, rest, eof)" "xs \<noteq> []" "cs_unread st = xs @ rest"
      "csv_fgets st = st\<lparr>cs_unread := rest, cs_ftell := cs_ftell st + length xs, cs_feof := eof,
         cs_buf := acc @ xs @ 0 # junk\<rparr>"
      "length acc + length xs + 1 + length junk = 2048" "eof \<Longrightarrow> rest = []"
      using fgets_piece [OF less.prems(1) False] by blast
    obtain c1 a1 l1 n1 where ref1: "csv_ref acc (cs_line st) (cs_cnt st) xs = (c1, (a1, l1, n1))"
      by (metis prod.exhaust)
    obtain c2 where ref2: "csv_ref a1 l1 n1 rest = (c2, r)" "cells = c1 @ c2"
      using less.prems(2) by (auto simp: piece(3) csv_ref_append ref1 split: prod.splits)
    obtain stop1 h1 where off1: "offer func (cs_calls st) (from_line skip c1) = (stop1, h1)" by fastforce
    have off: "(stop, h) = (if stop1 then (True, h1) else offer func h1 (from_line skip c2))"
      using less.prems(3) by (simp add: ref2(2) offer_append off1)
    let ?st1 = "csv_fgets st"
    obtain p lst st2 where scan: "csv_scan func skip uc (length ([] :: u8 list) + length acc) (length ([] :: u8 list)) ?st1 = Ret (stop1, p, lst, st2)"
      "cs_calls st2 = h1" and go: "\<not> stop1 \<longrightarrow> p = length ([] :: u8 list) + length acc + length xs \<and> lst + length a1 = p
         \<and> st2 = ?st1\<lparr>cs_buf := [] @ map zero_sep (acc @ xs) @ 0 # junk, cs_line := l1, cs_cnt := n1, cs_calls := h1,
               cs_cache := mark_ref skip uc (cs_line ?st1) (cs_ftell ?st1) (cs_cache ?st1) xs\<rparr>"
      using csv_scan_ref [of ?st1 "[]" acc xs junk c1 a1 l1 n1 func skip stop1 h1 uc] ok piece(3) ref1 off1 by (auto simp: piece(4))
    have loop: "csv_loop func skip uc st = (if stop1 then Some (Ret st2)
        else if p = 0 \<or> cs_feof st2 then Some (Ret (snd (csv_report func skip lst st2)))
        else csv_loop func skip uc (st2\<lparr>cs_lagacy := p - lst,
          cs_buf := overwrite (cs_buf st2) 0 (take (p - lst) (drop lst (cs_buf st2)))\<rparr>))"
      using csv_loop_unfold [of func skip uc st stop1 p lst st2] scan(1) ok(4) by simp
    consider (stop) stop1 | (eof) "\<not> stop1" eof | (more) "\<not> stop1" "\<not> eof" by blast
    then show ?thesis
    proof cases
      case stop
      then show ?thesis using loop off scan(2) by (simp add: csv_result_def)
    next
      case eof
      have r: "c2 = []" "r = (a1, l1, n1)" and h: "\<not> stop" "h = h1"
        using ref2(1) piece(6) eof off by auto
      obtain pre where pre: "plain a1" "acc @ xs = pre @ a1"
        using csv_ref_rest [OF ref1 ok(1)] ok(3) piece(3) by auto
      have "length acc + length xs = length pre + length a1" using pre(2) by (metis length_append)
      then have lst: "lst = length (map zero_sep pre)" using go eof(1) by simp
      have st2: "cs_buf st2 = map zero_sep pre @ a1 @ 0 # junk" "cs_line st2 = l1" "cs_cnt st2 = n1" "cs_feof st2"
        "cs_cache st2 = mark_ref skip uc (cs_line st) (cs_ftell st + length xs) (cs_cache st) xs"
        using go eof pre(2) map_zero_sep [OF pre(1)] by (auto simp: piece(4))
      have "csv_loop func skip uc st = Some (Ret (snd (csv_report func skip lst st2)))" using loop eof(1) st2(4) by simp
      then have "csv_result func skip uc st stop h r [] (csv_loop func skip uc st)"
        using csv_report_rest [OF st2(1) pre(1), of func skip] h r scan(2) st2 piece(3,6) eof(2)
        by (simp add: csv_result_def lst)
      moreover have "tail_spec acc stale (cs_unread st) []"
        using tail_eof [OF _ False ok(2)] piece(1,6) eof(2) by simp
      ultimately show ?thesis by blast
    next
      case more
      let ?st3 = "st2\<lparr>cs_lagacy := length acc + length xs - lst,
        cs_buf := overwrite (cs_buf st2) 0 (take (length acc + length xs - lst) (drop lst (cs_buf st2)))\<rparr>"
      let ?stale = "takeWhile (\<lambda>x. x \<noteq> 0) (drop (length a1) (map zero_sep (acc @ xs)))"
      have st2: "cs_buf st2 = map zero_sep (acc @ xs) @ 0 # junk" "cs_line st2 = l1" "cs_cnt st2 = n1" "\<not> cs_feof st2"
        "cs_unread st2 = rest" "cs_ftell st2 = cs_ftell st + length xs"
        "cs_cache st2 = mark_ref skip uc (cs_line st) (cs_ftell st + length xs) (cs_cache st) xs"
        and p: "p = length acc + length xs" "lst + length a1 = length acc + length xs"
        using go more by (auto simp: piece(4))
      have len: "length (cs_buf st2) = 2048" using st2(1) piece(5) by simp
      have at: "csv_at ?st3 a1 ?stale"
        by (rule csv_at_next [OF less.prems(1) piece(3) ref1 st2(1) len st2(5) p(2)])
      have "csv_loop func skip uc st = csv_loop func skip uc ?st3" using loop more(1) st2(4) p piece(2) by simp
      moreover obtain tail where tail: "csv_result func skip uc ?st3 stop h r tail (csv_loop func skip uc ?st3)"
        "\<not> stop \<longrightarrow> tail_spec a1 ?stale rest tail"
        using less.hyps [OF _ at, of c2] piece(2,3) st2 ref2(1) off more(1) scan(2) by auto
      moreover have "mark_ref skip uc (cs_line st) (cs_ftell st + length (xs @ rest)) (cs_cache st) (xs @ rest)
          = mark_ref skip uc l1 (cs_ftell st + length (xs @ rest)) (cs_cache st2) rest"
        using mark_ref_append [OF ref1, of skip uc "cs_ftell st + length xs" rest "cs_cache st"] st2(7) by (simp add: add.assoc)
      ultimately have "csv_result func skip uc st stop h r tail (csv_loop func skip uc st)"
        using st2 by (simp add: csv_result_def piece(3) add.assoc)
      moreover have "\<not> stop \<longrightarrow> tail_spec acc stale (cs_unread st) tail"
        using tail_step [OF _ piece(3,2) ok(2) ref1 ok(3)] piece(1) more(2) tail(2) by simp
      ultimately show ?thesis by blast
    qed
  qed
qed

section \<open>Whole files\<close>

lemma csv_at_start:
  assumes "length junk = 2048" "0 \<notin> set text" "cells_fit 0 text"
  shows "csv_at (csv_start junk text cache) [] []"
  using assms by (cases junk) (auto simp: csv_at_def csv_start_def)

lemma ParseCSV_start:
  "ParseCSV junk (Some text) func skip False cache = csv_loop func skip False (csv_start junk text cache)"
  "ParseCSV junk (Some text) func skip True None = csv_loop func skip True (csv_start junk text None)"
  by (simp_all add: ParseCSV_def)

lemma ParseCSV_resume:
  assumes "fst (extract_int LONG_MIN LONG_MAX (open_istream (Some bs))) = Some fp"
  shows "ParseCSV junk (Some text) func skip True (Some bs) = csv_loop func skip True (csv_seek skip fp (csv_start junk text (Some bs)))"
  using assms by (simp add: ParseCSV_def)

lemma offer_accepts: "(\<And>hist c. func hist c) \<Longrightarrow> offer func hist cs = (False, hist @ cs)"
  by (induction func hist cs rule: offer.induct) auto

lemma offer_last:
  "offer func hist cells = (stop, h) \<Longrightarrow>
   snd (offer func hist (cells @ from_line skip [r])) = (if stop then h else h @ from_line skip [r])"
  by (cases r) (auto simp: offer_append split: prod.splits)

text \<open>The last line \<open>w\<close> of a text.\<close>

definition last_line :: "u8 list \<Rightarrow> u8 list \<Rightarrow> bool" where
  "last_line text w \<longleftrightarrow> (text = w \<or> (\<exists>u. text = u @ 10 # w)) \<and> 10 \<notin> set w \<and> length w < 2047"

lemma csv_loop_calls:
  assumes "csv_at st [] []" "csv_ref [] (cs_line st) (cs_cnt st) (cs_unread st) = (cells, (a, l, n))"
  shows "\<exists>st' tail. csv_loop func skip uc st = Some (Ret st')
    \<and> cs_calls st' = snd (offer func (cs_calls st) (from_line skip (cells @ [(a @ tail, l, n)])))
    \<and> (\<not> fst (offer func (cs_calls st) (from_line skip cells)) \<longrightarrow> tail_spec [] [] (cs_unread st) tail
       \<and> cs_cache st' = mark_ref skip uc (cs_line st) (cs_ftell st + length (cs_unread st)) (cs_cache st) (cs_unread st))"
proof -
  obtain stop h where off: "offer func (cs_calls st) (from_line skip cells) = (stop, h)" by fastforce
  obtain tail where res: "csv_result func skip uc st stop h (a, l, n) tail (csv_loop func skip uc st)"
    "\<not> stop \<longrightarrow> tail_spec [] [] (cs_unread st) tail"
    using csv_loop_ref [OF assms off] by blast
  then obtain st' where st': "csv_loop func skip uc st = Some (Ret st')" "stop \<longrightarrow> cs_calls st' = h"
    "\<not> stop \<longrightarrow> cs_calls st' = h @ from_line skip [(a @ tail, l, n)]
      \<and> cs_cache st' = mark_ref skip uc (cs_line st) (cs_ftell st + length (cs_unread st)) (cs_cache st) (cs_unread st)"
    unfolding csv_result_def fst_conv snd_conv by blast
  have "snd (offer func (cs_calls st) (from_line skip (cells @ [(a @ tail, l, n)])))
      = (if stop then h else h @ from_line skip [(a @ tail, l, n)])"
    using offer_last [OF off, of skip "(a @ tail, l, n)"] by (simp only: from_line_simps)
  then show ?thesis
    using st' res(2) off by (intro exI [of _ st'] exI [of _ tail]) (simp del: from_line_simps)
qed

lemma offer_stopped: "fst (offer func hist cs) \<Longrightarrow> offer func hist (cs @ ds) = offer func hist cs"
  by (auto simp: offer_append split: prod.splits)

lemma csv_loop_exact:
  assumes "csv_at st [] []" "csv_ref [] (cs_line st) (cs_cnt st) (cs_unread st) = (cells, (a, l, n))"
    and "\<And>tail. tail_spec [] [] (cs_unread st) tail \<Longrightarrow> tail = t"
  shows "\<exists>st'. csv_loop func skip uc st = Some (Ret st')
    \<and> cs_calls st' = snd (offer func (cs_calls st) (from_line skip (cells @ [(a @ t, l, n)])))
    \<and> (\<not> fst (offer func (cs_calls st) (from_line skip cells)) \<longrightarrow>
        cs_cache st' = mark_ref skip uc (cs_line st) (cs_ftell st + length (cs_unread st)) (cs_cache st) (cs_unread st))"
proof -
  obtain st' tail where run: "csv_loop func skip uc st = Some (Ret st')"
    "cs_calls st' = snd (offer func (cs_calls st) (from_line skip (cells @ [(a @ tail, l, n)])))"
    "\<not> fst (offer func (cs_calls st) (from_line skip cells)) \<longrightarrow> tail_spec [] [] (cs_unread st) tail
       \<and> cs_cache st' = mark_ref skip uc (cs_line st) (cs_ftell st + length (cs_unread st)) (cs_cache st) (cs_unread st)"
    using csv_loop_calls [OF assms(1,2)] by blast
  have "snd (offer func (cs_calls st) (from_line skip (cells @ [(a @ tail, l, n)])))
      = snd (offer func (cs_calls st) (from_line skip (cells @ [(a @ t, l, n)])))"
  proof (cases "fst (offer func (cs_calls st) (from_line skip cells))")
    case True
    then show ?thesis by (simp only: from_line_simps(3) offer_stopped)
  next
    case False
    then have "tail = t" using run(3) by (intro assms(3)) blast
    then show ?thesis by (rule arg_cong)
  qed
  then show ?thesis using run by auto
qed

lemma tail_none:
  assumes "last_line text w" "w \<noteq> []" "tail_spec [] stale text tail"
  shows "tail = []"
  using assms unfolding tail_spec_def last_line_def at_last_def by blast

lemma tail_first:
  assumes "last_line text w" "tail_spec [] stale (text @ [10]) tail"
  shows "tail = first_cell w"
  using assms unfolding tail_spec_def last_line_def at_last_def by fastforce

section \<open>Resuming at a remembered position\<close>

lemma csv_ref_lines:
  assumes "csv_ref acc line cnt cs = (cells, (a, l, n))"
  shows "l = line + int (count_list cs 10) \<and> (\<forall>(x, m, k)\<in>set cells. line \<le> m \<and> m \<le> l)"
  using assms
proof (induction acc line cnt cs arbitrary: cells rule: csv_ref.induct)
  case (2 acc line cnt c cs)
  consider "c = 10" | "c = 44" "c \<noteq> 10" | "c \<noteq> 10" "c \<noteq> 44" by auto
  then show ?case
  proof cases
    case 1
    then obtain cells' where "csv_ref [] (line + 1) 0 cs = (cells', (a, l, n))" "cells = (acc, line, cnt) # cells'"
      using "2.prems" by (auto split: prod.splits)
    then show ?thesis using "2.IH"(1) [OF 1, of cells'] 1 by force
  next
    case 2
    then obtain cells' where "csv_ref [] line (cnt + 1) cs = (cells', (a, l, n))" "cells = (acc, line, cnt) # cells'"
      using "2.prems" by (auto split: prod.splits)
    then show ?thesis using "2.IH"(2) [OF 2(2,1), of cells'] 2 by force
  next
    case 3
    then have "csv_ref (acc @ [c]) line cnt cs = (cells, (a, l, n))" using "2.prems" by simp
    then show ?thesis using "2.IH"(3) [OF 3, of cells] 3 by auto
  qed
qed simp

lemma from_line_none: "\<forall>(x, m, k)\<in>set cells. m < skip \<Longrightarrow> from_line skip cells = []"
  by (induction cells) auto

lemma from_line_all: "\<forall>(x, m, k)\<in>set cells. skip \<le> m \<Longrightarrow> from_line skip cells = cells"
  by (induction cells) auto

lemma from_line_split:
  assumes "csv_ref [] skip 0 v = (c2, (a, l, n))" "int (count_list (u @ [10]) 10) = skip"
  obtains c1 where "csv_ref [] 0 0 (u @ 10 # v) = (c1 @ c2, (a, l, n))" "from_line skip (c1 @ c2 @ [(x, l, n)]) = c2 @ [(x, l, n)]"
    "from_line skip (c1 @ c2) = c2" "from_line skip (c2 @ [(x, l, n)]) = c2 @ [(x, l, n)]"
proof -
  obtain c0 a0 l0 n0 where r0: "csv_ref [] 0 0 u = (c0, (a0, l0, n0))" by (metis prod.exhaust)
  note l0 = csv_ref_lines [OF r0]
  let ?c1 = "c0 @ [(a0, l0, n0)]"
  have skip: "skip = l0 + 1" using l0 assms(2) by simp
  have "csv_ref [] 0 0 (u @ 10 # v) = (?c1 @ c2, (a, l, n))"
    using assms(1) by (simp add: csv_ref_append [of _ _ _ u] r0 skip)
  moreover have "from_line skip ?c1 = []" using l0 skip by (intro from_line_none) auto
  moreover have "from_line skip c2 = c2" "skip \<le> l" using csv_ref_lines [OF assms(1)] by (auto intro!: from_line_all)
  ultimately show thesis by (intro that [of ?c1]) (simp_all add: skip)
qed

lemma mark_ref_done: "skip \<le> line \<Longrightarrow> mark_ref skip uc line pos m cs = m"
  by (induction skip uc line pos m cs rule: mark_ref.induct) auto

lemma mark_ref_line:
  assumes "int (count_list (u @ [10]) 10) = skip"
  shows "mark_ref skip True 0 (length (u @ 10 # v)) None (u @ 10 # v) = Some (print_int (int (length u + 1)))"
proof -
  obtain c0 a0 l0 n0 where r0: "csv_ref [] 0 0 u = (c0, (a0, l0, n0))" by (metis prod.exhaust)
  have skip: "skip = l0 + 1" using csv_ref_lines [OF r0] assms by simp
  have "mark_ref skip True 0 (length u + length (10 # v)) None (u @ 10 # v)
      = mark_ref skip True l0 (length u + length (10 # v)) (mark_ref skip True 0 (length u) None u) (10 # v)"
    by (rule mark_ref_append [OF r0])
  then show ?thesis by (simp add: skip mark_ref_done)
qed

lemma cells_fit_line: "cells_fit k (u @ 10 # v) \<Longrightarrow> cells_fit 0 v"
  by (induction u arbitrary: k) (auto simp: is_sep_def split: if_splits)

lemma read_position:
  assumes "n \<le> LONG_MAX" "0 \<le> n"
  shows "fst (extract_int LONG_MIN LONG_MAX (open_istream (Some (print_int n)))) = Some n"
  using extract_int_print [of "open_istream (Some (print_int n))" "[]" n "[]" LONG_MIN LONG_MAX] assms
  by (simp add: open_istream_def LONG_MIN_def)

section \<open>A full buffer\<close>

lemma fgets_take_full: "10 \<notin> set xs \<Longrightarrow> fgets_take (length xs) (xs @ rest) = (xs, rest, False)"
  by (induction xs) auto

definition csv_stuck :: "csv \<Rightarrow> bool" where
  "csv_stuck st \<longleftrightarrow> cs_lagacy st = 2047 \<and> (\<exists>x y. cs_buf st = x @ [y] \<and> length x = 2047)"

lemma csv_stuck_turn:
  assumes "csv_stuck st"
  obtains st2 where "csv_scan func skip uc (cs_lagacy st) 0 (csv_fgets st) = Ret (False, 2047, 0, st2)" "\<not> cs_feof st2"
    "csv_stuck (st2\<lparr>cs_lagacy := 2047 - 0, cs_buf := overwrite (cs_buf st2) 0 (take (2047 - 0) (drop 0 (cs_buf st2)))\<rparr>)"
proof -
  obtain x y where buf: "cs_buf st = x @ [y]" "length x = 2047" and lag: "cs_lagacy st = 2047"
    using assms by (auto simp: csv_stuck_def)
  let ?st = "st\<lparr>cs_feof := False, cs_buf := x @ [0]\<rparr>"
  have "csv_fgets st = ?st" using lag buf by (simp add: csv_fgets_def overwrite_def)
  moreover have "csv_scan func skip uc 2047 0 ?st = Ret (False, 2047, 0, ?st)"
    using buf(2) by (subst csv_scan.simps) (simp add: nth_append)
  ultimately show thesis using lag buf(2) by (intro that [of ?st]) (simp_all add: csv_stuck_def overwrite_def)
qed

lemma csv_stuck_forever: "csv_stuck st \<Longrightarrow> csv_loop func skip uc st = None"
proof (rule ccontr)
  assume stuck: "csv_stuck st" and "csv_loop func skip uc st \<noteq> None"
  then obtain y where "csv_loop func skip uc st = Some y" by blast
  then have "\<not> csv_stuck st"
  proof (rule csv_loop.raw_induct [where P = "\<lambda>_ _ _ st _. \<not> csv_stuck st", rotated])
    fix loop func skip uc st y
    assume IH: "\<And>func skip uc st y. loop func skip uc st = Some y \<Longrightarrow> \<not> csv_stuck st"
      and run: "(case csv_scan func skip uc (cs_lagacy st) 0 (csv_fgets st) of
        Ret (stopped, p, lst, st2) \<Rightarrow>
          if stopped then Some (Ret st2)
          else if p = 0 \<or> cs_feof st2 then Some (Ret (snd (csv_report func skip lst st2)))
          else loop func skip uc (st2\<lparr>cs_lagacy := p - lst,
            cs_buf := overwrite (cs_buf st2) 0 (take (p - lst) (drop lst (cs_buf st2)))\<rparr>)
      | _ \<Rightarrow> Some Indeterminate) = Some y"
    show "\<not> csv_stuck st"
    proof
      assume "csv_stuck st"
      then obtain st2 where st2: "csv_scan func skip uc (cs_lagacy st) 0 (csv_fgets st) = Ret (False, 2047, 0, st2)" "\<not> cs_feof st2"
        "csv_stuck (st2\<lparr>cs_lagacy := 2047 - 0, cs_buf := overwrite (cs_buf st2) 0 (take (2047 - 0) (drop 0 (cs_buf st2)))\<rparr>)"
        by (rule csv_stuck_turn)
      then show False using run IH by auto
    qed
  qed
  then show False using stuck by simp
qed

section \<open>Properties of ParseCSV\<close>



text \<open>
  C37. When the file ends with a line end, as most do, \<^verbatim>\<open>ParseCSV\<close> reports one call too many: after
  the last \<^verbatim>\<open>fgets\<close> has found nothing, the buffer still holds the last line, and its first cell is
  offered once more as the only cell of a further line.
\<close>

theorem csv_repeats_first_cell:
  assumes "length junk = 2048" "0 \<notin> set text" "cells_fit 0 (text @ [10])" "last_line text w"
  shows "\<exists>st. ParseCSV junk (Some (text @ [10])) func skip False cache = Some (Ret st)
    \<and> cs_calls st = snd (offer func [] (from_line skip (fst (csv_ref [] 0 0 (text @ [10]))
        @ [(first_cell w, int (count_list (text @ [10]) 10), 0)])))"
proof -
  let ?st = "csv_start junk (text @ [10]) cache"
  obtain cells a l n where ref: "csv_ref [] 0 0 (text @ [10]) = (cells, (a, l, n))" by (metis prod.exhaust)
  have r: "a = []" "n = 0" "l = int (count_list (text @ [10]) 10)"
    using csv_ref_newline [OF ref] csv_ref_lines [OF ref] by auto
  have st: "cs_line ?st = 0" "cs_cnt ?st = 0" "cs_unread ?st = text @ [10]" "cs_calls ?st = []" by (simp_all add: csv_start_def)
  have ref': "csv_ref [] (cs_line ?st) (cs_cnt ?st) (cs_unread ?st) = (cells, (a, l, n))"
    unfolding st by (rule ref)
  have nz: "0 \<notin> set (text @ [10])" using assms(2) by simp
  from csv_loop_exact [OF csv_at_start [OF assms(1) nz assms(3)] ref', of "first_cell w" func skip False]
  show ?thesis
    using tail_first [OF assms(4)]
    unfolding st ref fst_conv snd_conv r append_Nil ParseCSV_start by blast
qed

theorem csv_repeats_first_cell_witness:
  "\<exists>st. ParseCSV (replicate 2048 7) (Some [97, 98, 44, 99, 10]) (\<lambda>_ _. True) 0 False None = Some (Ret st)
    \<and> cs_calls st = [([97, 98], 0, 0), ([99], 0, 1), ([97, 98], 1, 0)]"
proof -
  have "last_line [97, 98, 44, 99] [97, 98, 44, 99]" by (simp add: last_line_def)
  from csv_repeats_first_cell [OF _ _ _ this, of "replicate 2048 7" "\<lambda>_ _. True" 0 None]
  show ?thesis by (simp add: is_sep_def first_cell_def)
qed



text \<open>
  C38. A file that starts with a cell of 2047 bytes or more keeps \<^verbatim>\<open>ParseCSV\<close> busy for ever: the
  cell fills the buffer, \<^verbatim>\<open>fgets\<close> has room for the terminator only, and the same bytes are carried
  over again and again.
\<close>

theorem csv_oversize_never_ends:
  assumes "length junk = 2048" "2047 \<le> length text" "\<forall>c\<in>set (take 2047 text). c \<noteq> 0 \<and> c \<noteq> 10 \<and> c \<noteq> 44"
  shows "ParseCSV junk (Some text) func skip False cache = None"
proof -
  let ?st = "csv_start junk text cache" and ?x = "take 2047 text"
  have st: "cs_line ?st = 0" "cs_cnt ?st = 0" "cs_calls ?st = []" "cs_lagacy ?st = 0" by (simp_all add: csv_start_def)
  have x: "10 \<notin> set ?x" "plain ?x" "length ?x = 2047" using assms(2,3) by (auto simp: is_sep_def)
  have "fgets_take 2047 (?x @ drop 2047 text) = (?x, drop 2047 text, False)"
    using fgets_take_full [OF x(1)] x(3) by metis
  then have fg: "csv_fgets ?st = ?st\<lparr>cs_unread := drop 2047 text, cs_ftell := 2047, cs_feof := False, cs_buf := ?x @ [0]\<rparr>"
    using assms(1,2) x(3) by (simp add: csv_fgets_def csv_start_def overwrite_def)
  have "\<exists>p lst st'. csv_scan func skip False (length ([] :: u8 list) + length ([] :: u8 list)) (length ([] :: u8 list)) (csv_fgets ?st)
        = Ret (False, p, lst, st')
      \<and> cs_calls st' = []
      \<and> (\<not> False \<longrightarrow> p = length ([] :: u8 list) + length ([] :: u8 list) + length ?x \<and> lst + length ?x = p
         \<and> st' = (csv_fgets ?st)\<lparr>cs_buf := [] @ map zero_sep ([] @ ?x) @ 0 # [], cs_line := 0, cs_cnt := 0, cs_calls := [],
               cs_cache := mark_ref skip False (cs_line (csv_fgets ?st)) (cs_ftell (csv_fgets ?st)) (cs_cache (csv_fgets ?st)) ?x\<rparr>)"
    by (rule csv_scan_ref) (use x in \<open>auto simp: fg st csv_ref_plain\<close>)
  then obtain st2 where scan: "csv_scan func skip False (cs_lagacy ?st) 0 (csv_fgets ?st) = Ret (False, 2047, 0, st2)"
    and st2: "cs_buf st2 = ?x @ [0]" "\<not> cs_feof st2"
    using x(3) map_zero_sep [OF x(2)] by (auto simp: fg st)
  have "csv_stuck (st2\<lparr>cs_lagacy := 2047 - 0, cs_buf := overwrite (cs_buf st2) 0 (take (2047 - 0) (drop 0 (cs_buf st2)))\<rparr>)"
    using st2(1) x(3) by (auto simp: csv_stuck_def overwrite_def)
  then show ?thesis
    unfolding ParseCSV_start csv_loop_unfold [OF scan] using st2(2) csv_stuck_forever by simp
qed

theorem csv_oversize_never_ends_witness:
  "ParseCSV (replicate 2048 7) (Some (replicate 3000 97)) (\<lambda>_ _. True) 0 False None = None"
  by (rule csv_oversize_never_ends) simp_all

section \<open>SkipFileToLine\<close>

lemma ignore_lines_bound: "ignore_lines n cs pos = Some p \<Longrightarrow> p \<le> pos + length cs"
  by (induction n cs pos rule: ignore_lines.induct) (auto split: if_splits)

text \<open>The position is the one after the line ends that were passed.\<close>

lemma ignore_lines_position:
  assumes "ignore_lines n cs pos = Some p"
  shows "pos \<le> p \<and> count_list (take (p - pos) cs) 10 = n \<and> (if n = 0 then p = pos else p \<noteq> pos \<and> last (take (p - pos) cs) = 10)"
  using assms
proof (induction n cs pos rule: ignore_lines.induct)
  case (3 n c cs pos)
  have "pos + 1 \<le> p"
    using 3 by (cases "c = 10") auto
  then obtain d where d: "p - pos = Suc d" "p - (pos + 1) = d" by (metis Suc_diff_Suc diff_Suc_eq_diff_pred less_eq_Suc_le add.commute plus_1_eq_Suc diff_add_inverse2 diff_diff_left)
  show ?case
  proof (cases "c = 10")
    case True
    then have "pos + 1 \<le> p \<and> count_list (take d cs) 10 = n \<and> (if n = 0 then p = pos + 1 else p \<noteq> pos + 1 \<and> last (take d cs) = 10)"
      using 3(1) [OF True, unfolded d(2)] 3(3) True by (simp split: if_splits)
    then show ?thesis using True d by (cases "take d cs") (auto split: if_splits)
  next
    case False
    then have "pos + 1 \<le> p \<and> count_list (take d cs) 10 = Suc n \<and> p \<noteq> pos + 1 \<and> last (take d cs) = 10"
      using 3(2) [OF False, unfolded d(2)] 3(3) False by simp
    then show ?thesis using False d by (cases "take d cs") auto
  qed
qed simp_all

text \<open>A later call finds the position file and takes the stream to the same place, or fails again.\<close>

lemma SkipFileToLine_again:
  assumes "SkipFileToLine fs content path num = Ret (pos, fs')" "fs (cache_path path num) = None"
    "int (length content) \<le> LONG_MAX"
  shows "SkipFileToLine fs' content path num = Ret (pos, fs')"
proof (cases "num = 0")
  case True
  then show ?thesis using assms(1) by (simp add: SkipFileToLine_def)
next
  case False
  let ?pos = "ignore_lines num content 0" and ?v = "\<lambda>pos. case pos of None \<Rightarrow> - 1 | Some p \<Rightarrow> int p"
  have pos: "pos = ?pos" "fs' = WriteFilePointerCache fs (?v pos) path num"
    using assms(1,2) False by (auto simp: SkipFileToLine_def RestoreFilePointerCache_def Let_def)
  have bound: "0 \<le> int p \<and> int p \<le> LONG_MAX" if "?pos = Some p" for p
    using ignore_lines_bound [OF that] assms(3) by simp
  have "- (2 ^ 64 - 1) \<le> ?v pos" "?v pos \<le> 2 ^ 64 - 1"
    using bound pos(1) by (auto simp: LONG_MAX_def split: option.splits)
  then have read: "fst (extract_int (- (2 ^ 64 - 1)) (2 ^ 64 - 1) (open_istream (Some (print_int (?v pos))))) = Some (?v pos)"
    using extract_int_print [of "open_istream (Some (print_int (?v pos)))" "[]" "?v pos" "[]"] by (simp add: open_istream_def)
  have "(let u = ?v pos mod 2 ^ 64 in if u \<le> LONG_MAX then Some (nat u) else None) = pos"
  proof (cases pos)
    case (Some p)
    then have "int p mod 2 ^ 64 = int p" using bound [of p] pos(1) by (simp add: LONG_MAX_def)
    then show ?thesis using Some bound [of p] pos(1) by simp
  qed (simp add: LONG_MAX_def)
  then have "RestoreFilePointerCache fs' path num = Ret (Some pos)"
    using read by (simp only: RestoreFilePointerCache_def pos(2) WriteFilePointerCache_def Let_def fun_upd_same option.case)
  then show ?thesis using False by (simp add: SkipFileToLine_def)
qed

end
