(* ===== verification/Dogee_SpinBarrier.thy ===== *)
theory Dogee_SpinBarrier
  imports Dogee_Prelude
begin

text \<open>
  \<^verbatim>\<open>LSpinBarrier\<close> of \<^verbatim>\<open>include/DogeeLocalSync.h\<close>, the barrier without a lock. Every access to one of
  its atomic variables is a step of its own, and \<^verbatim>\<open>compare_exchange_weak\<close> may fail although the
  values agree. The lemmas show that the first round synchronises, and that a later one need not.
\<close>

section \<open>The barrier\<close>

text \<open>
  Where a thread is in \<^verbatim>\<open>count_down_and_wait\<close>: it has loaded the generation, it has counted down to
  zero, it has advanced the generation, or it is about to test the generation or the count of its
  waiting loop.
\<close>

datatype spin_pc = Outside | Loaded u32 | CountedLast u32 | Advanced | TestGeneration u32 | TestCount u32

record spin_sys =
  sb_count :: u32
  sb_generation :: u32
  sb_reset_value :: u32
  sb_pc :: "nat \<Rightarrow> spin_pc"
  sb_calls :: "nat \<Rightarrow> nat"
  sb_returns :: "nat \<Rightarrow> nat"

definition LSpinBarrier_new :: "u32 \<Rightarrow> spin_sys" where
  "LSpinBarrier_new count = \<lparr>sb_count = count, sb_generation = 0, sb_reset_value = count, sb_pc = (\<lambda>_. Outside),
     sb_calls = (\<lambda>_. 0), sb_returns = (\<lambda>_. 0)\<rparr>"

definition spin_goto :: "nat \<Rightarrow> spin_pc \<Rightarrow> spin_sys \<Rightarrow> spin_sys" where
  "spin_goto t pc s = s\<lparr>sb_pc := (sb_pc s)(t := pc)\<rparr>"

definition spin_return :: "nat \<Rightarrow> spin_sys \<Rightarrow> spin_sys" where
  "spin_return t s = (spin_goto t Outside s)\<lparr>sb_returns := (sb_returns s)(t := sb_returns s t + 1)\<rparr>"

text \<open>The next step of thread \<open>t\<close>; \<open>ok\<close> says that the weak exchange does not fail without reason.\<close>

definition spin_exec :: "bool \<Rightarrow> nat \<Rightarrow> spin_sys \<Rightarrow> spin_sys" where
  "spin_exec ok t s = (case sb_pc s t of
      Outside \<Rightarrow> (spin_goto t (Loaded (sb_generation s)) s)\<lparr>sb_calls := (sb_calls s)(t := sb_calls s t + 1)\<rparr>
    | Loaded gen \<Rightarrow> let k = sb_count s - 1
        in spin_goto t (if k = 0 then CountedLast gen else TestGeneration gen) (s\<lparr>sb_count := k\<rparr>)
    | CountedLast gen \<Rightarrow>
        if ok \<and> sb_generation s = gen then spin_goto t Advanced (s\<lparr>sb_generation := gen + 1\<rparr>)
        else spin_return t s
    | Advanced \<Rightarrow> spin_return t (s\<lparr>sb_count := sb_reset_value s\<rparr>)
    | TestGeneration gen \<Rightarrow> if gen = sb_generation s then spin_goto t (TestCount gen) s else spin_return t s
    | TestCount gen \<Rightarrow> if sb_count s \<noteq> 0 then spin_goto t (TestGeneration gen) s else spin_return t s)"

fun spin_run :: "(bool \<times> nat) list \<Rightarrow> spin_sys \<Rightarrow> spin_sys" where
  "spin_run [] s = s"
| "spin_run ((ok, t) # sched) s = spin_run sched (spin_exec ok t s)"

section \<open>The first round\<close>

definition waiting :: "nat \<Rightarrow> spin_sys \<Rightarrow> nat set" where
  "waiting n s = {t. t < n \<and> sb_pc s t \<in> {TestGeneration 0, TestCount 0}}"

text \<open>Before the last thread has called: nobody has returned, and the count says who is missing.\<close>

definition early :: "nat \<Rightarrow> spin_sys \<Rightarrow> bool" where
  "early n s \<longleftrightarrow> (\<forall>t < n. sb_pc s t \<in> {Outside, Loaded 0, TestGeneration 0, TestCount 0}
       \<and> sb_returns s t = 0 \<and> (sb_pc s t = Outside \<longleftrightarrow> sb_calls s t = 0))
     \<and> sb_generation s = 0 \<and> sb_count s = of_nat (n - card (waiting n s)) \<and> card (waiting n s) < n"

definition all_called :: "nat \<Rightarrow> spin_sys \<Rightarrow> bool" where
  "all_called n s \<longleftrightarrow> (\<forall>t < n. 0 < sb_calls s t)"

lemma spin_exec_calls: "sb_calls s u \<le> sb_calls (spin_exec ok t s) u"
  by (cases "sb_pc s t") (auto simp: spin_exec_def spin_goto_def spin_return_def Let_def)

lemma all_called_step: "all_called n s \<Longrightarrow> all_called n (spin_exec ok t s)"
  unfolding all_called_def by (meson spin_exec_calls less_le_trans)

lemma finite_waiting [simp]: "finite (waiting n s)"
  by (simp add: waiting_def)

lemma early_move:
  assumes "early n s" "\<And>u. u \<noteq> t \<Longrightarrow> sb_pc s' u = sb_pc s u \<and> sb_returns s' u = sb_returns s u \<and> sb_calls s' u = sb_calls s u"
    and "sb_pc s' t \<in> {Loaded 0, TestGeneration 0, TestCount 0}" "0 < sb_calls s' t" "sb_returns s' t = 0"
    and "sb_generation s' = 0" "sb_count s' = of_nat (n - card (waiting n s'))" "card (waiting n s') < n"
  shows "early n s'"
proof -
  have "sb_pc s' u \<in> {Outside, Loaded 0, TestGeneration 0, TestCount 0} \<and> sb_returns s' u = 0
      \<and> (sb_pc s' u = Outside \<longleftrightarrow> sb_calls s' u = 0)" if "u < n" for u
    using assms(1,3-5) assms(2) [of u] that unfolding early_def by (cases "u = t") auto
  then show ?thesis using assms(6-8) unfolding early_def by blast
qed

lemma early_step:
  assumes "early n s" "t < n" "n < 2 ^ 32"
  shows "early n (spin_exec ok t s) \<or> all_called n (spin_exec ok t s)"
proof -
  let ?s = "spin_exec ok t s" and ?w = "waiting n s"
  have inv: "sb_generation s = 0" "sb_count s = of_nat (n - card ?w)" "card ?w < n"
    "\<And>u. u < n \<Longrightarrow> sb_pc s u \<in> {Outside, Loaded 0, TestGeneration 0, TestCount 0} \<and> sb_returns s u = 0
      \<and> (sb_pc s u = Outside \<longleftrightarrow> sb_calls s u = 0)"
    using assms(1) unfolding early_def by blast+
  have nz: "sb_count s \<noteq> 0"
    using inv(2,3) assms(3) of_nat_inject_small [of "n - card ?w" 0, where 'a = 32] by simp
  consider (out) "sb_pc s t = Outside" | (load) "sb_pc s t = Loaded 0"
    | (tg) "sb_pc s t = TestGeneration 0" | (tc) "sb_pc s t = TestCount 0" using inv(4) [OF assms(2)] by auto
  then show ?thesis
  proof cases
    case out
    then have "?s = (spin_goto t (Loaded 0) s)\<lparr>sb_calls := (sb_calls s)(t := sb_calls s t + 1)\<rparr>"
      by (simp add: spin_exec_def inv(1))
    moreover from this have "waiting n ?s = ?w" using out by (auto simp: waiting_def spin_goto_def)
    ultimately have "early n ?s"
      using inv assms(2) by (intro early_move [OF assms(1), of t]) (simp_all add: spin_goto_def)
    then show ?thesis ..
  next
    case tg
    then have s: "?s = spin_goto t (TestCount 0) s" by (simp add: spin_exec_def inv(1))
    then have "waiting n ?s = ?w" using tg by (auto simp: waiting_def spin_goto_def)
    then have "early n ?s"
      using inv(1-3) inv(4) [OF assms(2)] s tg by (intro early_move [OF assms(1), of t]) (simp_all add: spin_goto_def)
    then show ?thesis ..
  next
    case tc
    then have s: "?s = spin_goto t (TestGeneration 0) s" using nz by (simp add: spin_exec_def)
    then have "waiting n ?s = ?w" using tc by (auto simp: waiting_def spin_goto_def)
    then have "early n ?s"
      using inv(1-3) inv(4) [OF assms(2)] s tc by (intro early_move [OF assms(1), of t]) (simp_all add: spin_goto_def)
    then show ?thesis ..
  next
    case load
    have k: "sb_count s - 1 = of_nat (n - card ?w - 1)" unfolding inv(2) using inv(3) by (simp add: of_nat_diff)
    show ?thesis
    proof (cases "n = card ?w + 1")
      case True
      have "insert t ?w = {u. u < n}"
      proof (rule card_subset_eq)
        show "insert t ?w \<subseteq> {u. u < n}" using assms(2) by (auto simp: waiting_def)
        have "t \<notin> ?w" using load by (simp add: waiting_def)
        then show "card (insert t ?w) = card {u. u < n}" using True by simp
      qed simp
      then have all: "u = t \<or> u \<in> ?w" if "u < n" for u using that by blast
      have "0 < sb_calls s u" if "u < n" for u
        using all [OF that] inv(4) [OF that] load by (auto simp: waiting_def)
      then have "all_called n s" by (simp add: all_called_def)
      then show ?thesis using all_called_step by blast
    next
      case False
      have "(of_nat (n - card ?w - 1) :: u32) = of_nat 0 \<longleftrightarrow> n - card ?w - 1 = 0"
        using assms(3) by (intro of_nat_inject_small) simp_all
      then have "sb_count s - 1 \<noteq> 0" unfolding k using False inv(3) by simp
      then have s: "?s = spin_goto t (TestGeneration 0) (s\<lparr>sb_count := sb_count s - 1\<rparr>)"
        using load by (simp add: spin_exec_def Let_def)
      have w: "waiting n ?s = insert t ?w" using s assms(2) by (auto simp: waiting_def spin_goto_def)
      moreover have "t \<notin> ?w" using load by (simp add: waiting_def)
      ultimately have "card (waiting n ?s) = card ?w + 1" by simp
      then have "early n ?s"
        using inv(1,3) inv(4) [OF assms(2)] s k load False
        by (intro early_move [OF assms(1), of t]) (simp_all add: spin_goto_def)
      then show ?thesis ..
    qed
  qed
qed

lemma spin_run_first:
  assumes "early n s \<or> all_called n s" "list_all (\<lambda>(ok, t). t < n) sched" "n < 2 ^ 32"
  shows "early n (spin_run sched s) \<or> all_called n (spin_run sched s)"
  using assms(1,2)
proof (induction sched s rule: spin_run.induct)
  case (2 ok t sched s)
  then have "early n (spin_exec ok t s) \<or> all_called n (spin_exec ok t s)"
    using early_step [OF _ _ assms(3)] all_called_step by auto
  then show ?case using 2 by simp
qed simp

section \<open>Threads that wait for ever\<close>

definition spin_stuck :: "spin_sys \<Rightarrow> bool" where
  "spin_stuck s \<longleftrightarrow> sb_generation s = 0 \<and> sb_count s \<noteq> 0 \<and> (\<forall>t < 2. sb_pc s t \<in> {TestGeneration 0, TestCount 0})"

lemma spin_stuck_step:
  assumes "spin_stuck s" "t < 2"
  shows "spin_stuck (spin_exec ok t s) \<and> sb_returns (spin_exec ok t s) = sb_returns s"
proof -
  consider "sb_pc s t = TestGeneration 0" | "sb_pc s t = TestCount 0" using assms by (auto simp: spin_stuck_def)
  then show ?thesis using assms by cases (auto simp: spin_exec_def spin_goto_def spin_stuck_def)
qed

lemma spin_stuck_run:
  assumes "spin_stuck s" "list_all (\<lambda>(ok, t). t < 2) sched"
  shows "sb_returns (spin_run sched s) = sb_returns s"
  using assms by (induction sched s rule: spin_run.induct) (simp_all add: spin_stuck_step)

section \<open>Properties\<close>

text \<open>
  C30. The first round of the spinning barrier: under every interleaving of the atomic accesses of
  \<open>n\<close> threads, and however often a weak exchange fails, no thread returns from its first call
  before every thread has called.
\<close>

theorem spin_barrier_first_round:
  assumes "list_all (\<lambda>(ok, t). t < n) sched" "n < 2 ^ 32" "t < n"
    and "0 < sb_returns (spin_run sched (LSpinBarrier_new (of_nat n))) t" "u < n"
  shows "0 < sb_calls (spin_run sched (LSpinBarrier_new (of_nat n))) u"
proof -
  have "early n (LSpinBarrier_new (of_nat n))"
    using assms(3) by (auto simp: early_def LSpinBarrier_new_def waiting_def)
  then have "early n (spin_run sched (LSpinBarrier_new (of_nat n))) \<or> all_called n (spin_run sched (LSpinBarrier_new (of_nat n)))"
    using spin_run_first [OF _ assms(1,2)] by blast
  then show ?thesis using assms(3-5) by (auto simp: early_def all_called_def)
qed

text \<open>One round of two threads, the second one last.\<close>

definition spin_round :: "(bool \<times> nat) list" where
  "spin_round = [(True, 0), (True, 0), (True, 1), (True, 1), (True, 0), (True, 0)]"

text \<open>The same with a failing exchange, after which both threads call again.\<close>

definition spin_failing_round :: "(bool \<times> nat) list" where
  "spin_failing_round = spin_round @ [(False, 1), (True, 0), (True, 0), (True, 1), (True, 1)]"

theorem spin_barrier_first_round_witness:
  "0 < sb_returns (spin_run spin_round (LSpinBarrier_new (of_nat 2))) 0
    \<and> 0 < sb_calls (spin_run spin_round (LSpinBarrier_new (of_nat 2))) 1"
proof -
  have "0 < sb_returns (spin_run spin_round (LSpinBarrier_new (of_nat 2))) 0"
    by (simp add: spin_round_def LSpinBarrier_new_def spin_exec_def spin_goto_def spin_return_def)
  then show ?thesis using spin_barrier_first_round [of 2 spin_round 0 1] by (simp add: spin_round_def)
qed

text \<open>
  C39. The second round is not safe. A waiting thread leaves when it sees the count at zero, which
  is before the last thread has advanced the generation and restored the count; if it calls again
  at once, the generation advances under its second wait and it returns although the other thread
  has called only once. And when the weak exchange of the last thread fails, the count is never
  restored: both threads then call a second time and neither can leave.
\<close>

theorem spin_barrier_breaks:
  "sb_returns (spin_run (spin_round @ [(True, 0), (True, 0), (True, 1), (True, 0)]) (LSpinBarrier_new 2)) 0 = 2
   \<and> sb_calls (spin_run (spin_round @ [(True, 0), (True, 0), (True, 1), (True, 0)]) (LSpinBarrier_new 2)) 1 = 1
   \<and> sb_calls (spin_run spin_failing_round (LSpinBarrier_new 2)) 0 = 2
   \<and> sb_calls (spin_run spin_failing_round (LSpinBarrier_new 2)) 1 = 2
   \<and> (\<forall>sched. sb_returns (spin_run (filter (\<lambda>(ok, t). t < 2) sched) (spin_run spin_failing_round (LSpinBarrier_new 2)))
        = sb_returns (spin_run spin_failing_round (LSpinBarrier_new 2)))"
proof -
  let ?s = "spin_run spin_failing_round (LSpinBarrier_new 2)"
  note run = spin_round_def spin_failing_round_def LSpinBarrier_new_def spin_exec_def spin_goto_def spin_return_def
  have "spin_stuck ?s" by (simp add: spin_stuck_def run less_2_cases_iff)
  moreover have "list_all (\<lambda>(ok, t). t < 2) (filter (\<lambda>(ok, t). t < 2) sched)" for sched :: "(bool \<times> nat) list"
    by (simp add: list_all_iff)
  ultimately have "\<forall>sched. sb_returns (spin_run (filter (\<lambda>(ok, t). t < 2) sched) ?s) = sb_returns ?s"
    using spin_stuck_run by blast
  then show ?thesis by (simp add: run)
qed

end
