(* ===== verification/Dogee_Threads.thy ===== *)
theory Dogee_Threads
  imports Dogee_Sync
begin

text \<open>
  Remote threads, \<^verbatim>\<open>include/DogeeThreading.h\<close> and \<^verbatim>\<open>Dogee/DogeeThreading.cpp\<close>: the registry that gives
  every thread function the same number on all nodes, the thread object \<^verbatim>\<open>DThread\<close>, the entry
  functions that run on the slave, the identifiers of threads, and \<^verbatim>\<open>Join\<close>. A thread function is
  whatever the parameter \<open>run\<close> says it does to the shared memory, given the bytes of a function
  object (if there is one) and the parameter.
\<close>

section \<open>The registry of thread functions\<close>

record 'f registry =
  rg_procs :: "'f list"
  rg_ids :: "'f \<rightharpoonup> nat"
  rg_id :: nat

definition registry_empty :: "'f registry" where
  "registry_empty = \<lparr>rg_procs = [], rg_ids = Map.empty, rg_id = 0\<rparr>"

definition ThRegisterThreadFunction :: "'f registry \<Rightarrow> 'f \<Rightarrow> nat \<Rightarrow> 'f registry" where
  "ThRegisterThreadFunction r func i = r\<lparr>rg_procs := rg_procs r @ [func], rg_ids := (rg_ids r)(func \<mapsto> i)\<rparr>"

definition Register :: "'f registry \<Rightarrow> 'f \<Rightarrow> nat \<times> 'f registry" where
  "Register r func = (rg_id r, (ThRegisterThreadFunction r func (rg_id r))\<lparr>rg_id := rg_id r + 1\<rparr>)"

text \<open>\<^verbatim>\<open>GetProcIDMap ()[func]\<close> gives, and stores, 0 for a function that was never registered.\<close>

definition ProcID :: "'f registry \<Rightarrow> 'f \<Rightarrow> nat \<times> 'f registry" where
  "ProcID r func = (case rg_ids r func of Some i \<Rightarrow> (i, r) | None \<Rightarrow> (0, r\<lparr>rg_ids := (rg_ids r)(func \<mapsto> 0)\<rparr>))"

section \<open>Thread identifiers\<close>

text \<open>
  \<^verbatim>\<open>tid_count\<close> of every node beside the cluster; \<^verbatim>\<open>current_thread_id\<close>, a thread-local variable, is an
  argument and a result. The storage connections of a thread are not part of the state.
\<close>

record thread_env =
  te_cluster :: Cluster
  te_tid_count :: "nat \<Rightarrow> u32"

definition AllocThreadId :: "thread_env \<Rightarrow> nat \<Rightarrow> u32 \<times> thread_env" where
  "AllocThreadId e n = (te_tid_count e n, e\<lparr>te_tid_count := (te_tid_count e)(n := te_tid_count e n + 1)\<rparr>)"

definition InitCurrentThread :: "thread_env \<Rightarrow> nat \<Rightarrow> u32 \<Rightarrow> u32 \<times> thread_env" where
  "InitCurrentThread e n cur =
     (if cur = 0 then let (tid, e1) = AllocThreadId e n
        in (tid, e1\<lparr>te_cluster := RcPrepareNewThread (te_cluster e1) n tid\<rparr>)
      else (cur, e))"

definition DestroyCurrentThread :: "thread_env \<Rightarrow> nat \<Rightarrow> u32 \<Rightarrow> u32 \<times> thread_env" where
  "DestroyCurrentThread e n cur =
     (if cur \<noteq> 0 then (0, e\<lparr>te_cluster := RcDeleteThread (te_cluster e) n cur\<rparr>) else (cur, e))"

section \<open>Thread objects\<close>

text \<open>The fields of a \<^verbatim>\<open>DThread\<close>: those of \<^verbatim>\<open>DEvent\<close> first, two keys for each.\<close>

datatype ThreadState = ThreadCreating | ThreadRunning | ThreadStoped

fun state_word :: "ThreadState \<Rightarrow> u32" where
  "state_word ThreadCreating = 1"
| "state_word ThreadRunning = 2"
| "state_word ThreadStoped = 3"

definition set_field :: "shared \<Rightarrow> ObjectKey \<Rightarrow> FieldKey \<Rightarrow> u32 \<Rightarrow> shared" where
  "set_field sh okey f v = sh(okey := (sh okey)(f := v))"

definition set_state :: "shared \<Rightarrow> ObjectKey \<Rightarrow> ThreadState \<Rightarrow> shared" where
  "set_state sh okey st = set_field sh okey 4 (state_word st)"

definition DEvent_new :: "shared \<Rightarrow> ObjectKey \<Rightarrow> bool \<Rightarrow> bool \<Rightarrow> shared" where
  "DEvent_new sh okey auto_reset is_signal =
     set_field (set_field sh okey 0 (of_bool auto_reset)) okey 2 (of_bool is_signal)"

definition DThread_fields :: "shared \<Rightarrow> ObjectKey \<Rightarrow> nat \<Rightarrow> shared" where
  "DThread_fields sh okey nd = set_field (set_state (DEvent_new sh okey False False) okey ThreadCreating) okey 6 (of_nat nd)"

text \<open>The constructors: for a registered function, and for a callable object with its number and bytes.\<close>

definition DThread_new :: "'f registry \<Rightarrow> Cluster \<Rightarrow> shared \<Rightarrow> ObjectKey \<Rightarrow> 'f \<Rightarrow> nat \<Rightarrow> u32 \<Rightarrow>
    Cluster \<times> shared \<times> 'f registry" where
  "DThread_new r c sh okey func nd prm =
     (let sh' = DThread_fields sh okey nd; (i, r') = ProcID r func
      in (RcCreateThread c nd (of_nat i) prm okey, sh', r'))"

definition DThread_new_object :: "Cluster \<Rightarrow> shared \<Rightarrow> ObjectKey \<Rightarrow> nat \<Rightarrow> bool \<Rightarrow> u8 list \<Rightarrow> nat \<Rightarrow> u32 \<Rightarrow>
    (Cluster \<times> shared) cxx" where
  "DThread_new_object c sh okey i is_simple func nd prm =
     (let sh' = DThread_fields sh okey nd
      in if is_simple then Ret (RcCreateThread c nd (of_nat i) prm okey, sh')
         else cxx_bind (RcCreateThreadObject c nd (of_nat i) prm okey func) (\<lambda>c'. Ret (c', sh')))"

definition GetState :: "shared \<Rightarrow> ObjectKey \<Rightarrow> u32" where
  "GetState sh okey = sh okey 4"

section \<open>The entry functions\<close>

text \<open>
  \<^verbatim>\<open>ThThreadEntry\<close> and \<^verbatim>\<open>ThThreadEntryObject\<close> on node \<open>n\<close>, which differ in the function object only:
  the index is the position in the vector of functions, which is read without a test.
\<close>

definition ThThreadEntry :: "'f registry \<Rightarrow> ('f \<Rightarrow> u8 list option \<Rightarrow> u32 \<Rightarrow> shared \<Rightarrow> shared) \<Rightarrow> nat \<Rightarrow> thread_env \<Rightarrow>
    shared \<Rightarrow> u32 \<times> u32 \<times> ObjectKey \<times> u8 list option \<Rightarrow> (thread_env \<times> shared) cxx" where
  "ThThreadEntry r run n e sh entry =
     (let (index, prm, okey, data) = entry; (tid, e1) = InitCurrentThread e n 0;
          sh1 = set_state sh okey ThreadRunning
      in if length (rg_procs r) \<le> unat index then Indeterminate
         else let sh2 = set_state (run (rg_procs r ! unat index) data prm sh1) okey ThreadStoped
              in cxx_bind (RcSetEvent sh2 (te_cluster e1) n tid okey) (\<lambda>c.
                   Ret (snd (DestroyCurrentThread (e1\<lparr>te_cluster := c\<rparr>) n tid), sh2)))"

section \<open>The registry finds what was registered\<close>

definition registry_ok :: "'f registry \<Rightarrow> bool" where
  "registry_ok r \<longleftrightarrow> rg_id r = length (rg_procs r)
     \<and> (\<forall>f i. rg_ids r f = Some i \<longrightarrow> i < length (rg_procs r) \<and> rg_procs r ! i = f)"

lemma registry_ok_empty: "registry_ok registry_empty"
  by (simp add: registry_ok_def registry_empty_def)

lemma registry_ok_Register: "registry_ok r \<Longrightarrow> registry_ok (snd (Register r f))"
  by (auto simp: registry_ok_def Register_def ThRegisterThreadFunction_def nth_append less_SucI)

definition register_all :: "'f list \<Rightarrow> 'f registry" where
  "register_all fs = fold (\<lambda>f r. snd (Register r f)) fs registry_empty"

lemma register_all_snoc: "register_all (fs @ [f]) = snd (Register (register_all fs) f)"
  by (simp add: register_all_def)

lemma register_all_ok:
  "registry_ok (register_all fs) \<and> rg_procs (register_all fs) = fs \<and> dom (rg_ids (register_all fs)) = set fs"
proof (induction fs rule: rev_induct)
  case Nil
  then show ?case by (simp add: register_all_def registry_ok_empty) (simp add: registry_empty_def)
next
  case (snoc f fs)
  let ?r = "register_all fs"
  have "rg_procs (snd (Register ?r f)) = rg_procs ?r @ [f]" "dom (rg_ids (snd (Register ?r f))) = insert f (dom (rg_ids ?r))"
    by (auto simp: Register_def ThRegisterThreadFunction_def)
  then show ?case using snoc registry_ok_Register [of ?r f] by (simp add: register_all_snoc)
qed

section \<open>Waiting for a thread\<close>

text \<open>The calls of \<^verbatim>\<open>Join\<close> that reach the manager, one after the other.\<close>

fun joins :: "shared \<Rightarrow> SyncManager \<Rightarrow> ObjectKey \<Rightarrow> (nat \<times> u32) list \<Rightarrow> SyncManager \<times> SyncThreadNode list" where
  "joins sh m okey [] = (m, [])"
| "joins sh m okey ((src, tid) # js) =
     (let (m1, w1) = EventWaitMsg sh m src okey tid; (m2, w2) = joins sh m1 okey js in (m2, w1 @ w2))"

definition thread_nodes :: "(nat \<times> u32) list \<Rightarrow> SyncThreadNode list" where
  "thread_nodes js = map (\<lambda>(src, tid). \<lparr>machine = src, thread_id = tid\<rparr>) js"

text \<open>A thread object's event: it is never reset, and signalled once the thread has stopped.\<close>

definition thread_event :: "shared \<Rightarrow> SyncManager \<Rightarrow> ObjectKey \<Rightarrow> bool \<Rightarrow> SyncThreadNode list \<Rightarrow> bool" where
  "thread_event sh m okey stopped ws \<longleftrightarrow> (let node = CreateEventNode sh m okey
     in sn_data node = 0 \<and> (sn_val node \<noteq> 0) = stopped \<and> sn_waitlist node = ws)"

lemma thread_node_put [simp]: "CreateEventNode sh (put_node m okey node) okey = node"
  by (simp add: CreateEventNode_def put_node_def)

lemma EventWaitMsg_thread:
  assumes "thread_event sh m okey stopped ws"
  shows "snd (EventWaitMsg sh m src okey tid) = (if stopped then [\<lparr>machine = src, thread_id = tid\<rparr>] else [])"
    and "thread_event sh (fst (EventWaitMsg sh m src okey tid)) okey stopped
      (if stopped then ws else ws @ [\<lparr>machine = src, thread_id = tid\<rparr>])"
  using assms by (auto simp: EventWaitMsg_def thread_event_def Let_def)

lemma joins_thread:
  assumes "thread_event sh m okey stopped ws"
  shows "snd (joins sh m okey js) = (if stopped then thread_nodes js else [])
    \<and> thread_event sh (fst (joins sh m okey js)) okey stopped (if stopped then ws else ws @ thread_nodes js)"
  using assms
proof (induction js arbitrary: m ws)
  case (Cons j js)
  obtain src tid where j: "j = (src, tid)" by (cases j)
  obtain m1 w1 where w: "EventWaitMsg sh m src okey tid = (m1, w1)" by fastforce
  obtain m2 w2 where r: "joins sh m1 okey js = (m2, w2)" by fastforce
  from EventWaitMsg_thread [OF Cons.prems, of src tid] w
  have "w1 = (if stopped then [\<lparr>machine = src, thread_id = tid\<rparr>] else [])"
    "thread_event sh m1 okey stopped (if stopped then ws else ws @ [\<lparr>machine = src, thread_id = tid\<rparr>])" by simp_all
  with Cons.IH [OF this(2)] r show ?case using j w by (cases stopped) (simp_all add: thread_nodes_def)
qed (cases stopped; simp add: thread_nodes_def)

lemma SetEventMsg_thread:
  assumes "thread_event sh m okey stopped ws"
  shows "snd (SetEventMsg sh m src okey) = ws" "thread_event sh (fst (SetEventMsg sh m src okey)) okey True []"
  using assms by (auto simp: SetEventMsg_def thread_event_def Let_def)

lemma fresh_thread_event:
  assumes "sync_data m okey = None" "sh okey 0 = 0" "sh okey 2 = 0"
  shows "thread_event sh m okey False []"
  using assms by (simp add: thread_event_def CreateEventNode_def)

section \<open>Properties\<close>

text \<open>
  A registered function runs on the node it is sent to: whatever functions are registered, the
  same on all nodes and in the same order, a \<^verbatim>\<open>DThread\<close> made for one of them puts a command on the
  way that the slave's loop turns into the start of a thread with the given parameter and thread
  object; the entry function runs exactly this function, between the states \<^verbatim>\<open>ThreadRunning\<close> and
  \<^verbatim>\<open>ThreadStoped\<close> of the object, then asks the master to signal it.
\<close>

theorem thread_runs_function:
  assumes "func \<in> set fs" "length fs < 2 ^ 32" "n \<noteq> 0" "to_node c n = []" "\<not> slave_done c n" "te_tid_count e n \<noteq> 0"
    and "DThread_new (register_all fs) c sh okey func n prm = (c1, sh1, r1)"
  shows "\<exists>c2 i e'. RcSlaveMainLoop c1 n = Some (Ret c2) \<and> to_node c2 n = []
    \<and> started c2 n = (of_nat i, prm, okey, None) # started c n
    \<and> GetState sh1 okey = state_word ThreadCreating
    \<and> ThThreadEntry (register_all fs) run n e sh1 (of_nat i, prm, okey, None)
      = Ret (e', set_state (run func None prm (set_state sh1 okey ThreadRunning)) okey ThreadStoped)
    \<and> to_master (te_cluster e') n = to_master (te_cluster e) n @ [rc_pack RcCmdSetEvent okey 0]
    \<and> thread_events (te_cluster e') n (te_tid_count e n) = None"
proof -
  have reg: "registry_ok (register_all fs)" "rg_procs (register_all fs) = fs" "func \<in> dom (rg_ids (register_all fs))"
    using register_all_ok [of fs] assms(1) by simp_all
  then obtain i where i: "rg_ids (register_all fs) func = Some i" "i < length fs" "fs ! i = func"
    by (auto simp: registry_ok_def)
  have idx: "unat (of_nat i :: u32) = i" using i(2) assms(2) by (simp add: unat_of_nat_small)
  have c1: "c1 = RcCreateThread c n (of_nat i) prm okey" "sh1 = DThread_fields sh okey n"
    using assms(7) i(1) by (simp_all add: DThread_new_def ProcID_def)
  let ?p = "\<lparr>cmd = RcCmdCreateThread, param = of_nat i, param2 = prm, param3 = okey, param4 = 0\<rparr>"
  have slave: "RcSlaveMainLoop c1 n = Some (Ret (start_thread (c1\<lparr>to_node := (to_node c1)(n := [])\<rparr>) n ?p None))"
    using assms(4,5) by (simp add: c1(1) RcCreateThread_def RcSlaveMainLoop_def send_node_def)
  obtain e' where run: "ThThreadEntry (register_all fs) run n e sh1 (of_nat i, prm, okey, None)
      = Ret (e', set_state (run func None prm (set_state sh1 okey ThreadRunning)) okey ThreadStoped)"
    "to_master (te_cluster e') n = to_master (te_cluster e) n @ [rc_pack RcCmdSetEvent okey 0]"
    "thread_events (te_cluster e') n (te_tid_count e n) = None"
    using assms(3,6) i idx reg(2)
    by (simp add: ThThreadEntry_def InitCurrentThread_def AllocThreadId_def DestroyCurrentThread_def RcSetEvent_def
      sync_request_def send_master_def RcPrepareNewThread_def RcDeleteThread_def set_event_def)
  have "GetState sh1 okey = state_word ThreadCreating"
    by (simp add: c1(2) GetState_def DThread_fields_def set_state_def set_field_def)
  then show ?thesis using slave run
    by (intro exI [of _ "start_thread (c1\<lparr>to_node := (to_node c1)(n := [])\<rparr>) n ?p None"] exI [of _ i] exI [of _ e'])
      (simp add: start_thread_def c1(1) RcCreateThread_def send_node_def)
qed


definition example_cluster :: Cluster where
  "example_cluster = \<lparr>syncmanager = SyncManager_init 2 0, to_master = (\<lambda>_. []), to_node = (\<lambda>_. []),
     thread_events = (\<lambda>_ _. None), blocked = (\<lambda>_ _. False), started = (\<lambda>_. []), restarting = (\<lambda>_. False),
     slave_done = (\<lambda>_. False)\<rparr>"

theorem thread_runs_function_witness:
  "\<exists>c2 i e'. RcSlaveMainLoop (fst (DThread_new (register_all [10, 20 :: nat]) example_cluster (\<lambda>_ _. 0) 7 20 1 5)) 1 = Some (Ret c2)
    \<and> started c2 1 = [(of_nat i, 5, 7, None)]
    \<and> ThThreadEntry (register_all [10, 20]) (\<lambda>f d p sh. sh(9 := (\<lambda>_. of_nat f + p))) 1
        \<lparr>te_cluster = example_cluster, te_tid_count = (\<lambda>_. 1)\<rparr> (DThread_fields (\<lambda>_ _. 0) 7 1) (of_nat i, 5, 7, None)
      = Ret (e', set_state ((set_state (DThread_fields (\<lambda>_ _. 0) 7 1) 7 ThreadRunning)(9 := (\<lambda>_. 25))) 7 ThreadStoped)"
proof -
  obtain c1 sh1 r1 where new: "DThread_new (register_all [10, 20 :: nat]) example_cluster (\<lambda>_ _. 0) 7 20 1 5 = (c1, sh1, r1)"
    by (metis prod.exhaust)
  have sh1: "sh1 = DThread_fields (\<lambda>_ _. 0) 7 1" using new by (auto simp: DThread_new_def split: prod.splits)
  have env: "te_tid_count \<lparr>te_cluster = example_cluster, te_tid_count = (\<lambda>_. 1)\<rparr> 1 \<noteq> 0" by simp
  have ex: "to_node example_cluster 1 = []" "\<not> slave_done example_cluster 1" "started example_cluster 1 = []"
    by (simp_all add: example_cluster_def)
  have fs: "20 \<in> set [10, 20 :: nat]" "length [10, 20 :: nat] < 2 ^ 32" "(1 :: nat) \<noteq> 0" by simp_all
  obtain c2 i e' where "RcSlaveMainLoop c1 1 = Some (Ret c2)" "started c2 1 = (of_nat i, 5, 7, None) # started example_cluster 1"
    "ThThreadEntry (register_all [10, 20]) (\<lambda>f d p sh. sh(9 := (\<lambda>_. of_nat f + p))) 1
        \<lparr>te_cluster = example_cluster, te_tid_count = (\<lambda>_. 1)\<rparr> sh1 (of_nat i, 5, 7, None)
      = Ret (e', set_state ((set_state sh1 7 ThreadRunning)(9 := (\<lambda>_. of_nat 20 + 5))) 7 ThreadStoped)"
    using thread_runs_function [OF fs ex(1,2) env new, of "\<lambda>f d p sh. sh(9 := (\<lambda>_. of_nat f + p))"] by blast
  then show ?thesis unfolding new fst_conv sh1 ex(3) by (intro exI [of _ c2] exI [of _ i] exI [of _ e']) simp
qed


end
